(* ===== verification/Prelude.thy ===== *)
theory Prelude
  imports Main "HOL-Library.Word"
begin

text \<open>
  What the components share: bytes, the conversions of the C integer types, symmetric bounds and
  their rules (the collection \<open>within_intro\<close>), the little-endian value of a byte string and
  two general facts on positional sums and on disjoint bitwise or.

  A signed C integer is an \<^typ>\<open>int\<close>; \<open>i8\<close>, \<open>i32\<close> and \<open>i64\<close> are the conversions to the signed
  types of that width (two's complement), written wherever the code stores or computes at that
  type.  The arithmetic shift \<^verbatim>\<open>x >> n\<close> is the floor division by $2^n$.
\<close>

unbundle bit_operations_syntax

named_theorems within_intro

type_synonym byte = "8 word"
type_synonym bytes = "8 word list"

definition i8 :: "int \<Rightarrow> int" where
  "i8 x = signed_take_bit 7 x"

definition i32 :: "int \<Rightarrow> int" where
  "i32 x = signed_take_bit 31 x"

definition i64 :: "int \<Rightarrow> int" where
  "i64 x = signed_take_bit 63 x"

definition within :: "int \<Rightarrow> int \<Rightarrow> bool" where
  "within k x \<longleftrightarrow> - k \<le> x \<and> x \<le> k"

lemma withinI [intro]: "- k \<le> x \<Longrightarrow> x \<le> k \<Longrightarrow> within k x"
  by (simp add: within_def)

lemma withinD: "within k x \<Longrightarrow> - k \<le> x" "within k x \<Longrightarrow> x \<le> k"
  by (simp_all add: within_def)

lemma within_nonneg: "within k x \<Longrightarrow> 0 \<le> k"
  by (simp add: within_def)

lemma within_mono: "within k x \<Longrightarrow> k \<le> k' \<Longrightarrow> within k' x"
  by (simp add: within_def)

lemma within_0 [within_intro]: "0 \<le> k \<Longrightarrow> within k 0"
  by (simp add: within_def)

lemma within_add [within_intro]: "within a x \<Longrightarrow> within b y \<Longrightarrow> within (a + b) (x + y)"
  by (simp add: within_def)

lemma within_diff [within_intro]: "within a x \<Longrightarrow> within b y \<Longrightarrow> within (a + b) (x - y)"
  by (simp add: within_def)

lemma within_uminus [within_intro]: "within a x \<Longrightarrow> within a (- x)"
  by (simp add: within_def)

lemma within_abs: "within k x \<longleftrightarrow> \<bar>x\<bar> \<le> k"
  by (auto simp add: within_def abs_le_iff)

lemma within_mult [within_intro]: "within a x \<Longrightarrow> within b y \<Longrightarrow> within (a * b) (x * y)"
  by (auto simp add: within_abs abs_mult intro: mult_mono')

lemma within_scale: "within a x \<Longrightarrow> 0 \<le> n \<Longrightarrow> within (n * a) (n * x)"
  using within_mult [of n n a x] by (simp add: within_def)

lemma i32_id: "- (2 ^ 31) \<le> x \<Longrightarrow> x < 2 ^ 31 \<Longrightarrow> i32 x = x"
  unfolding i32_def by (rule signed_take_bit_int_eq_self) simp_all

lemma i64_id: "- (2 ^ 63) \<le> x \<Longrightarrow> x < 2 ^ 63 \<Longrightarrow> i64 x = x"
  unfolding i64_def by (rule signed_take_bit_int_eq_self) simp_all

lemma i8_id: "- (2 ^ 7) \<le> x \<Longrightarrow> x < 2 ^ 7 \<Longrightarrow> i8 x = x"
  unfolding i8_def by (rule signed_take_bit_int_eq_self) simp_all

lemma i32_within: "within k x \<Longrightarrow> k < 2 ^ 31 \<Longrightarrow> i32 x = x"
  by (rule i32_id) (simp_all add: within_def)

lemma i64_within: "within k x \<Longrightarrow> k < 2 ^ 63 \<Longrightarrow> i64 x = x"
  by (rule i64_id) (simp_all add: within_def)

lemma i32_range: "- (2 ^ 31) \<le> i32 x \<and> i32 x < 2 ^ 31"
  unfolding i32_def
  using signed_take_bit_int_greater_eq_minus_exp [of 31 x] signed_take_bit_int_less_exp [of 31 x]
  by simp

text \<open>Wrapping respects sums, differences and products, so one conversion of a whole expression suffices.\<close>

lemma i64_ring:
  "i64 (i64 x + i64 y) = i64 (x + y)" "i64 (i64 x - i64 y) = i64 (x - y)" "i64 (i64 x * i64 y) = i64 (x * y)"
  by (simp_all add: i64_def signed_take_bit_add signed_take_bit_diff signed_take_bit_mult)

definition le_val :: "bytes \<Rightarrow> int" where
  "le_val bs = horner_sum uint 256 bs"

lemma horner_sum_update:
  fixes B :: int
  shows "i < length xs \<Longrightarrow> horner_sum f B (xs[i := x]) = horner_sum f B xs + (f x - f (xs ! i)) * B ^ i"
proof (induction xs arbitrary: i)
  case (Cons y ys)
  show ?case
  proof (cases i)
    case (Suc j)
    with Cons.prems show ?thesis by (simp add: Cons.IH algebra_simps)
  qed (simp add: algebra_simps)
qed simp

lemma or_shift_add:
  fixes a b :: int
  assumes "0 \<le> a" "a < 2 ^ n"
  shows "a OR (b * 2 ^ n) = a + b * 2 ^ n"
proof -
  have "a = take_bit n a" using assms by (simp add: take_bit_int_eq_self)
  moreover have "b * 2 ^ n = push_bit n b" by (simp add: push_bit_eq_mult)
  ultimately show ?thesis
    by (metis concat_bit_def concat_bit_eq)
qed

end
