(* ===== verification/Le_Bytes.thy ===== *)
theory Le_Bytes
  imports Prelude
begin

text \<open>
  The little-endian readers \<^verbatim>\<open>load_3\<close> and \<^verbatim>\<open>load_4\<close> of \<^verbatim>\<open>src/src/crypto/crypto-ops.c\<close>, the reference
  encoding \<open>le_bytes\<close> of a number as bytes, and the facts with which the unpacking of bytes into
  limbs (\<open>slice\<close>) and the packing of limbs into bytes (\<open>byte_low\<close>, \<open>byte_cross\<close>) are proved.
\<close>

definition load_3 :: "bytes \<Rightarrow> 64 word" where
  "load_3 s = (ucast (s ! 0) OR push_bit 8 (ucast (s ! 1))) OR push_bit 16 (ucast (s ! 2))"

definition load_4 :: "bytes \<Rightarrow> 64 word" where
  "load_4 s = ((ucast (s ! 0) OR push_bit 8 (ucast (s ! 1))) OR push_bit 16 (ucast (s ! 2)))
              OR push_bit 24 (ucast (s ! 3))"

lemma le_val_simps [simp]: "le_val [] = 0" "le_val (b # bs) = uint b + 256 * le_val bs"
  by (simp_all add: le_val_def)

lemma le_val_append: "le_val (xs @ ys) = le_val xs + 256 ^ length xs * le_val ys"
  by (simp add: le_val_def horner_sum_append)

lemma uint_byte: "0 \<le> uint (b :: byte)" "uint (b :: byte) < 256"
  using uint_lt2p [of b] by simp_all

lemma le_val_nonneg [simp]: "0 \<le> le_val bs"
  by (induction bs) simp_all

lemma le_val_less: "le_val bs < 256 ^ length bs"
proof (induction bs)
  case (Cons b bs)
  then have "le_val bs + 1 \<le> 256 ^ length bs" by simp
  then have "256 * (le_val bs + 1) \<le> 256 * 256 ^ length bs" by simp
  with uint_byte(2) [of b] show ?case by (simp add: algebra_simps)
qed simp

lemma le_val_split: "le_val bs = le_val (take k bs) + 256 ^ length (take k bs) * le_val (drop k bs)"
  using le_val_append [of "take k bs" "drop k bs"] by simp

lemma le_val_take: "k \<le> length bs \<Longrightarrow> le_val (take k bs) = le_val bs mod 256 ^ k"
  using le_val_less [of "take k bs"] by (simp add: le_val_split [of bs k])

lemma le_val_drop: "k \<le> length bs \<Longrightarrow> le_val (drop k bs) = le_val bs div 256 ^ k"
  using le_val_less [of "take k bs"] by (simp add: le_val_split [of bs k])

lemma uint_nth: "i < length bs \<Longrightarrow> uint (bs ! i) = le_val bs div 256 ^ i mod 256"
proof -
  assume i: "i < length bs"
  then have "drop i bs = bs ! i # drop (Suc i) bs" by (rule Cons_nth_drop_Suc [symmetric])
  then have "le_val bs div 256 ^ i = uint (bs ! i) + 256 * le_val (drop (Suc i) bs)"
    using i by (simp add: le_val_drop [symmetric])
  with uint_byte [of "bs ! i"] show ?thesis by simp
qed

definition le_bytes :: "nat \<Rightarrow> int \<Rightarrow> bytes" where
  "le_bytes n v = map (\<lambda>i. word_of_int (v div 256 ^ i)) [0..<n]"

lemma length_le_bytes [simp]: "length (le_bytes n v) = n"
  by (simp add: le_bytes_def)

lemma le_bytes_le_val: "length bs = n \<Longrightarrow> le_bytes n (le_val bs) = bs"
proof (rule nth_equalityI)
  fix i assume n: "length bs = n" and i: "i < length (le_bytes n (le_val bs))"
  then have "uint (le_bytes n (le_val bs) ! i) = uint (bs ! i)"
    by (simp add: le_bytes_def uint_nth uint_word_of_int)
  then show "le_bytes n (le_val bs) ! i = bs ! i" by (metis word_of_int_uint)
qed simp

lemma le_val_le_bytes: "le_val (le_bytes n v) = v mod 256 ^ n"
proof (induction n arbitrary: v)
  case (Suc n)
  have "le_bytes (Suc n) v = word_of_int v # le_bytes n (v div 256)"
    by (simp add: le_bytes_def upt_conv_Cons map_Suc_upt [symmetric] zdiv_zmult2_eq [symmetric] del: upt_Suc)
  with Suc [of "v div 256"] show ?case
    by (simp add: uint_word_of_int zmod_zmult2_eq ac_simps)
qed (simp add: le_bytes_def)

lemma uint_push_ucast:
  "n \<le> 24 \<Longrightarrow> uint (push_bit n (ucast (b :: byte)) :: 64 word) = uint b * 2 ^ n"
proof -
  assume n: "n \<le> 24"
  have "uint b * 2 ^ n < 256 * 2 ^ 24"
    using uint_byte [of b] power_increasing [OF n, of "2::int"] by (intro mult_less_le_imp_less) simp_all
  then have "take_bit 64 (uint b * 2 ^ n) = uint b * 2 ^ n" by (simp add: take_bit_int_eq_self)
  moreover have "take_bit 64 (uint b) = uint b"
    using uint_byte [of b] by (intro take_bit_int_eq_self) simp_all
  ultimately show ?thesis
    by (simp only: unsigned_push_bit_eq unsigned_ucast_eq) (simp add: push_bit_eq_mult)
qed

lemma load_3_val: "3 \<le> length s \<Longrightarrow> uint (load_3 s) = le_val (take 3 s)"
proof -
  assume "3 \<le> length s"
  then have t: "take 3 s = [s ! 0, s ! 1, s ! 2]"
    by (auto intro!: nth_equalityI simp: less_Suc_eq numeral_eq_Suc)
  have "uint (s ! 0) OR uint (s ! 1) * 2 ^ 8 = uint (s ! 0) + uint (s ! 1) * 2 ^ 8"
    using uint_byte [of "s ! 0"] by (intro or_shift_add) simp_all
  moreover have "(uint (s ! 0) + uint (s ! 1) * 2 ^ 8) OR uint (s ! 2) * 2 ^ 16
      = uint (s ! 0) + uint (s ! 1) * 2 ^ 8 + uint (s ! 2) * 2 ^ 16"
    using uint_byte [of "s ! 0"] uint_byte [of "s ! 1"] by (intro or_shift_add) simp_all
  ultimately show ?thesis
    using uint_push_ucast [of 0 "s ! 0"]
    by (simp only: load_3_def t unsigned_or_eq uint_push_ucast push_bit_0_id) simp
qed

lemma load_4_val: "4 \<le> length s \<Longrightarrow> uint (load_4 s) = le_val (take 4 s)"
proof -
  assume l: "4 \<le> length s"
  then have t: "take 4 s = take 3 s @ [s ! 3]" and l3: "length (take 3 s) = 3"
    by (simp_all add: take_Suc_conv_app_nth [of 3 s, simplified])
  have "uint (load_4 s) = uint (load_3 s) OR uint (s ! 3) * 2 ^ 24"
    by (simp add: load_4_def load_3_def unsigned_or_eq uint_push_ucast del: unsigned_push_bit_eq)
  also have "\<dots> = le_val (take 3 s) OR uint (s ! 3) * 2 ^ 24"
    using l by (simp add: load_3_val)
  also have "\<dots> = le_val (take 3 s) + uint (s ! 3) * 2 ^ 24"
    using le_val_less [of "take 3 s"] l3 by (intro or_shift_add) simp_all
  finally show ?thesis using l3 by (simp add: t le_val_append)
qed

lemma le_val_inj: "length xs = length ys \<Longrightarrow> le_val xs = le_val ys \<Longrightarrow> xs = ys"
  by (metis le_bytes_le_val)

lemma slice:
  fixes v :: int
  assumes "j + m \<le> 8 * n"
  shows "v div 256 ^ k mod 256 ^ n div 2 ^ j mod 2 ^ m = v div 2 ^ (8 * k + j) mod 2 ^ m"
proof -
  have p: "(256::int) ^ k = 2 ^ (8 * k)" for k by (simp add: power_mult)
  have "take_bit m (drop_bit j (take_bit (8 * n) (drop_bit (8 * k) v))) = take_bit m (drop_bit (8 * k + j) v)"
    using assms by (auto simp: bit_eq_iff bit_simps ac_simps)
  then show ?thesis by (simp only: p take_bit_eq_mod drop_bit_eq_div)
qed

lemma byte_eq_iff: "(word_of_int x :: byte) = word_of_int y \<longleftrightarrow> x mod 256 = y mod 256"
  by (simp add: word_of_int_eq_iff take_bit_eq_mod)

lemma div_shift_add: "a \<le> w \<Longrightarrow> (d + 2 ^ w * r) div 2 ^ a = d div 2 ^ a + 2 ^ (w - a) * (r::int)"
proof -
  assume "a \<le> w"
  then obtain c where "w = a + c" using le_Suc_ex by blast
  then show ?thesis by (simp add: power_add mult.assoc add.commute)
qed

lemma div_less_pow:
  fixes d :: int
  assumes "d < 2 ^ w" "a \<le> w"
  shows "d div 2 ^ a < 2 ^ (w - a)"
proof -
  have "2 ^ a * (d div 2 ^ a) \<le> d" by (simp add: minus_mod_eq_mult_div [symmetric])
  also have "d < 2 ^ a * 2 ^ (w - a)" using assms by (simp flip: power_add)
  finally show ?thesis by simp
qed

lemma byte_low:
  assumes "a + 8 \<le> w"
  shows "(word_of_int ((d + 2 ^ w * r) div 2 ^ a) :: byte) = word_of_int (d div 2 ^ a)"
proof -
  have "(2::int) ^ (w - a) = 256 * 2 ^ (w - a - 8)"
    using assms power_add [of "2::int" 8 "w - a - 8"] by simp
  with assms have "(d + 2 ^ w * r) div 2 ^ a = d div 2 ^ a + 256 * (2 ^ (w - a - 8) * r)"
    by (simp add: div_shift_add)
  then show ?thesis by (simp only: byte_eq_iff mod_mult_self2)
qed

lemma byte_cross:
  assumes "0 \<le> d" "d < 2 ^ w" "a \<le> w" "8 \<le> w - a + w'"
  shows "(word_of_int ((d + 2 ^ w * (d' + 2 ^ w' * r)) div 2 ^ a) :: byte)
     = word_of_int (d div 2 ^ a OR d' * 2 ^ (w - a))"
proof -
  have "d div 2 ^ a < 2 ^ (w - a)"
    using assms by (simp add: div_less_pow)
  then have "d div 2 ^ a OR d' * 2 ^ (w - a) = d div 2 ^ a + d' * 2 ^ (w - a)"
    using assms by (intro or_shift_add) (simp_all add: pos_imp_zdiv_nonneg_iff)
  moreover have "(2::int) ^ (w - a) * 2 ^ w' = 256 * 2 ^ (w - a + w' - 8)"
    using assms(4) power_add [of "2::int" 8 "w - a + w' - 8"] by (simp flip: power_add)
  then have "2 ^ (w - a) * (d' + 2 ^ w' * r) = d' * 2 ^ (w - a) + 256 * (2 ^ (w - a + w' - 8) * r)"
    by (simp add: algebra_simps)
  ultimately show ?thesis
    using assms(3) by (simp only: byte_eq_iff div_shift_add add.assoc [symmetric] mod_mult_self2)
qed

section \<open>Packing digits of mixed width\<close>

fun mixed :: "nat list \<Rightarrow> int list \<Rightarrow> int" where
  "mixed (w # ws) (d # ds) = d + 2 ^ w * mixed ws ds"
| "mixed _ _ = 0"

definition digits_below :: "nat \<Rightarrow> nat list \<Rightarrow> int list \<Rightarrow> bool" where
  "digits_below k ws ds \<longleftrightarrow> length ws = length ds \<and> k \<le> length ds \<and> (\<forall>j<k. 0 \<le> ds ! j \<and> ds ! j < 2 ^ (ws ! j))"

lemma mixed_drop:
  "digits_below k ws ds \<Longrightarrow> mixed ws ds div 2 ^ sum_list (take k ws) = mixed (drop k ws) (drop k ds)"
proof (induction k arbitrary: ws ds)
  case (Suc k)
  then obtain w ws' d ds' where e: "ws = w # ws'" "ds = d # ds'"
    by (cases ws; cases ds) (auto simp: digits_below_def)
  with Suc.prems have "digits_below k ws' ds'" "0 \<le> d" "d < 2 ^ w"
    unfolding digits_below_def by (auto simp: All_less_Suc2)
  with Suc.IH show ?case by (simp add: e power_add zdiv_zmult2_eq)
qed simp

lemma mixed_nth:
  assumes "k < length ds" "length ws = length ds"
  shows "mixed (drop k ws) (drop k ds) = ds ! k + 2 ^ (ws ! k) * mixed (drop (Suc k) ws) (drop (Suc k) ds)"
  using assms by (simp add: Cons_nth_drop_Suc [symmetric])

lemma mixed_at:
  assumes "digits_below k ws ds"
  shows "mixed ws ds div 2 ^ (sum_list (take k ws) + a) = mixed (drop k ws) (drop k ds) div 2 ^ a"
  using mixed_drop [OF assms] by (simp add: power_add zdiv_zmult2_eq)

text \<open>A byte inside one digit, a byte across two digits, and a byte of the last digit.\<close>

lemma pack_low:
  assumes "digits_below k ws ds" "k < length ds" "a + 8 \<le> ws ! k"
  shows "(word_of_int (mixed ws ds div 2 ^ (sum_list (take k ws) + a)) :: byte) = word_of_int (ds ! k div 2 ^ a)"
  using assms by (simp add: mixed_at mixed_nth digits_below_def byte_low)

lemma pack_cross:
  assumes "digits_below (Suc k) ws ds" "Suc k < length ds" "a \<le> ws ! k" "8 \<le> ws ! k - a + ws ! Suc k"
  shows "(word_of_int (mixed ws ds div 2 ^ (sum_list (take k ws) + a)) :: byte)
    = word_of_int (ds ! k div 2 ^ a OR ds ! Suc k * 2 ^ (ws ! k - a))"
proof -
  have b: "digits_below k ws ds" "0 \<le> ds ! k" "ds ! k < 2 ^ (ws ! k)" "length ws = length ds"
    using assms(1) by (auto simp: digits_below_def)
  show ?thesis
    using assms b by (simp add: mixed_at mixed_nth byte_cross)
qed

lemma pack_top:
  assumes "digits_below k ws ds" "Suc k = length ds"
  shows "(word_of_int (mixed ws ds div 2 ^ (sum_list (take k ws) + a)) :: byte) = word_of_int (ds ! k div 2 ^ a)"
  using assms by (simp add: mixed_at mixed_nth digits_below_def)

text \<open>The 32 bytes of a packed number, one equation per byte.\<close>

lemma bytes_at: "le_bytes 32 v = map (\<lambda>i. word_of_int (v div 2 ^ (8 * i))) [0..<32]"
  by (simp add: le_bytes_def power_mult)

lemma upt32: "[0..<32] = [0, 1, 2, 3, 4, 5, 6, 7, 8, 9, 10, 11, 12, 13, 14, 15, 16, 17, 18, 19, 20, 21, 22, 23,
    24, 25, 26, 27, 28, 29, 30, 31]"
  by code_simp

lemma Cons_cong2: "x = y \<Longrightarrow> xs = ys \<Longrightarrow> x # xs = y # ys"
  by simp

section \<open>Loaded words as signed integers\<close>

lemma sint_eq_uint64: "uint (w :: 64 word) < 2 ^ 63 \<Longrightarrow> sint w = uint w"
  unfolding sint_uint using unsigned_greater_eq [of w] by (intro signed_take_bit_int_eq_self) (simp_all add: order_trans [of _ 0])

lemma uint_drop_bit64: "uint (drop_bit j (w :: 64 word)) = uint w div 2 ^ j"
proof -
  have "take_bit LENGTH(64) (uint w) = uint w" by (intro take_bit_int_eq_self uint_lt2p) simp
  then show ?thesis by (simp only: unsigned_drop_bit_eq) (simp only: drop_bit_eq_div)
qed

lemma load_at:
  "k + 3 \<le> length s \<Longrightarrow> uint (load_3 (drop k s)) = le_val s div 256 ^ k mod 256 ^ 3"
  "k + 4 \<le> length s \<Longrightarrow> uint (load_4 (drop k s)) = le_val s div 256 ^ k mod 256 ^ 4"
  by (simp_all add: load_3_val load_4_val le_val_take le_val_drop)

section \<open>The test for a zero string\<close>

text \<open>
  The constant-time test shared by \<^verbatim>\<open>sc_isnonzero\<close> and \<^verbatim>\<open>fe_isnonzero\<close>: the disjunction of all bytes,
  decremented, shifted and incremented.
\<close>

definition or_bytes :: "bytes \<Rightarrow> byte" where
  "or_bytes s = foldl (OR) (s ! 0) (map ((!) s) [1..<32])"

definition nonzero_bytes :: "bytes \<Rightarrow> int" where
  "nonzero_bytes s = i32 ((uint (or_bytes s) - 1) div 2 ^ 8 + 1)"

lemma or_bytes_zero: "foldl (OR) x (map ((!) s) is) = 0 \<longleftrightarrow> x = 0 \<and> (\<forall>i\<in>set is. s ! i = 0)" for x :: byte
  by (induction "is" arbitrary: x) (auto simp: or_eq_0_iff)

lemma nonzero_bytes_value:
  assumes "length s = 32"
  shows "nonzero_bytes s = (if le_val s = 0 then 0 else 1)"
proof -
  have z: "le_val s = 0 \<longleftrightarrow> (\<forall>i<length s. s ! i = 0)" for s
  proof (induction s)
    case (Cons b s)
    have "le_val (b # s) = 0 \<longleftrightarrow> uint b = 0 \<and> le_val s = 0"
      using uint_byte(1) [of b] le_val_nonneg [of s] unfolding le_val_simps by linarith
    with Cons show ?case by (simp add: All_less_Suc2 uint_0_iff)
  qed simp
  define w where "w = foldl (OR) (s ! 0) (map ((!) s) [1..<32])"
  have "w = 0 \<longleftrightarrow> s ! 0 = 0 \<and> (\<forall>i\<in>{1..<32}. s ! i = 0)" unfolding w_def or_bytes_zero by simp
  also have "\<dots> \<longleftrightarrow> le_val s = 0"
    unfolding z assms by (auto simp: Ball_def) (metis Suc_leI not_gr_zero)
  finally have "w = 0 \<longleftrightarrow> le_val s = 0" .
  moreover have "w \<noteq> 0 \<Longrightarrow> 0 < uint w"
    using uint_byte(1) [of w] uint_0_iff [of w] by (metis order_le_less)
  then have "(uint w - 1) div 2 ^ 8 = (if w = 0 then - 1 else 0)"
    using uint_byte(2) [of w] by (auto intro!: div_pos_pos_trivial)
  ultimately show ?thesis unfolding nonzero_bytes_def or_bytes_def w_def [symmetric] by (simp add: i32_def)
qed

end
