(* ===== verification/Fe_Arith.thy ===== *)
theory Fe_Arith
  imports Prelude
begin

text \<open>
  The field layer of \<^verbatim>\<open>src/src/crypto/crypto-ops.c\<close>: elements of the integers modulo
  $2^{255} - 19$ as ten signed limbs of alternating weight 26 and 25 bits, and the operations
  \<^verbatim>\<open>fe_0\<close>, \<^verbatim>\<open>fe_1\<close>, \<^verbatim>\<open>fe_add\<close>, \<^verbatim>\<open>fe_sub\<close>, \<^verbatim>\<open>fe_neg\<close>, \<^verbatim>\<open>fe_copy\<close>, \<^verbatim>\<open>fe_cmov\<close>, \<^verbatim>\<open>fe_mul\<close>,
  \<^verbatim>\<open>fe_sq\<close> and \<^verbatim>\<open>fe_sq2\<close>.  A limb of the C type \<^verbatim>\<open>int32_t\<close> is an \<^typ>\<open>int\<close>, and every machine
  operation is written with its conversion (\<^const>\<open>i32\<close>, \<^const>\<open>i64\<close>), so an overflow would
  change the value of the model; the theorems show that under the size bounds stated in the source
  comments no conversion changes anything and the value modulo $2^{255} - 19$ is the right one.
\<close>

section \<open>Field elements, their value and their size\<close>

datatype fe = Fe int int int int int int int int int int

definition p25519 :: int where
  "p25519 = 2 ^ 255 - 19"

fun fe_val :: "fe \<Rightarrow> int" where
  "fe_val (Fe h0 h1 h2 h3 h4 h5 h6 h7 h8 h9) =
     h0 + 2 ^ 26 * h1 + 2 ^ 51 * h2 + 2 ^ 77 * h3 + 2 ^ 102 * h4 + 2 ^ 128 * h5
     + 2 ^ 153 * h6 + 2 ^ 179 * h7 + 2 ^ 204 * h8 + 2 ^ 230 * h9"

text \<open>
  The comments of the source bound the even limbs by $c \cdot 2^{25}$ and the odd limbs by
  $c \cdot 2^{24}$, for a $c$ with two decimals; \<open>fe_bounded k\<close> is that bound for
  $c = k / 100$ (so \<open>fe_bounded 330\<close> is $1.65 \cdot 2^{26}, 1.65 \cdot 2^{25}, \ldots$).
\<close>

fun fe_within :: "int \<Rightarrow> int \<Rightarrow> fe \<Rightarrow> bool" where
  "fe_within e d (Fe h0 h1 h2 h3 h4 h5 h6 h7 h8 h9) \<longleftrightarrow>
     within e h0 \<and> within d h1 \<and> within e h2 \<and> within d h3 \<and> within e h4 \<and>
     within d h5 \<and> within e h6 \<and> within d h7 \<and> within e h8 \<and> within d h9"

definition fe_bounded :: "int \<Rightarrow> fe \<Rightarrow> bool" where
  "fe_bounded k f \<longleftrightarrow> fe_within (k * 2 ^ 25 div 100) (k * 2 ^ 24 div 100) f"

section \<open>The operations\<close>

definition fe_0 :: fe where
  "fe_0 = Fe 0 0 0 0 0 0 0 0 0 0"

definition fe_1 :: fe where
  "fe_1 = Fe 1 0 0 0 0 0 0 0 0 0"

fun fe_add :: "fe \<Rightarrow> fe \<Rightarrow> fe" where
  "fe_add (Fe f0 f1 f2 f3 f4 f5 f6 f7 f8 f9) (Fe g0 g1 g2 g3 g4 g5 g6 g7 g8 g9) =
     Fe (i32 (f0 + g0)) (i32 (f1 + g1)) (i32 (f2 + g2)) (i32 (f3 + g3)) (i32 (f4 + g4))
        (i32 (f5 + g5)) (i32 (f6 + g6)) (i32 (f7 + g7)) (i32 (f8 + g8)) (i32 (f9 + g9))"

fun fe_sub :: "fe \<Rightarrow> fe \<Rightarrow> fe" where
  "fe_sub (Fe f0 f1 f2 f3 f4 f5 f6 f7 f8 f9) (Fe g0 g1 g2 g3 g4 g5 g6 g7 g8 g9) =
     Fe (i32 (f0 - g0)) (i32 (f1 - g1)) (i32 (f2 - g2)) (i32 (f3 - g3)) (i32 (f4 - g4))
        (i32 (f5 - g5)) (i32 (f6 - g6)) (i32 (f7 - g7)) (i32 (f8 - g8)) (i32 (f9 - g9))"

fun fe_neg :: "fe \<Rightarrow> fe" where
  "fe_neg (Fe f0 f1 f2 f3 f4 f5 f6 f7 f8 f9) =
     Fe (i32 (- f0)) (i32 (- f1)) (i32 (- f2)) (i32 (- f3)) (i32 (- f4)) (i32 (- f5))
        (i32 (- f6)) (i32 (- f7)) (i32 (- f8)) (i32 (- f9))"

fun fe_copy :: "fe \<Rightarrow> fe" where
  "fe_copy (Fe f0 f1 f2 f3 f4 f5 f6 f7 f8 f9) = Fe f0 f1 f2 f3 f4 f5 f6 f7 f8 f9"

text \<open>
  \<^verbatim>\<open>fe_cmov\<close> works on the bit patterns; its \<^verbatim>\<open>assert\<close> is the \<^const>\<open>None\<close> branch.
\<close>

definition cmov_limb :: "32 word \<Rightarrow> int \<Rightarrow> int \<Rightarrow> int" where
  "cmov_limb b f g = sint ((word_of_int f :: 32 word) XOR
     ((word_of_int f XOR word_of_int g) AND b))"

definition cmov_assert :: "32 word \<Rightarrow> bool" where
  "cmov_assert b \<longleftrightarrow> ((b - 1) AND NOT b) OR ((b - 2) AND NOT (b - 1)) = - 1"

definition fe_cmov :: "fe \<Rightarrow> fe \<Rightarrow> 32 word \<Rightarrow> fe option" where
  "fe_cmov f g b = (case f of Fe f0 f1 f2 f3 f4 f5 f6 f7 f8 f9 \<Rightarrow> case g of Fe g0 g1 g2 g3 g4 g5 g6 g7 g8 g9 \<Rightarrow>
     if cmov_assert b
     then (let m = cmov_limb (- b)
           in Some (Fe (m f0 g0) (m f1 g1) (m f2 g2) (m f3 g3) (m f4 g4) (m f5 g5) (m f6 g6)
                        (m f7 g7) (m f8 g8) (m f9 g9)))
     else None)"

subsection \<open>Multiplication: the products, then the carries\<close>

definition fe_mul_wide :: "fe \<Rightarrow> fe \<Rightarrow> fe" where
  "fe_mul_wide f g =
   (case f of Fe f0 f1 f2 f3 f4 f5 f6 f7 f8 f9 \<Rightarrow> case g of Fe g0 g1 g2 g3 g4 g5 g6 g7 g8 g9 \<Rightarrow>
    let g1_19 = i32 (19 * g1); g2_19 = i32 (19 * g2); g3_19 = i32 (19 * g3);
        g4_19 = i32 (19 * g4); g5_19 = i32 (19 * g5); g6_19 = i32 (19 * g6);
        g7_19 = i32 (19 * g7); g8_19 = i32 (19 * g8); g9_19 = i32 (19 * g9); f1_2 = i32 (2 * f1);
        f3_2 = i32 (2 * f3); f5_2 = i32 (2 * f5); f7_2 = i32 (2 * f7); f9_2 = i32 (2 * f9);
        f0g0 = i64 (f0 * g0); f0g1 = i64 (f0 * g1); f0g2 = i64 (f0 * g2); f0g3 = i64 (f0 * g3);
        f0g4 = i64 (f0 * g4); f0g5 = i64 (f0 * g5); f0g6 = i64 (f0 * g6); f0g7 = i64 (f0 * g7);
        f0g8 = i64 (f0 * g8); f0g9 = i64 (f0 * g9); f1g0 = i64 (f1 * g0);
        f1g1_2 = i64 (f1_2 * g1); f1g2 = i64 (f1 * g2); f1g3_2 = i64 (f1_2 * g3);
        f1g4 = i64 (f1 * g4); f1g5_2 = i64 (f1_2 * g5); f1g6 = i64 (f1 * g6);
        f1g7_2 = i64 (f1_2 * g7); f1g8 = i64 (f1 * g8); f1g9_38 = i64 (f1_2 * g9_19);
        f2g0 = i64 (f2 * g0); f2g1 = i64 (f2 * g1); f2g2 = i64 (f2 * g2); f2g3 = i64 (f2 * g3);
        f2g4 = i64 (f2 * g4); f2g5 = i64 (f2 * g5); f2g6 = i64 (f2 * g6); f2g7 = i64 (f2 * g7);
        f2g8_19 = i64 (f2 * g8_19); f2g9_19 = i64 (f2 * g9_19); f3g0 = i64 (f3 * g0);
        f3g1_2 = i64 (f3_2 * g1); f3g2 = i64 (f3 * g2); f3g3_2 = i64 (f3_2 * g3);
        f3g4 = i64 (f3 * g4); f3g5_2 = i64 (f3_2 * g5); f3g6 = i64 (f3 * g6);
        f3g7_38 = i64 (f3_2 * g7_19); f3g8_19 = i64 (f3 * g8_19); f3g9_38 = i64 (f3_2 * g9_19);
        f4g0 = i64 (f4 * g0); f4g1 = i64 (f4 * g1); f4g2 = i64 (f4 * g2); f4g3 = i64 (f4 * g3);
        f4g4 = i64 (f4 * g4); f4g5 = i64 (f4 * g5); f4g6_19 = i64 (f4 * g6_19);
        f4g7_19 = i64 (f4 * g7_19); f4g8_19 = i64 (f4 * g8_19); f4g9_19 = i64 (f4 * g9_19);
        f5g0 = i64 (f5 * g0); f5g1_2 = i64 (f5_2 * g1); f5g2 = i64 (f5 * g2);
        f5g3_2 = i64 (f5_2 * g3); f5g4 = i64 (f5 * g4); f5g5_38 = i64 (f5_2 * g5_19);
        f5g6_19 = i64 (f5 * g6_19); f5g7_38 = i64 (f5_2 * g7_19); f5g8_19 = i64 (f5 * g8_19);
        f5g9_38 = i64 (f5_2 * g9_19); f6g0 = i64 (f6 * g0); f6g1 = i64 (f6 * g1);
        f6g2 = i64 (f6 * g2); f6g3 = i64 (f6 * g3); f6g4_19 = i64 (f6 * g4_19);
        f6g5_19 = i64 (f6 * g5_19); f6g6_19 = i64 (f6 * g6_19); f6g7_19 = i64 (f6 * g7_19);
        f6g8_19 = i64 (f6 * g8_19); f6g9_19 = i64 (f6 * g9_19); f7g0 = i64 (f7 * g0);
        f7g1_2 = i64 (f7_2 * g1); f7g2 = i64 (f7 * g2); f7g3_38 = i64 (f7_2 * g3_19);
        f7g4_19 = i64 (f7 * g4_19); f7g5_38 = i64 (f7_2 * g5_19); f7g6_19 = i64 (f7 * g6_19);
        f7g7_38 = i64 (f7_2 * g7_19); f7g8_19 = i64 (f7 * g8_19); f7g9_38 = i64 (f7_2 * g9_19);
        f8g0 = i64 (f8 * g0); f8g1 = i64 (f8 * g1); f8g2_19 = i64 (f8 * g2_19);
        f8g3_19 = i64 (f8 * g3_19); f8g4_19 = i64 (f8 * g4_19); f8g5_19 = i64 (f8 * g5_19);
        f8g6_19 = i64 (f8 * g6_19); f8g7_19 = i64 (f8 * g7_19); f8g8_19 = i64 (f8 * g8_19);
        f8g9_19 = i64 (f8 * g9_19); f9g0 = i64 (f9 * g0); f9g1_38 = i64 (f9_2 * g1_19);
        f9g2_19 = i64 (f9 * g2_19); f9g3_38 = i64 (f9_2 * g3_19); f9g4_19 = i64 (f9 * g4_19);
        f9g5_38 = i64 (f9_2 * g5_19); f9g6_19 = i64 (f9 * g6_19); f9g7_38 = i64 (f9_2 * g7_19);
        f9g8_19 = i64 (f9 * g8_19); f9g9_38 = i64 (f9_2 * g9_19);
        h0 = i64 (f0g0 + f1g9_38 + f2g8_19 + f3g7_38 + f4g6_19 + f5g5_38 + f6g4_19
                  + f7g3_38 + f8g2_19 + f9g1_38);
        h1 = i64 (f0g1 + f1g0 + f2g9_19 + f3g8_19 + f4g7_19 + f5g6_19 + f6g5_19
                  + f7g4_19 + f8g3_19 + f9g2_19);
        h2 = i64 (f0g2 + f1g1_2 + f2g0 + f3g9_38 + f4g8_19 + f5g7_38 + f6g6_19 + f7g5_38
                  + f8g4_19 + f9g3_38);
        h3 = i64 (f0g3 + f1g2 + f2g1 + f3g0 + f4g9_19 + f5g8_19 + f6g7_19 + f7g6_19
                  + f8g5_19 + f9g4_19);
        h4 = i64 (f0g4 + f1g3_2 + f2g2 + f3g1_2 + f4g0 + f5g9_38 + f6g8_19 + f7g7_38
                  + f8g6_19 + f9g5_38);
        h5 = i64 (f0g5 + f1g4 + f2g3 + f3g2 + f4g1 + f5g0 + f6g9_19 + f7g8_19 + f8g7_19 + f9g6_19);
        h6 = i64 (f0g6 + f1g5_2 + f2g4 + f3g3_2 + f4g2 + f5g1_2 + f6g0 + f7g9_38
                  + f8g8_19 + f9g7_38);
        h7 = i64 (f0g7 + f1g6 + f2g5 + f3g4 + f4g3 + f5g2 + f6g1 + f7g0 + f8g9_19 + f9g8_19);
        h8 = i64 (f0g8 + f1g7_2 + f2g6 + f3g5_2 + f4g4 + f5g3_2 + f6g2 + f7g1_2 + f8g0 + f9g9_38);
        h9 = i64 (f0g9 + f1g8 + f2g7 + f3g6 + f4g5 + f5g4 + f6g3 + f7g2 + f8g1 + f9g0)
    in Fe h0 h1 h2 h3 h4 h5 h6 h7 h8 h9)"

text \<open>
  One carry of the chain: \<^verbatim>\<open>c = (h + (1<<25)) >> 26; h' += c; h -= c << 26\<close>, its variant for the
  odd limbs, and the wrap-around carry that multiplies by 19.
\<close>

definition carry26 :: "int \<Rightarrow> int \<Rightarrow> int \<times> int" where
  "carry26 h h' = (let c = i64 (h + 2 ^ 25) div 2 ^ 26
                   in (i64 (h - i64 (c * 2 ^ 26)), i64 (h' + c)))"

definition carry25 :: "int \<Rightarrow> int \<Rightarrow> int \<times> int" where
  "carry25 h h' = (let c = i64 (h + 2 ^ 24) div 2 ^ 25
                   in (i64 (h - i64 (c * 2 ^ 25)), i64 (h' + c)))"

definition carry25_19 :: "int \<Rightarrow> int \<Rightarrow> int \<times> int" where
  "carry25_19 h h' = (let c = i64 (h + 2 ^ 24) div 2 ^ 25
                      in (i64 (h - i64 (c * 2 ^ 25)), i64 (h' + i64 (c * 19))))"

definition fe_store :: "fe \<Rightarrow> fe" where
  "fe_store h = (case h of Fe h0 h1 h2 h3 h4 h5 h6 h7 h8 h9 \<Rightarrow>
     Fe (i32 h0) (i32 h1) (i32 h2) (i32 h3) (i32 h4) (i32 h5) (i32 h6) (i32 h7) (i32 h8)
        (i32 h9))"

text \<open>
  The twelve carries of \<^verbatim>\<open>fe_mul\<close>: eight that move the excess of the limbs 0--3 and 4--7 upwards,
  then the four that settle the limbs 4, 8, 9 and 0 before the result is stored.
\<close>

definition fe_carry_up :: "fe \<Rightarrow> fe" where
  "fe_carry_up h = (case h of Fe h0 h1 h2 h3 h4 h5 h6 h7 h8 h9 \<Rightarrow>
    let (h0, h1) = carry26 h0 h1; (h4, h5) = carry26 h4 h5;
        (h1, h2) = carry25 h1 h2; (h5, h6) = carry25 h5 h6;
        (h2, h3) = carry26 h2 h3; (h6, h7) = carry26 h6 h7;
        (h3, h4) = carry25 h3 h4; (h7, h8) = carry25 h7 h8
    in Fe h0 h1 h2 h3 h4 h5 h6 h7 h8 h9)"

definition fe_carry_settle :: "fe \<Rightarrow> fe" where
  "fe_carry_settle h = (case h of Fe h0 h1 h2 h3 h4 h5 h6 h7 h8 h9 \<Rightarrow>
    let (h4, h5) = carry26 h4 h5; (h8, h9) = carry26 h8 h9;
        (h9, h0) = carry25_19 h9 h0;
        (h0, h1) = carry26 h0 h1
    in fe_store (Fe h0 h1 h2 h3 h4 h5 h6 h7 h8 h9))"

definition fe_carry :: "fe \<Rightarrow> fe" where
  "fe_carry h = fe_carry_settle (fe_carry_up h)"

definition fe_mul :: "fe \<Rightarrow> fe \<Rightarrow> fe" where
  "fe_mul f g = fe_carry (fe_mul_wide f g)"

subsection \<open>Squaring and doubled squaring\<close>

definition fe_sq_wide :: "fe \<Rightarrow> fe" where
  "fe_sq_wide f =
   (case f of Fe f0 f1 f2 f3 f4 f5 f6 f7 f8 f9 \<Rightarrow>
    let f0_2 = i32 (2 * f0); f1_2 = i32 (2 * f1); f2_2 = i32 (2 * f2); f3_2 = i32 (2 * f3);
        f4_2 = i32 (2 * f4); f5_2 = i32 (2 * f5); f6_2 = i32 (2 * f6); f7_2 = i32 (2 * f7);
        f5_38 = i32 (38 * f5); f6_19 = i32 (19 * f6); f7_38 = i32 (38 * f7);
        f8_19 = i32 (19 * f8); f9_38 = i32 (38 * f9); f0f0 = i64 (f0 * f0);
        f0f1_2 = i64 (f0_2 * f1); f0f2_2 = i64 (f0_2 * f2); f0f3_2 = i64 (f0_2 * f3);
        f0f4_2 = i64 (f0_2 * f4); f0f5_2 = i64 (f0_2 * f5); f0f6_2 = i64 (f0_2 * f6);
        f0f7_2 = i64 (f0_2 * f7); f0f8_2 = i64 (f0_2 * f8); f0f9_2 = i64 (f0_2 * f9);
        f1f1_2 = i64 (f1_2 * f1); f1f2_2 = i64 (f1_2 * f2); f1f3_4 = i64 (f1_2 * f3_2);
        f1f4_2 = i64 (f1_2 * f4); f1f5_4 = i64 (f1_2 * f5_2); f1f6_2 = i64 (f1_2 * f6);
        f1f7_4 = i64 (f1_2 * f7_2); f1f8_2 = i64 (f1_2 * f8); f1f9_76 = i64 (f1_2 * f9_38);
        f2f2 = i64 (f2 * f2); f2f3_2 = i64 (f2_2 * f3); f2f4_2 = i64 (f2_2 * f4);
        f2f5_2 = i64 (f2_2 * f5); f2f6_2 = i64 (f2_2 * f6); f2f7_2 = i64 (f2_2 * f7);
        f2f8_38 = i64 (f2_2 * f8_19); f2f9_38 = i64 (f2 * f9_38); f3f3_2 = i64 (f3_2 * f3);
        f3f4_2 = i64 (f3_2 * f4); f3f5_4 = i64 (f3_2 * f5_2); f3f6_2 = i64 (f3_2 * f6);
        f3f7_76 = i64 (f3_2 * f7_38); f3f8_38 = i64 (f3_2 * f8_19); f3f9_76 = i64 (f3_2 * f9_38);
        f4f4 = i64 (f4 * f4); f4f5_2 = i64 (f4_2 * f5); f4f6_38 = i64 (f4_2 * f6_19);
        f4f7_38 = i64 (f4 * f7_38); f4f8_38 = i64 (f4_2 * f8_19); f4f9_38 = i64 (f4 * f9_38);
        f5f5_38 = i64 (f5 * f5_38); f5f6_38 = i64 (f5_2 * f6_19); f5f7_76 = i64 (f5_2 * f7_38);
        f5f8_38 = i64 (f5_2 * f8_19); f5f9_76 = i64 (f5_2 * f9_38); f6f6_19 = i64 (f6 * f6_19);
        f6f7_38 = i64 (f6 * f7_38); f6f8_38 = i64 (f6_2 * f8_19); f6f9_38 = i64 (f6 * f9_38);
        f7f7_38 = i64 (f7 * f7_38); f7f8_38 = i64 (f7_2 * f8_19); f7f9_76 = i64 (f7_2 * f9_38);
        f8f8_19 = i64 (f8 * f8_19); f8f9_38 = i64 (f8 * f9_38); f9f9_38 = i64 (f9 * f9_38);
        h0 = i64 (f0f0 + f1f9_76 + f2f8_38 + f3f7_76 + f4f6_38 + f5f5_38);
        h1 = i64 (f0f1_2 + f2f9_38 + f3f8_38 + f4f7_38 + f5f6_38);
        h2 = i64 (f0f2_2 + f1f1_2 + f3f9_76 + f4f8_38 + f5f7_76 + f6f6_19);
        h3 = i64 (f0f3_2 + f1f2_2 + f4f9_38 + f5f8_38 + f6f7_38);
        h4 = i64 (f0f4_2 + f1f3_4 + f2f2 + f5f9_76 + f6f8_38 + f7f7_38);
        h5 = i64 (f0f5_2 + f1f4_2 + f2f3_2 + f6f9_38 + f7f8_38);
        h6 = i64 (f0f6_2 + f1f5_4 + f2f4_2 + f3f3_2 + f7f9_76 + f8f8_19);
        h7 = i64 (f0f7_2 + f1f6_2 + f2f5_2 + f3f4_2 + f8f9_38);
        h8 = i64 (f0f8_2 + f1f7_4 + f2f6_2 + f3f5_4 + f4f4 + f9f9_38);
        h9 = i64 (f0f9_2 + f1f8_2 + f2f7_2 + f3f6_2 + f4f5_2)
    in Fe h0 h1 h2 h3 h4 h5 h6 h7 h8 h9)"

definition fe_sq :: "fe \<Rightarrow> fe" where
  "fe_sq f = fe_carry (fe_sq_wide f)"

definition fe_sq2 :: "fe \<Rightarrow> fe" where
  "fe_sq2 f = (case fe_sq_wide f of Fe h0 h1 h2 h3 h4 h5 h6 h7 h8 h9 \<Rightarrow>
     fe_carry (Fe (i64 (h0 + h0)) (i64 (h1 + h1)) (i64 (h2 + h2)) (i64 (h3 + h3))
                   (i64 (h4 + h4)) (i64 (h5 + h5)) (i64 (h6 + h6)) (i64 (h7 + h7))
                   (i64 (h8 + h8)) (i64 (h9 + h9))))"

section \<open>Sizes\<close>

lemma fe_within_mono: "fe_within e d f \<Longrightarrow> e \<le> e' \<Longrightarrow> d \<le> d' \<Longrightarrow> fe_within e' d' f"
  by (cases f) (auto elim: within_mono)

lemma fe_bounded_mono: "fe_bounded j f \<Longrightarrow> j \<le> k \<Longrightarrow> fe_bounded k f"
  unfolding fe_bounded_def by (erule fe_within_mono) (simp_all add: zdiv_mono1)

lemma fe_bounded_0 [simp]: "0 \<le> k \<Longrightarrow> fe_bounded k fe_0"
  by (rule fe_bounded_mono [of 0]) (simp_all add: fe_bounded_def fe_0_def within_def)

lemma fe_bounded_1 [simp]: "1 \<le> k \<Longrightarrow> fe_bounded k fe_1"
  by (rule fe_bounded_mono [of 1]) (simp_all add: fe_bounded_def fe_1_def within_def)

lemma fe_val_0 [simp]: "fe_val fe_0 = 0"
  by (simp add: fe_0_def)

lemma fe_val_1 [simp]: "fe_val fe_1 = 1"
  by (simp add: fe_1_def)

lemma fe_copy_id [simp]: "fe_copy f = f"
  by (cases f) simp

section \<open>Addition, subtraction, negation\<close>

lemma div100_add: "(a::int) * n div 100 + b * n div 100 \<le> (a + b) * n div 100"
  by (simp add: distrib_right)

lemma bounded_div: "k \<le> 6000 \<Longrightarrow> (k::int) * 2 ^ 25 div 100 < 2 ^ 31" "k \<le> 6000 \<Longrightarrow> k * 2 ^ 24 div 100 < 2 ^ 31"
  by simp_all

lemma fe_add_exact:
  assumes "fe_within e d (Fe f0 f1 f2 f3 f4 f5 f6 f7 f8 f9)" "fe_within e' d' (Fe g0 g1 g2 g3 g4 g5 g6 g7 g8 g9)"
    and "e + e' < 2 ^ 31" "d + d' < 2 ^ 31"
  shows "fe_add (Fe f0 f1 f2 f3 f4 f5 f6 f7 f8 f9) (Fe g0 g1 g2 g3 g4 g5 g6 g7 g8 g9) = Fe
        (f0 + g0) (f1 + g1) (f2 + g2) (f3 + g3) (f4 + g4) (f5 + g5) (f6 + g6) (f7 + g7)
        (f8 + g8) (f9 + g9)"
    and "fe_sub (Fe f0 f1 f2 f3 f4 f5 f6 f7 f8 f9) (Fe g0 g1 g2 g3 g4 g5 g6 g7 g8 g9) = Fe
        (f0 - g0) (f1 - g1) (f2 - g2) (f3 - g3) (f4 - g4) (f5 - g5) (f6 - g6) (f7 - g7)
        (f8 - g8) (f9 - g9)"
  using assms by (simp_all add: within_def i32_id)

lemma fe_neg_exact:
  assumes "fe_within e d (Fe f0 f1 f2 f3 f4 f5 f6 f7 f8 f9)" "e < 2 ^ 31" "d < 2 ^ 31"
  shows "fe_neg (Fe f0 f1 f2 f3 f4 f5 f6 f7 f8 f9) = Fe (- f0) (- f1) (- f2) (- f3) (- f4) (- f5) (- f6) (- f7) (- f8) (- f9)"
  using assms by (simp add: within_def i32_id)

lemma fe_add_within:
  assumes "fe_within e d f" "fe_within e' d' g" "e + e' < 2 ^ 31" "d + d' < 2 ^ 31"
  shows "fe_within (e + e') (d + d') (fe_add f g)" "fe_within (e + e') (d + d') (fe_sub f g)"
  using assms by (cases f; cases g; simp only: fe_add_exact fe_within.simps; simp add: within_intro)+

lemma fe_val_add:
  assumes "fe_within e d f" "fe_within e' d' g" "e + e' < 2 ^ 31" "d + d' < 2 ^ 31"
  shows "fe_val (fe_add f g) = fe_val f + fe_val g" "fe_val (fe_sub f g) = fe_val f - fe_val g"
proof -
  obtain f0 f1 f2 f3 f4 f5 f6 f7 f8 f9 where f: "f = Fe f0 f1 f2 f3 f4 f5 f6 f7 f8 f9" by (cases f)
  obtain g0 g1 g2 g3 g4 g5 g6 g7 g8 g9 where g: "g = Fe g0 g1 g2 g3 g4 g5 g6 g7 g8 g9" by (cases g)
  note e = fe_add_exact [OF assms(1,2) [unfolded f g] assms(3,4)]
  show "fe_val (fe_add f g) = fe_val f + fe_val g" "fe_val (fe_sub f g) = fe_val f - fe_val g"
    unfolding f g e fe_val.simps by algebra+
qed

lemma fe_neg_within:
  assumes "fe_within e d f" "e < 2 ^ 31" "d < 2 ^ 31"
  shows "fe_within e d (fe_neg f)" "fe_val (fe_neg f) = - fe_val f"
  using assms
  by (cases f; simp only: fe_neg_exact fe_val.simps fe_within.simps; simp add: within_intro)+

lemma fe_bounded_sum_range:
  assumes "j + k \<le> 6000"
  shows "j * 2 ^ 25 div 100 + k * 2 ^ 25 div 100 < (2 ^ 31 :: int)"
    and "j * 2 ^ 24 div 100 + k * 2 ^ 24 div 100 < (2 ^ 31 :: int)"
  using bounded_div [OF assms] div100_add [of j "2 ^ 25" k] div100_add [of j "2 ^ 24" k]
  by linarith+

lemma fe_add_bounded:
  assumes "fe_bounded j f" "fe_bounded k g" "j + k \<le> 6000"
  shows "fe_bounded (j + k) (fe_add f g)" "fe_bounded (j + k) (fe_sub f g)"
    and "fe_val (fe_add f g) = fe_val f + fe_val g" "fe_val (fe_sub f g) = fe_val f - fe_val g"
proof -
  note w = assms(1,2) [unfolded fe_bounded_def]
  note r = fe_bounded_sum_range [OF assms(3)]
  show "fe_bounded (j + k) (fe_add f g)" "fe_bounded (j + k) (fe_sub f g)"
    unfolding fe_bounded_def
    by (rule fe_within_mono [OF fe_add_within(1) [OF w r] div100_add div100_add]
             fe_within_mono [OF fe_add_within(2) [OF w r] div100_add div100_add])+
  show "fe_val (fe_add f g) = fe_val f + fe_val g" "fe_val (fe_sub f g) = fe_val f - fe_val g"
    by (rule fe_val_add [OF w r])+
qed

lemma fe_neg_bounded:
  assumes "fe_bounded k f" "k \<le> 6000"
  shows "fe_bounded k (fe_neg f)" "fe_val (fe_neg f) = - fe_val f"
  using fe_neg_within [OF assms(1) [unfolded fe_bounded_def] bounded_div [OF assms(2)]]
  by (simp_all add: fe_bounded_def)

section \<open>The carry chain\<close>

lemma carry26_exact:
  assumes "within (7 * 2 ^ 60) h" "within (7 * 2 ^ 60) h'"
  obtains c where "carry26 h h' = (h - 2 ^ 26 * c, h' + c)" "within (2 ^ 25) (h - 2 ^ 26 * c)"
proof -
  define c where "c = (h + 2 ^ 25) div 2 ^ 26"
  have c: "2 ^ 26 * c \<le> h + 2 ^ 25" "h + 2 ^ 25 < 2 ^ 26 * c + 2 ^ 26"
    unfolding c_def by simp_all
  have "carry26 h h' = (h - 2 ^ 26 * c, h' + c)"
    using assms c unfolding carry26_def Let_def
    by (simp add: within_def i64_id c_def [simplified, symmetric])
  moreover have "within (2 ^ 25) (h - 2 ^ 26 * c)" using c by (simp add: within_def)
  ultimately show ?thesis by (rule that)
qed

lemma carry25_exact:
  assumes "within (7 * 2 ^ 60) h" "within (7 * 2 ^ 60) h'"
  obtains c where "carry25 h h' = (h - 2 ^ 25 * c, h' + c)" "within (2 ^ 24) (h - 2 ^ 25 * c)"
    "carry25_19 h h' = (h - 2 ^ 25 * c, h' + 19 * c)"
proof -
  define c where "c = (h + 2 ^ 24) div 2 ^ 25"
  have c: "2 ^ 25 * c \<le> h + 2 ^ 24" "h + 2 ^ 24 < 2 ^ 25 * c + 2 ^ 25"
    unfolding c_def by simp_all
  have "carry25 h h' = (h - 2 ^ 25 * c, h' + c)" "carry25_19 h h' = (h - 2 ^ 25 * c, h' + 19 * c)"
    using assms c unfolding carry25_def carry25_19_def Let_def
    by (simp_all add: within_def i64_id c_def [simplified, symmetric])
  moreover have "within (2 ^ 24) (h - 2 ^ 25 * c)" using c by (simp add: within_def)
  ultimately show ?thesis using that by blast
qed

lemma carry26_step:
  assumes "within K h" "within K' h'" "K \<le> 7 * 2 ^ 60" "K' \<le> 7 * 2 ^ 60"
    and "K' + K div 2 ^ 26 + 1 \<le> L"
  obtains a b where "carry26 h h' = (a, b)" "a + 2 ^ 26 * b = h + 2 ^ 26 * h'"
    "within (2 ^ 25) a" "within L b"
proof -
  obtain c where c: "carry26 h h' = (h - 2 ^ 26 * c, h' + c)" "within (2 ^ 25) (h - 2 ^ 26 * c)"
    using assms within_mono by (blast intro: carry26_exact)
  have "within (K div 2 ^ 26 + 1) c" using c(2) assms(1) by (simp add: within_def) linarith
  from within_mono [OF within_add [OF assms(2) this], of L] c assms(5) show ?thesis
    by (intro that [of "h - 2 ^ 26 * c" "h' + c"]) simp_all
qed

lemma carry25_step:
  assumes "within K h" "within K' h'" "K \<le> 7 * 2 ^ 60" "K' \<le> 7 * 2 ^ 60"
    and "K' + K div 2 ^ 25 + 1 \<le> L"
  obtains a b where "carry25 h h' = (a, b)" "a + 2 ^ 25 * b = h + 2 ^ 25 * h'"
    "within (2 ^ 24) a" "within L b"
proof -
  obtain c where c: "carry25 h h' = (h - 2 ^ 25 * c, h' + c)" "within (2 ^ 24) (h - 2 ^ 25 * c)"
    using assms within_mono by (blast intro: carry25_exact)
  have "within (K div 2 ^ 25 + 1) c" using c(2) assms(1) by (simp add: within_def) linarith
  from within_mono [OF within_add [OF assms(2) this], of L] c assms(5) show ?thesis
    by (intro that [of "h - 2 ^ 25 * c" "h' + c"]) simp_all
qed

lemma carry25_19_step:
  assumes "within K h" "within K' h'" "K \<le> 7 * 2 ^ 60" "K' \<le> 7 * 2 ^ 60"
    and "K' + 19 * (K div 2 ^ 25 + 1) \<le> L"
  obtains a b c where "carry25_19 h h' = (a, b)" "a = h - 2 ^ 25 * c" "b = h' + 19 * c"
    "within (2 ^ 24) a" "within L b"
proof -
  obtain c where c: "carry25_19 h h' = (h - 2 ^ 25 * c, h' + 19 * c)" "within (2 ^ 24) (h - 2 ^ 25 * c)"
    using assms within_mono by (blast intro: carry25_exact)
  have "within (K div 2 ^ 25 + 1) c" using c(2) assms(1) by (simp add: within_def) linarith
  then have "within (19 * (K div 2 ^ 25 + 1)) (19 * c)" by (rule within_scale) simp
  from within_mono [OF within_add [OF assms(2) this], of L] c assms(5) show ?thesis
    by (intro that [of "h - 2 ^ 25 * c" "h' + 19 * c" c]) simp_all
qed

text \<open>
  The chain of \<^verbatim>\<open>fe_mul\<close>, \<^verbatim>\<open>fe_sq\<close> and \<^verbatim>\<open>fe_sq2\<close> on any ten products of absolute value at most
  $6 \cdot 2^{60}$: no 64-bit operation overflows, the result is small, and the value changes by a
  multiple of $2^{255} - 19$.
\<close>

fun carry_up_bounds :: "fe \<Rightarrow> bool" where
  "carry_up_bounds (Fe h0 h1 h2 h3 h4 h5 h6 h7 h8 h9) \<longleftrightarrow>
     within (2 ^ 25) h0 \<and> within (2 ^ 24) h1 \<and> within (2 ^ 25) h2 \<and>
     within (2 ^ 24) h3 \<and> within (2 ^ 39) h4 \<and> within (2 ^ 24) h5 \<and>
     within (2 ^ 25) h6 \<and> within (2 ^ 24) h7 \<and> within (7 * 2 ^ 60) h8 \<and>
     within (3 * 2 ^ 61) h9"

lemma fe_carry_up_correct:
  assumes "fe_within (3 * 2 ^ 61) (3 * 2 ^ 61) h"
  shows "carry_up_bounds (fe_carry_up h) \<and> fe_val (fe_carry_up h) = fe_val h"
proof -
  obtain h0 h1 h2 h3 h4 h5 h6 h7 h8 h9 where h: "h = Fe h0 h1 h2 h3 h4 h5 h6 h7 h8 h9" by (cases h)
  have w: "within (3 * 2 ^ 61) h0" "within (3 * 2 ^ 61) h1" "within (3 * 2 ^ 61) h2"
    "within (3 * 2 ^ 61) h3" "within (3 * 2 ^ 61) h4" "within (3 * 2 ^ 61) h5"
    "within (3 * 2 ^ 61) h6" "within (3 * 2 ^ 61) h7" "within (3 * 2 ^ 61) h8" "within (3 * 2 ^ 61) h9"
    using assms by (simp_all add: h)
  obtain a0 b1 where s1: "carry26 h0 h1 = (a0, b1)" "a0 + 2 ^ 26 * b1 = h0 + 2 ^ 26 * h1"
    and w1: "within (2 ^ 25) a0" "within (7 * 2 ^ 60) b1"
    by (rule carry26_step [OF w(1) w(2), where L = "7 * 2 ^ 60"]) simp_all
  obtain a4 b5 where s2: "carry26 h4 h5 = (a4, b5)" "a4 + 2 ^ 26 * b5 = h4 + 2 ^ 26 * h5"
    and w2: "within (2 ^ 25) a4" "within (7 * 2 ^ 60) b5"
    by (rule carry26_step [OF w(5) w(6), where L = "7 * 2 ^ 60"]) simp_all
  obtain a1 b2 where s3: "carry25 b1 h2 = (a1, b2)" "a1 + 2 ^ 25 * b2 = b1 + 2 ^ 25 * h2"
    and w3: "within (2 ^ 24) a1" "within (7 * 2 ^ 60) b2"
    by (rule carry25_step [OF w1(2) w(3), where L = "7 * 2 ^ 60"]) simp_all
  obtain a5 b6 where s4: "carry25 b5 h6 = (a5, b6)" "a5 + 2 ^ 25 * b6 = b5 + 2 ^ 25 * h6"
    and w4: "within (2 ^ 24) a5" "within (7 * 2 ^ 60) b6"
    by (rule carry25_step [OF w2(2) w(7), where L = "7 * 2 ^ 60"]) simp_all
  obtain a2 b3 where s5: "carry26 b2 h3 = (a2, b3)" "a2 + 2 ^ 26 * b3 = b2 + 2 ^ 26 * h3"
    and w5: "within (2 ^ 25) a2" "within (7 * 2 ^ 60) b3"
    by (rule carry26_step [OF w3(2) w(4), where L = "7 * 2 ^ 60"]) simp_all
  obtain a6 b7 where s6: "carry26 b6 h7 = (a6, b7)" "a6 + 2 ^ 26 * b7 = b6 + 2 ^ 26 * h7"
    and w6: "within (2 ^ 25) a6" "within (7 * 2 ^ 60) b7"
    by (rule carry26_step [OF w4(2) w(8), where L = "7 * 2 ^ 60"]) simp_all
  obtain a3 b4 where s7: "carry25 b3 a4 = (a3, b4)" "a3 + 2 ^ 25 * b4 = b3 + 2 ^ 25 * a4"
    and w7: "within (2 ^ 24) a3" "within (2 ^ 39) b4"
    by (rule carry25_step [OF w5(2) w2(1), where L = "2 ^ 39"]) simp_all
  obtain a7 b8 where s8: "carry25 b7 h8 = (a7, b8)" "a7 + 2 ^ 25 * b8 = b7 + 2 ^ 25 * h8"
    and w8: "within (2 ^ 24) a7" "within (7 * 2 ^ 60) b8"
    by (rule carry25_step [OF w6(2) w(9), where L = "7 * 2 ^ 60"]) simp_all
  have r: "fe_carry_up (Fe h0 h1 h2 h3 h4 h5 h6 h7 h8 h9) = Fe a0 a1 a2 a3 b4 a5 a6 a7 b8 h9"
    by (simp add: fe_carry_up_def s1 s2 s3 s4 s5 s6 s7 s8)
  have "fe_val (Fe a0 a1 a2 a3 b4 a5 a6 a7 b8 h9) = fe_val (Fe h0 h1 h2 h3 h4 h5 h6 h7 h8 h9)"
    unfolding fe_val.simps
    using s1(2) s2(2) s3(2) s4(2) s5(2) s6(2) s7(2) s8(2) by algebra
  with w w1 w2 w3 w4 w5 w6 w7 w8 show ?thesis by (simp add: h r del: fe_val.simps)
qed

lemma fe_carry_settle_correct:
  assumes "carry_up_bounds h"
  shows "fe_bounded 101 (fe_carry_settle h) \<and>
    fe_val (fe_carry_settle h) mod p25519 = fe_val h mod p25519"
proof -
  obtain h0 h1 h2 h3 h4 h5 h6 h7 h8 h9 where h: "h = Fe h0 h1 h2 h3 h4 h5 h6 h7 h8 h9" by (cases h)
  have w: "within (2 ^ 25) h0" "within (2 ^ 24) h1" "within (2 ^ 25) h2" "within (2 ^ 24) h3"
    "within (2 ^ 39) h4" "within (2 ^ 24) h5" "within (2 ^ 25) h6" "within (2 ^ 24) h7"
    "within (7 * 2 ^ 60) h8" "within (3 * 2 ^ 61) h9"
    using assms by (simp_all add: h)
  obtain d4 d5 where s1: "carry26 h4 h5 = (d4, d5)" "d4 + 2 ^ 26 * d5 = h4 + 2 ^ 26 * h5"
    and w1: "within (2 ^ 25) d4" "within (101 * 2 ^ 24 div 100) d5"
    by (rule carry26_step [OF w(5) w(6), where L = "101 * 2 ^ 24 div 100"]) simp_all
  obtain d8 e9 where s2: "carry26 h8 h9 = (d8, e9)" "d8 + 2 ^ 26 * e9 = h8 + 2 ^ 26 * h9"
    and w2: "within (2 ^ 25) d8" "within (7 * 2 ^ 60) e9"
    by (rule carry26_step [OF w(9) w(10), where L = "7 * 2 ^ 60"]) simp_all
  obtain d9 e0 c where s3: "carry25_19 e9 h0 = (d9, e0)" "d9 = e9 - 2 ^ 25 * c" "e0 = h0 + 19 * c"
    and w3: "within (2 ^ 24) d9" "within (2 ^ 43) e0"
    by (rule carry25_19_step [OF w2(2) w(1), where L = "2 ^ 43"]) simp_all
  obtain d0 d1 where s4: "carry26 e0 h1 = (d0, d1)" "d0 + 2 ^ 26 * d1 = e0 + 2 ^ 26 * h1"
    and w4: "within (2 ^ 25) d0" "within (101 * 2 ^ 24 div 100) d1"
    by (rule carry26_step [OF w3(2) w(2), where L = "101 * 2 ^ 24 div 100"]) simp_all
  have r: "fe_carry_settle (Fe h0 h1 h2 h3 h4 h5 h6 h7 h8 h9) = Fe d0 d1 h2 h3 d4 d5 h6 h7 d8 d9"
    using w w1 w2 w3 w4
    by (simp add: fe_carry_settle_def fe_store_def s1 s2 s3(1) s4 i32_id within_def)
  have "fe_val (Fe d0 d1 h2 h3 d4 d5 h6 h7 d8 d9) = fe_val (Fe h0 h1 h2 h3 h4 h5 h6 h7 h8 h9) + p25519 * (- c)"
    unfolding fe_val.simps p25519_def using s1(2) s2(2) s3(2,3) s4(2) by algebra
  then have "fe_val (fe_carry_settle h) mod p25519 = fe_val h mod p25519"
    by (simp only: h r mod_mult_self2)
  moreover have "fe_bounded 101 (fe_carry_settle h)"
    using w w1 w2 w3 w4 by (simp add: h r fe_bounded_def within_def)
  ultimately show ?thesis by simp
qed

lemma fe_carry_correct:
  assumes "fe_within (3 * 2 ^ 61) (3 * 2 ^ 61) h"
  shows "fe_bounded 101 (fe_carry h)" "fe_val (fe_carry h) mod p25519 = fe_val h mod p25519"
  using fe_carry_up_correct [OF assms] fe_carry_settle_correct [of "fe_carry_up h"]
  by (simp_all add: fe_carry_def)

section \<open>Multiplication and squaring\<close>

lemma i64_prod: "within (2 ^ 28) a \<Longrightarrow> within (2 ^ 31) b \<Longrightarrow> i64 (a * b) = a * b"
  by (rule i64_within, erule (1) within_mult) simp

lemma prod_bound: "within (2 ^ 28) a \<Longrightarrow> within (2 ^ 31) b \<Longrightarrow> within (2 ^ 59) (a * b)"
  by (drule (1) within_mult) simp

lemma i64_sum10:
  "within (2 ^ 59) x0 \<Longrightarrow> within (2 ^ 59) x1 \<Longrightarrow>
   within (2 ^ 59) x2 \<Longrightarrow> within (2 ^ 59) x3 \<Longrightarrow>
   within (2 ^ 59) x4 \<Longrightarrow> within (2 ^ 59) x5 \<Longrightarrow>
   within (2 ^ 59) x6 \<Longrightarrow> within (2 ^ 59) x7 \<Longrightarrow>
   within (2 ^ 59) x8 \<Longrightarrow> within (2 ^ 59) x9 \<Longrightarrow>
   i64 (x0 + x1 + x2 + x3 + x4 + x5 + x6 + x7 + x8 + x9) = x0 + x1 + x2 + x3 + x4 + x5 + x6 + x7 + x8 + x9"
  by (rule i64_id) (simp_all add: within_def)

lemma i64_sum6:
  "within (2 ^ 59) x0 \<Longrightarrow> within (2 ^ 59) x1 \<Longrightarrow>
   within (2 ^ 59) x2 \<Longrightarrow> within (2 ^ 59) x3 \<Longrightarrow>
   within (2 ^ 59) x4 \<Longrightarrow> within (2 ^ 59) x5 \<Longrightarrow>
   i64 (x0 + x1 + x2 + x3 + x4 + x5) = x0 + x1 + x2 + x3 + x4 + x5"
  by (rule i64_id) (simp_all add: within_def)

lemma i64_sum5:
  "within (2 ^ 59) x0 \<Longrightarrow> within (2 ^ 59) x1 \<Longrightarrow>
   within (2 ^ 59) x2 \<Longrightarrow> within (2 ^ 59) x3 \<Longrightarrow>
   within (2 ^ 59) x4 \<Longrightarrow>
   i64 (x0 + x1 + x2 + x3 + x4) = x0 + x1 + x2 + x3 + x4"
  by (rule i64_id) (simp_all add: within_def)

lemma within_sums:
  "within (2 ^ 59) x0 \<Longrightarrow> within (2 ^ 59) x1 \<Longrightarrow>
   within (2 ^ 59) x2 \<Longrightarrow> within (2 ^ 59) x3 \<Longrightarrow>
   within (2 ^ 59) x4 \<Longrightarrow> within (2 ^ 59) x5 \<Longrightarrow>
   within (2 ^ 59) x6 \<Longrightarrow> within (2 ^ 59) x7 \<Longrightarrow>
   within (2 ^ 59) x8 \<Longrightarrow> within (2 ^ 59) x9 \<Longrightarrow>
   within (5 * 2 ^ 60) (x0 + x1 + x2 + x3 + x4 + x5 + x6 + x7 + x8 + x9)"
  "within (2 ^ 59) x0 \<Longrightarrow> within (2 ^ 59) x1 \<Longrightarrow>
   within (2 ^ 59) x2 \<Longrightarrow> within (2 ^ 59) x3 \<Longrightarrow>
   within (2 ^ 59) x4 \<Longrightarrow> within (2 ^ 59) x5 \<Longrightarrow>
   within (3 * 2 ^ 60) (x0 + x1 + x2 + x3 + x4 + x5)"
  "within (2 ^ 59) x0 \<Longrightarrow> within (2 ^ 59) x1 \<Longrightarrow>
   within (2 ^ 59) x2 \<Longrightarrow> within (2 ^ 59) x3 \<Longrightarrow>
   within (2 ^ 59) x4 \<Longrightarrow>
   within (3 * 2 ^ 60) (x0 + x1 + x2 + x3 + x4)"
  by (simp_all add: within_def)

lemmas product_simps = i64_prod prod_bound i64_sum10 i64_sum6 i64_sum5

text \<open>
  The reference: schoolbook products over unbounded integers, the part above $2^{255}$ folded back
  with the factor 19.
\<close>

fun mul_poly :: "fe \<Rightarrow> fe \<Rightarrow> fe" where
  "mul_poly (Fe f0 f1 f2 f3 f4 f5 f6 f7 f8 f9) (Fe g0 g1 g2 g3 g4 g5 g6 g7 g8 g9) = Fe
      (f0 * g0 + (2 * f1) * (19 * g9) + f2 * (19 * g8) + (2 * f3) * (19 * g7) + f4 * (19 * g6)
       + (2 * f5) * (19 * g5) + f6 * (19 * g4) + (2 * f7) * (19 * g3) + f8 * (19 * g2)
       + (2 * f9) * (19 * g1))
      (f0 * g1 + f1 * g0 + f2 * (19 * g9) + f3 * (19 * g8) + f4 * (19 * g7) + f5 * (19 * g6)
       + f6 * (19 * g5) + f7 * (19 * g4) + f8 * (19 * g3) + f9 * (19 * g2))
      (f0 * g2 + (2 * f1) * g1 + f2 * g0 + (2 * f3) * (19 * g9) + f4 * (19 * g8)
       + (2 * f5) * (19 * g7) + f6 * (19 * g6) + (2 * f7) * (19 * g5) + f8 * (19 * g4)
       + (2 * f9) * (19 * g3))
      (f0 * g3 + f1 * g2 + f2 * g1 + f3 * g0 + f4 * (19 * g9) + f5 * (19 * g8) + f6 * (19 * g7)
       + f7 * (19 * g6) + f8 * (19 * g5) + f9 * (19 * g4))
      (f0 * g4 + (2 * f1) * g3 + f2 * g2 + (2 * f3) * g1 + f4 * g0 + (2 * f5) * (19 * g9)
       + f6 * (19 * g8) + (2 * f7) * (19 * g7) + f8 * (19 * g6) + (2 * f9) * (19 * g5))
      (f0 * g5 + f1 * g4 + f2 * g3 + f3 * g2 + f4 * g1 + f5 * g0 + f6 * (19 * g9) + f7 * (19 * g8)
       + f8 * (19 * g7) + f9 * (19 * g6))
      (f0 * g6 + (2 * f1) * g5 + f2 * g4 + (2 * f3) * g3 + f4 * g2 + (2 * f5) * g1 + f6 * g0
       + (2 * f7) * (19 * g9) + f8 * (19 * g8) + (2 * f9) * (19 * g7))
      (f0 * g7 + f1 * g6 + f2 * g5 + f3 * g4 + f4 * g3 + f5 * g2 + f6 * g1 + f7 * g0
       + f8 * (19 * g9) + f9 * (19 * g8))
      (f0 * g8 + (2 * f1) * g7 + f2 * g6 + (2 * f3) * g5 + f4 * g4 + (2 * f5) * g3 + f6 * g2
       + (2 * f7) * g1 + f8 * g0 + (2 * f9) * (19 * g9))
      (f0 * g9 + f1 * g8 + f2 * g7 + f3 * g6 + f4 * g5 + f5 * g4 + f6 * g3 + f7 * g2 + f8 * g1
       + f9 * g0)"

fun sq_poly :: "fe \<Rightarrow> fe" where
  "sq_poly (Fe f0 f1 f2 f3 f4 f5 f6 f7 f8 f9) = Fe
      (f0 * f0 + (2 * f1) * (38 * f9) + (2 * f2) * (19 * f8) + (2 * f3) * (38 * f7)
       + (2 * f4) * (19 * f6) + f5 * (38 * f5))
      ((2 * f0) * f1 + f2 * (38 * f9) + (2 * f3) * (19 * f8) + f4 * (38 * f7)
       + (2 * f5) * (19 * f6))
      ((2 * f0) * f2 + (2 * f1) * f1 + (2 * f3) * (38 * f9) + (2 * f4) * (19 * f8)
       + (2 * f5) * (38 * f7) + f6 * (19 * f6))
      ((2 * f0) * f3 + (2 * f1) * f2 + f4 * (38 * f9) + (2 * f5) * (19 * f8) + f6 * (38 * f7))
      ((2 * f0) * f4 + (2 * f1) * (2 * f3) + f2 * f2 + (2 * f5) * (38 * f9) + (2 * f6) * (19 * f8)
       + f7 * (38 * f7))
      ((2 * f0) * f5 + (2 * f1) * f4 + (2 * f2) * f3 + f6 * (38 * f9) + (2 * f7) * (19 * f8))
      ((2 * f0) * f6 + (2 * f1) * (2 * f5) + (2 * f2) * f4 + (2 * f3) * f3 + (2 * f7) * (38 * f9)
       + f8 * (19 * f8))
      ((2 * f0) * f7 + (2 * f1) * f6 + (2 * f2) * f5 + (2 * f3) * f4 + f8 * (38 * f9))
      ((2 * f0) * f8 + (2 * f1) * (2 * f7) + (2 * f2) * f6 + (2 * f3) * (2 * f5) + f4 * f4
       + f9 * (38 * f9))
      ((2 * f0) * f9 + (2 * f1) * f8 + (2 * f2) * f7 + (2 * f3) * f6 + (2 * f4) * f5)"

lemma mul_poly_val: "fe_val (mul_poly f g) mod p25519 = fe_val f * fe_val g mod p25519"
proof -
  obtain f0 f1 f2 f3 f4 f5 f6 f7 f8 f9 where f: "f = Fe f0 f1 f2 f3 f4 f5 f6 f7 f8 f9" by (cases f)
  obtain g0 g1 g2 g3 g4 g5 g6 g7 g8 g9 where g: "g = Fe g0 g1 g2 g3 g4 g5 g6 g7 g8 g9" by (cases g)
  have "fe_val f * fe_val g = fe_val (mul_poly f g) + p25519 * (
      2 ^ 1 * f1 * g9 + 2 ^ 0 * f2 * g8 + 2 ^ 26 * f2 * g9 + 2 ^ 1 * f3 * g7 + 2 ^ 26 * f3 * g8
      + 2 ^ 52 * f3 * g9 + 2 ^ 0 * f4 * g6 + 2 ^ 26 * f4 * g7 + 2 ^ 51 * f4 * g8
      + 2 ^ 77 * f4 * g9 + 2 ^ 1 * f5 * g5 + 2 ^ 26 * f5 * g6 + 2 ^ 52 * f5 * g7
      + 2 ^ 77 * f5 * g8 + 2 ^ 103 * f5 * g9 + 2 ^ 0 * f6 * g4 + 2 ^ 26 * f6 * g5
      + 2 ^ 51 * f6 * g6 + 2 ^ 77 * f6 * g7 + 2 ^ 102 * f6 * g8 + 2 ^ 128 * f6 * g9
      + 2 ^ 1 * f7 * g3 + 2 ^ 26 * f7 * g4 + 2 ^ 52 * f7 * g5 + 2 ^ 77 * f7 * g6
      + 2 ^ 103 * f7 * g7 + 2 ^ 128 * f7 * g8 + 2 ^ 154 * f7 * g9 + 2 ^ 0 * f8 * g2
      + 2 ^ 26 * f8 * g3 + 2 ^ 51 * f8 * g4 + 2 ^ 77 * f8 * g5 + 2 ^ 102 * f8 * g6
      + 2 ^ 128 * f8 * g7 + 2 ^ 153 * f8 * g8 + 2 ^ 179 * f8 * g9 + 2 ^ 1 * f9 * g1
      + 2 ^ 26 * f9 * g2 + 2 ^ 52 * f9 * g3 + 2 ^ 77 * f9 * g4 + 2 ^ 103 * f9 * g5
      + 2 ^ 128 * f9 * g6 + 2 ^ 154 * f9 * g7 + 2 ^ 179 * f9 * g8 + 2 ^ 205 * f9 * g9)"
    unfolding f g mul_poly.simps fe_val.simps p25519_def by algebra
  then show ?thesis by (simp only: mod_mult_self2)
qed

lemma sq_poly_val: "fe_val (sq_poly f) mod p25519 = fe_val f * fe_val f mod p25519"
proof -
  obtain f0 f1 f2 f3 f4 f5 f6 f7 f8 f9 where f: "f = Fe f0 f1 f2 f3 f4 f5 f6 f7 f8 f9" by (cases f)
  have "fe_val f * fe_val f = fe_val (sq_poly f) + p25519 * (
      2 ^ 1 * f1 * f9 + 2 ^ 0 * f2 * f8 + 2 ^ 26 * f2 * f9 + 2 ^ 1 * f3 * f7 + 2 ^ 26 * f3 * f8
      + 2 ^ 52 * f3 * f9 + 2 ^ 0 * f4 * f6 + 2 ^ 26 * f4 * f7 + 2 ^ 51 * f4 * f8
      + 2 ^ 77 * f4 * f9 + 2 ^ 1 * f5 * f5 + 2 ^ 26 * f5 * f6 + 2 ^ 52 * f5 * f7
      + 2 ^ 77 * f5 * f8 + 2 ^ 103 * f5 * f9 + 2 ^ 0 * f6 * f4 + 2 ^ 26 * f6 * f5
      + 2 ^ 51 * f6 * f6 + 2 ^ 77 * f6 * f7 + 2 ^ 102 * f6 * f8 + 2 ^ 128 * f6 * f9
      + 2 ^ 1 * f7 * f3 + 2 ^ 26 * f7 * f4 + 2 ^ 52 * f7 * f5 + 2 ^ 77 * f7 * f6
      + 2 ^ 103 * f7 * f7 + 2 ^ 128 * f7 * f8 + 2 ^ 154 * f7 * f9 + 2 ^ 0 * f8 * f2
      + 2 ^ 26 * f8 * f3 + 2 ^ 51 * f8 * f4 + 2 ^ 77 * f8 * f5 + 2 ^ 102 * f8 * f6
      + 2 ^ 128 * f8 * f7 + 2 ^ 153 * f8 * f8 + 2 ^ 179 * f8 * f9 + 2 ^ 1 * f9 * f1
      + 2 ^ 26 * f9 * f2 + 2 ^ 52 * f9 * f3 + 2 ^ 77 * f9 * f4 + 2 ^ 103 * f9 * f5
      + 2 ^ 128 * f9 * f6 + 2 ^ 154 * f9 * f7 + 2 ^ 179 * f9 * f8 + 2 ^ 205 * f9 * f9)"
    unfolding f sq_poly.simps fe_val.simps p25519_def by algebra
  then show ?thesis by (simp only: mod_mult_self2)
qed

lemma fe_mul_wide_exact:
  assumes "fe_bounded 330 f" "fe_bounded 330 g"
  shows "fe_mul_wide f g = mul_poly f g" "fe_within (5 * 2 ^ 60) (5 * 2 ^ 60) (mul_poly f g)"
proof -
  obtain f0 f1 f2 f3 f4 f5 f6 f7 f8 f9 where F: "f = Fe f0 f1 f2 f3 f4 f5 f6 f7 f8 f9" by (cases f)
  obtain g0 g1 g2 g3 g4 g5 g6 g7 g8 g9 where G: "g = Fe g0 g1 g2 g3 g4 g5 g6 g7 g8 g9" by (cases g)
  have f: "within (2 ^ 28) f0" "within (2 ^ 28) f1" "within (2 ^ 28) f2" "within (2 ^ 28) f3"
    "within (2 ^ 28) f4" "within (2 ^ 28) f5" "within (2 ^ 28) f6" "within (2 ^ 28) f7"
    "within (2 ^ 28) f8" "within (2 ^ 28) f9" "within (2 ^ 28) (2 * f1)"
    "within (2 ^ 28) (2 * f3)" "within (2 ^ 28) (2 * f5)" "within (2 ^ 28) (2 * f7)"
    "within (2 ^ 28) (2 * f9)" "i32 (2 * f1) = 2 * f1" "i32 (2 * f3) = 2 * f3"
    "i32 (2 * f5) = 2 * f5" "i32 (2 * f7) = 2 * f7" "i32 (2 * f9) = 2 * f9"
    using assms(1) by (simp_all add: F fe_bounded_def within_def i32_id)
  have g: "within (2 ^ 31) g0" "within (2 ^ 31) g1" "within (2 ^ 31) g2" "within (2 ^ 31) g3"
    "within (2 ^ 31) g4" "within (2 ^ 31) g5" "within (2 ^ 31) g6" "within (2 ^ 31) g7"
    "within (2 ^ 31) g8" "within (2 ^ 31) g9" "within (2 ^ 31) (19 * g1)"
    "within (2 ^ 31) (19 * g2)" "within (2 ^ 31) (19 * g3)" "within (2 ^ 31) (19 * g4)"
    "within (2 ^ 31) (19 * g5)" "within (2 ^ 31) (19 * g6)" "within (2 ^ 31) (19 * g7)"
    "within (2 ^ 31) (19 * g8)" "within (2 ^ 31) (19 * g9)" "i32 (19 * g1) = 19 * g1"
    "i32 (19 * g2) = 19 * g2" "i32 (19 * g3) = 19 * g3" "i32 (19 * g4) = 19 * g4"
    "i32 (19 * g5) = 19 * g5" "i32 (19 * g6) = 19 * g6" "i32 (19 * g7) = 19 * g7"
    "i32 (19 * g8) = 19 * g8" "i32 (19 * g9) = 19 * g9"
    using assms(2) by (simp_all add: G fe_bounded_def within_def i32_id)
  show "fe_mul_wide f g = mul_poly f g"
    unfolding F G mul_poly.simps fe_mul_wide_def fe.case Let_def
    by (simp only: f g product_simps HOL.simp_thms)
  show "fe_within (5 * 2 ^ 60) (5 * 2 ^ 60) (mul_poly f g)"
    unfolding F G by (simp only: mul_poly.simps fe_within.simps within_sums f g prod_bound HOL.simp_thms)
qed

lemma fe_sq_wide_exact:
  assumes "fe_bounded 330 f"
  shows "fe_sq_wide f = sq_poly f" "fe_within (3 * 2 ^ 60) (3 * 2 ^ 60) (sq_poly f)"
proof -
  obtain f0 f1 f2 f3 f4 f5 f6 f7 f8 f9 where F: "f = Fe f0 f1 f2 f3 f4 f5 f6 f7 f8 f9" by (cases f)
  have f: "within (2 ^ 28) f0" "within (2 ^ 28) f1" "within (2 ^ 28) f2" "within (2 ^ 28) f3"
    "within (2 ^ 28) f4" "within (2 ^ 28) f5" "within (2 ^ 28) f6" "within (2 ^ 28) f7"
    "within (2 ^ 28) f8" "within (2 ^ 28) f9" "within (2 ^ 31) f0" "within (2 ^ 31) f1"
    "within (2 ^ 31) f2" "within (2 ^ 31) f3" "within (2 ^ 31) f4" "within (2 ^ 31) f5"
    "within (2 ^ 31) f6" "within (2 ^ 31) f7" "within (2 ^ 31) f8" "within (2 ^ 31) f9"
    "within (2 ^ 28) (2 * f0)" "within (2 ^ 28) (2 * f1)" "within (2 ^ 28) (2 * f2)"
    "within (2 ^ 28) (2 * f3)" "within (2 ^ 28) (2 * f4)" "within (2 ^ 28) (2 * f5)"
    "within (2 ^ 28) (2 * f6)" "within (2 ^ 28) (2 * f7)" "within (2 ^ 31) (2 * f0)"
    "within (2 ^ 31) (2 * f1)" "within (2 ^ 31) (2 * f2)" "within (2 ^ 31) (2 * f3)"
    "within (2 ^ 31) (2 * f4)" "within (2 ^ 31) (2 * f5)" "within (2 ^ 31) (2 * f6)"
    "within (2 ^ 31) (2 * f7)" "i32 (2 * f0) = 2 * f0" "i32 (2 * f1) = 2 * f1"
    "i32 (2 * f2) = 2 * f2" "i32 (2 * f3) = 2 * f3" "i32 (2 * f4) = 2 * f4"
    "i32 (2 * f5) = 2 * f5" "i32 (2 * f6) = 2 * f6" "i32 (2 * f7) = 2 * f7"
    "within (2 ^ 31) (38 * f5)" "within (2 ^ 31) (19 * f6)" "within (2 ^ 31) (38 * f7)"
    "within (2 ^ 31) (19 * f8)" "within (2 ^ 31) (38 * f9)" "i32 (38 * f5) = 38 * f5"
    "i32 (19 * f6) = 19 * f6" "i32 (38 * f7) = 38 * f7" "i32 (19 * f8) = 19 * f8"
    "i32 (38 * f9) = 38 * f9"
    using assms by (simp_all add: F fe_bounded_def within_def i32_id)
  show "fe_sq_wide f = sq_poly f"
    unfolding F sq_poly.simps fe_sq_wide_def fe.case Let_def
    by (simp only: f product_simps HOL.simp_thms)
  show "fe_within (3 * 2 ^ 60) (3 * 2 ^ 60) (sq_poly f)"
    unfolding F by (simp only: sq_poly.simps fe_within.simps within_sums f prod_bound HOL.simp_thms)
qed

lemma fe_mul_value:
  assumes "fe_bounded 330 f" "fe_bounded 330 g"
  shows "fe_bounded 101 (fe_mul f g)" "fe_val (fe_mul f g) mod p25519 = fe_val f * fe_val g mod p25519"
proof -
  have "fe_within (3 * 2 ^ 61) (3 * 2 ^ 61) (mul_poly f g)"
    by (rule fe_within_mono [OF fe_mul_wide_exact(2) [OF assms]]) simp_all
  from fe_carry_correct [OF this]
  show "fe_bounded 101 (fe_mul f g)" "fe_val (fe_mul f g) mod p25519 = fe_val f * fe_val g mod p25519"
    by (simp_all add: fe_mul_def fe_mul_wide_exact(1) [OF assms] mul_poly_val)
qed

lemma fe_sq_value:
  assumes "fe_bounded 330 f"
  shows "fe_bounded 101 (fe_sq f)" "fe_val (fe_sq f) mod p25519 = fe_val f * fe_val f mod p25519"
proof -
  have "fe_within (3 * 2 ^ 61) (3 * 2 ^ 61) (sq_poly f)"
    by (rule fe_within_mono [OF fe_sq_wide_exact(2) [OF assms]]) simp_all
  from fe_carry_correct [OF this]
  show "fe_bounded 101 (fe_sq f)" "fe_val (fe_sq f) mod p25519 = fe_val f * fe_val f mod p25519"
    by (simp_all add: fe_sq_def fe_sq_wide_exact(1) [OF assms] sq_poly_val)
qed

lemma fe_double_exact:
  assumes "fe_within (3 * 2 ^ 60) (3 * 2 ^ 60) (Fe h0 h1 h2 h3 h4 h5 h6 h7 h8 h9)"
  shows "fe_within (3 * 2 ^ 61) (3 * 2 ^ 61) (Fe (i64 (h0 + h0)) (i64 (h1 + h1)) (i64 (h2 + h2)) (i64 (h3 + h3))
                   (i64 (h4 + h4)) (i64 (h5 + h5)) (i64 (h6 + h6)) (i64 (h7 + h7))
                   (i64 (h8 + h8)) (i64 (h9 + h9)))"
    and "fe_val (Fe (i64 (h0 + h0)) (i64 (h1 + h1)) (i64 (h2 + h2)) (i64 (h3 + h3))
                   (i64 (h4 + h4)) (i64 (h5 + h5)) (i64 (h6 + h6)) (i64 (h7 + h7))
                   (i64 (h8 + h8)) (i64 (h9 + h9))) = 2 * fe_val (Fe h0 h1 h2 h3 h4 h5 h6 h7 h8 h9)"
proof -
  have d: "i64 (h0 + h0) = 2 * h0" "i64 (h1 + h1) = 2 * h1" "i64 (h2 + h2) = 2 * h2"
    "i64 (h3 + h3) = 2 * h3" "i64 (h4 + h4) = 2 * h4" "i64 (h5 + h5) = 2 * h5"
    "i64 (h6 + h6) = 2 * h6" "i64 (h7 + h7) = 2 * h7" "i64 (h8 + h8) = 2 * h8"
    "i64 (h9 + h9) = 2 * h9"
    using assms by (simp_all add: within_def i64_id)
  show "fe_within (3 * 2 ^ 61) (3 * 2 ^ 61) (Fe (i64 (h0 + h0)) (i64 (h1 + h1)) (i64 (h2 + h2)) (i64 (h3 + h3))
                   (i64 (h4 + h4)) (i64 (h5 + h5)) (i64 (h6 + h6)) (i64 (h7 + h7))
                   (i64 (h8 + h8)) (i64 (h9 + h9)))"
    using assms unfolding d by (simp add: within_def)
  show "fe_val (Fe (i64 (h0 + h0)) (i64 (h1 + h1)) (i64 (h2 + h2)) (i64 (h3 + h3))
                   (i64 (h4 + h4)) (i64 (h5 + h5)) (i64 (h6 + h6)) (i64 (h7 + h7))
                   (i64 (h8 + h8)) (i64 (h9 + h9))) = 2 * fe_val (Fe h0 h1 h2 h3 h4 h5 h6 h7 h8 h9)"
    unfolding d fe_val.simps by algebra
qed

lemma fe_sq2_value:
  assumes "fe_bounded 330 f"
  shows "fe_bounded 101 (fe_sq2 f)"
    and "fe_val (fe_sq2 f) mod p25519 = 2 * (fe_val f * fe_val f) mod p25519"
proof -
  obtain h0 h1 h2 h3 h4 h5 h6 h7 h8 h9 where h: "sq_poly f = Fe h0 h1 h2 h3 h4 h5 h6 h7 h8 h9" by (cases "sq_poly f")
  note w = fe_double_exact [OF fe_sq_wide_exact(2) [OF assms, unfolded h]]
  have e: "fe_sq2 f = fe_carry (Fe (i64 (h0 + h0)) (i64 (h1 + h1)) (i64 (h2 + h2)) (i64 (h3 + h3))
                   (i64 (h4 + h4)) (i64 (h5 + h5)) (i64 (h6 + h6)) (i64 (h7 + h7))
                   (i64 (h8 + h8)) (i64 (h9 + h9)))"
    by (simp add: fe_sq2_def fe_sq_wide_exact(1) [OF assms] h)
  have "2 * fe_val (sq_poly f) mod p25519 = 2 * (fe_val f * fe_val f) mod p25519"
    using sq_poly_val [of f] by (metis mod_mult_right_eq)
  with fe_carry_correct [OF w(1)] show "fe_bounded 101 (fe_sq2 f)"
    "fe_val (fe_sq2 f) mod p25519 = 2 * (fe_val f * fe_val f) mod p25519"
    by (simp_all only: e w(2) h)
qed

section \<open>Conditional move\<close>

lemma odd_word_dec:
  fixes w :: "32 word"
  assumes "odd w"
  shows "(w - 1) AND NOT w = 0"
proof -
  have "(w - 1) AND 1 = 0" using assms by (simp add: and_one_eq even_iff_mod_2_eq_zero [symmetric])
  then have "(w - 1) + 1 = (w - 1) OR 1" by (rule disjunctive_add_eq_or)
  then have "(w - 1) OR 1 = w" by simp
  moreover have "v AND NOT (v OR 1) = 0" for v :: "32 word"
    by (simp only: bit.de_Morgan_disj and.assoc [symmetric] bit.conj_cancel_right bit.conj_zero_left)
  ultimately show ?thesis by metis
qed

lemma cmov_assert_iff: "cmov_assert b \<longleftrightarrow> b = 0 \<or> b = 1"
proof
  assume a: "cmov_assert b"
  show "b = 0 \<or> b = 1"
  proof (cases "odd b")
    case True
    then have "(b - 1) AND NOT b = 0" by (rule odd_word_dec)
    with a have "(b - 2) AND NOT (b - 1) = - 1" by (simp add: cmov_assert_def)
    then have "NOT (b - 1) = - 1" by (metis and_eq_minus_1_iff)
    then have "b - 1 = 0" by (metis bit.compl_one bit.double_compl)
    then show ?thesis by simp
  next
    case False
    then have "(b - 1 - 1) AND NOT (b - 1) = 0" by (intro odd_word_dec) simp
    with a have "(b - 1) AND NOT b = - 1" by (simp add: cmov_assert_def diff_diff_eq)
    then have "NOT b = - 1" by (metis and_eq_minus_1_iff)
    then have "b = 0" by (metis bit.compl_one bit.double_compl)
    then show ?thesis by simp
  qed
qed (auto simp: cmov_assert_def)

lemma cmov_limb_simps: "cmov_limb 0 f g = i32 f" "cmov_limb (- 1) f g = i32 g"
  by (simp_all add: cmov_limb_def i32_def signed_of_int flip: xor.assoc)

lemma fe_bounded_i32:
  assumes "fe_bounded k (Fe h0 h1 h2 h3 h4 h5 h6 h7 h8 h9)" "k \<le> 6000"
  shows "i32 h0 = h0" "i32 h1 = h1" "i32 h2 = h2" "i32 h3 = h3" "i32 h4 = h4" "i32 h5 = h5"
    "i32 h6 = h6" "i32 h7 = h7" "i32 h8 = h8" "i32 h9 = h9"
  using assms bounded_div [OF assms(2)] by (simp_all add: fe_bounded_def i32_id within_def)

lemma fe_cmov_value:
  assumes "fe_bounded k f" "fe_bounded k g" "k \<le> 6000"
  shows "fe_cmov f g 0 = Some f" "fe_cmov f g 1 = Some g"
  using assms by (cases f; cases g; simp add: fe_cmov_def cmov_assert_iff cmov_limb_simps fe_bounded_i32)+

section \<open>Properties\<close>

text \<open>
  C4.  \<^verbatim>\<open>fe_mul\<close> multiplies: for inputs within the documented bound $1.65 \cdot 2^{26}$, $1.65 \cdot 2^{25}$
  (alternating), no 64-bit intermediate overflows, every limb of the result is within
  $1.01 \cdot 2^{25}$, $1.01 \cdot 2^{24}$, and the result represents the product modulo $2^{255} - 19$.
\<close>

theorem fe_mul_correct:
  assumes "fe_bounded 330 f" "fe_bounded 330 g"
  shows "fe_bounded 101 (fe_mul f g) \<and> fe_val (fe_mul f g) mod p25519 = fe_val f * fe_val g mod p25519"
  using fe_mul_value [OF assms] by simp

definition fe_big :: fe where
  "fe_big = Fe 110729625 (- 55364812) 110729625 (- 55364812) 110729625 (- 55364812) 110729625
     (- 55364812) 110729625 (- 55364812)"

theorem fe_mul_correct_witness:
  "fe_bounded 101 (fe_mul fe_big fe_big) \<and>
   fe_val (fe_mul fe_big fe_big) mod p25519 = fe_val fe_big * fe_val fe_big mod p25519"
  by (rule fe_mul_correct) (simp_all add: fe_big_def fe_bounded_def within_def)

text \<open>
  \<^verbatim>\<open>fe_sq\<close> and \<^verbatim>\<open>fe_sq2\<close>, the optimised squarings, agree with \<^verbatim>\<open>fe_mul\<close>: on every input within the
  documented bound they represent the square, and twice the square, and meet the same output bound.
\<close>

theorem fe_sq_agrees_with_mul:
  assumes "fe_bounded 330 f"
  shows "fe_bounded 101 (fe_sq f) \<and> fe_bounded 101 (fe_sq2 f) \<and>
    fe_val (fe_sq f) mod p25519 = fe_val (fe_mul f f) mod p25519 \<and>
    fe_val (fe_sq2 f) mod p25519 = 2 * fe_val (fe_mul f f) mod p25519"
  using fe_sq_value [OF assms] fe_sq2_value [OF assms] fe_mul_value [OF assms assms]
  by (metis mod_mult_right_eq)

theorem fe_sq_agrees_with_mul_witness:
  "fe_bounded 330 fe_big \<and> fe_val (fe_sq2 fe_big) mod p25519 = 2 * fe_val (fe_mul fe_big fe_big) mod p25519"
  using fe_sq_agrees_with_mul [of fe_big] by (simp add: fe_big_def fe_bounded_def within_def)

text \<open>
  \<^verbatim>\<open>fe_cmov\<close> never trips its assertion on the selectors 0 and 1, moves nothing for 0 and the
  second element for 1, and fails its assertion on every other selector.
\<close>

theorem fe_cmov_selects:
  assumes "fe_bounded k f" "fe_bounded k g" "k \<le> 6000"
  shows "fe_cmov f g b = (if b = 0 then Some f else if b = 1 then Some g else None)"
proof -
  have "fe_cmov f g b = None" if "b \<noteq> 0" "b \<noteq> 1"
    using that by (cases f; cases g) (simp add: fe_cmov_def cmov_assert_iff)
  with fe_cmov_value [OF assms] show ?thesis by simp
qed

theorem fe_cmov_selects_witness:
  "fe_cmov fe_big fe_1 0 = Some fe_big \<and> fe_cmov fe_big fe_1 1 = Some fe_1 \<and> fe_cmov fe_big fe_1 2 = None"
proof -
  have b: "fe_bounded 330 fe_big" by (simp add: fe_big_def fe_bounded_def within_def)
  show ?thesis
    using fe_cmov_selects [OF b, of fe_1] by simp
qed

end
