(* ===== verification/Sc_Limbs.thy ===== *)
theory Sc_Limbs
  imports Le_Bytes
begin

text \<open>
  Scalars of \<^verbatim>\<open>src/src/crypto/crypto-ops.c\<close> while they are being reduced: a list of signed 64-bit limbs of
  weight $2^{21}$ each.  The theory models the three groups of statements from which \<^verbatim>\<open>sc_reduce\<close>,
  \<^verbatim>\<open>sc_reduce32\<close>, \<^verbatim>\<open>sc_add\<close>, \<^verbatim>\<open>sc_sub\<close>, \<^verbatim>\<open>sc_mul\<close>, \<^verbatim>\<open>sc_muladd\<close> and \<^verbatim>\<open>sc_mulsub\<close> are built (\<open>sc_fold\<close>, \<open>carry_round\<close>,
  \<open>carry_floor\<close>) and an executable interval analysis of them.  The locales \<open>bounded_step\<close>,
  \<open>value_step\<close> and \<open>fold_step\<close> state what the analysis promises for one step and derive it for a
  sequence of steps; they are interpreted on the three groups.
\<close>

section \<open>Limbs and the statements on them\<close>

type_synonym limbs = "int list"

definition sc_l :: int where
  "sc_l = 2 ^ 252 + 27742317777372353535851937790883648493"

definition sc_val :: "limbs \<Rightarrow> int" where
  "sc_val s = horner_sum id (2 ^ 21) s"

text \<open>
  The assignments \<^verbatim>\<open>s_j += x\<close> and \<^verbatim>\<open>s_j -= x\<close> on 64-bit limbs; a group of six of them that folds limb
  $i$ into the limbs $i - 12, \ldots, i - 7$; and the two kinds of carry.
\<close>

definition add_to :: "nat \<Rightarrow> int \<Rightarrow> limbs \<Rightarrow> limbs" where
  "add_to j x s = s[j := i64 (s ! j + x)]"

definition sub_from :: "nat \<Rightarrow> int \<Rightarrow> limbs \<Rightarrow> limbs" where
  "sub_from j x s = s[j := i64 (s ! j - x)]"

definition sc_fold :: "nat \<Rightarrow> limbs \<Rightarrow> limbs" where
  "sc_fold i s =
    (let s = add_to (i - 12) (i64 (s ! i * 666643)) s;
         s = add_to (i - 11) (i64 (s ! i * 470296)) s;
         s = add_to (i - 10) (i64 (s ! i * 654183)) s;
         s = sub_from (i - 9) (i64 (s ! i * 997805)) s;
         s = add_to (i - 8) (i64 (s ! i * 136657)) s
     in sub_from (i - 7) (i64 (s ! i * 683901)) s)"

definition carry_round :: "nat \<Rightarrow> limbs \<Rightarrow> limbs" where
  "carry_round i s =
    (let c = i64 (s ! i + 2 ^ 20) div 2 ^ 21;
         s = add_to (i + 1) c s
     in sub_from i (i64 (c * 2 ^ 21)) s)"

definition carry_floor :: "nat \<Rightarrow> limbs \<Rightarrow> limbs" where
  "carry_floor i s =
    (let c = s ! i div 2 ^ 21;
         s = add_to (i + 1) c s
     in sub_from i (i64 (c * 2 ^ 21)) s)"

definition each :: "(nat \<Rightarrow> limbs \<Rightarrow> limbs) \<Rightarrow> nat list \<Rightarrow> limbs \<Rightarrow> limbs" where
  "each step is s = foldl (\<lambda>s i. step i s) s is"

section \<open>Intervals\<close>

type_synonym iv = "int \<times> int"

text \<open>
  An abstract interpretation of the statements: one interval per limb.  A \<^const>\<open>None\<close> says that
  some 64-bit operation might overflow.
\<close>

definition in_iv :: "iv \<Rightarrow> int \<Rightarrow> bool" where
  "in_iv b x \<longleftrightarrow> fst b \<le> x \<and> x \<le> snd b"

definition fits :: "iv list \<Rightarrow> limbs \<Rightarrow> bool" where
  "fits B s \<longleftrightarrow> list_all2 in_iv B s"

definition iv64 :: "iv \<Rightarrow> bool" where
  "iv64 b \<longleftrightarrow> - (2 ^ 63) < fst b \<and> snd b < 2 ^ 63"

definition iv_add :: "iv \<Rightarrow> iv \<Rightarrow> iv" where
  "iv_add a b = (fst a + fst b, snd a + snd b)"

definition iv_scale :: "int \<Rightarrow> iv \<Rightarrow> iv" where
  "iv_scale k a = (if 0 \<le> k then (k * fst a, k * snd a) else (k * snd a, k * fst a))"

definition bnd_add :: "nat \<Rightarrow> iv \<Rightarrow> iv list \<Rightarrow> iv list option" where
  "bnd_add j x B =
     (let y = iv_add (B ! j) x
      in if j < length B \<and> iv64 x \<and> iv64 y then Some (B[j := y]) else None)"

definition bnd_fold :: "nat \<Rightarrow> iv list \<Rightarrow> iv list option" where
  "bnd_fold i B =
     (if 12 \<le> i \<and> i < length B then
      Option.bind (bnd_add (i - 12) (iv_scale 666643 (B ! i)) B) (\<lambda>B.
      Option.bind (bnd_add (i - 11) (iv_scale 470296 (B ! i)) B) (\<lambda>B.
      Option.bind (bnd_add (i - 10) (iv_scale 654183 (B ! i)) B) (\<lambda>B.
      Option.bind (bnd_add (i - 9) (iv_scale (- 997805) (B ! i)) B) (\<lambda>B.
      Option.bind (bnd_add (i - 8) (iv_scale 136657 (B ! i)) B) (\<lambda>B.
      bnd_add (i - 7) (iv_scale (- 683901) (B ! i)) B)))))
      else None)"

definition bnd_round :: "nat \<Rightarrow> iv list \<Rightarrow> iv list option" where
  "bnd_round i B =
     (if Suc i < length B \<and> iv64 (iv_add (B ! i) (- (2 ^ 20), 2 ^ 21)) then
      Option.bind (bnd_add (i + 1) ((fst (B ! i) + 2 ^ 20) div 2 ^ 21, (snd (B ! i) + 2 ^ 20) div 2 ^ 21) B)
        (\<lambda>B. Some (B[i := (- (2 ^ 20), 2 ^ 20 - 1)]))
      else None)"

definition bnd_floor :: "nat \<Rightarrow> iv list \<Rightarrow> iv list option" where
  "bnd_floor i B =
     (if Suc i < length B \<and> iv64 (iv_add (B ! i) (- (2 ^ 21), 2 ^ 21)) then
      Option.bind (bnd_add (i + 1) (fst (B ! i) div 2 ^ 21, snd (B ! i) div 2 ^ 21) B)
        (\<lambda>B. Some (B[i := (0, 2 ^ 21 - 1)]))
      else None)"

fun run_bnd :: "(nat \<Rightarrow> iv list \<Rightarrow> iv list option) \<Rightarrow> nat list \<Rightarrow> iv list \<Rightarrow> iv list option" where
  "run_bnd bnd [] B = Some B"
| "run_bnd bnd (i # is) B = Option.bind (bnd i B) (run_bnd bnd is)"

section \<open>Soundness of one statement\<close>

lemma length_steps [simp]:
  "length (add_to j x s) = length s" "length (sub_from j x s) = length s"
  "length (sc_fold i s) = length s" "length (carry_round i s) = length s" "length (carry_floor i s) = length s"
  by (simp_all add: add_to_def sub_from_def sc_fold_def carry_round_def carry_floor_def Let_def)

lemma length_each: "(\<And>i s. length (step i s) = length s) \<Longrightarrow> length (each step is s) = length s"
  by (induction "is" arbitrary: s) (simp_all add: each_def)

lemma length_each_steps [simp]:
  "length (each sc_fold is s) = length s" "length (each carry_round is s) = length s"
  "length (each carry_floor is s) = length s"
  by (simp_all add: length_each)

lemma fits_length: "fits B s \<Longrightarrow> length B = length s"
  by (auto simp: fits_def dest: list_all2_lengthD)

lemma fits_nth: "fits B s \<Longrightarrow> i < length s \<Longrightarrow> in_iv (B ! i) (s ! i)"
  by (auto simp: fits_def list_all2_conv_all_nth)

lemma fits_update: "fits B s \<Longrightarrow> in_iv b x \<Longrightarrow> fits (B[i := b]) (s[i := x])"
  by (auto simp: fits_def intro: list_all2_update_cong)

lemma in_iv_add: "in_iv a x \<Longrightarrow> in_iv b y \<Longrightarrow> in_iv (iv_add a b) (x + y)"
  by (simp add: in_iv_def iv_add_def)

lemma in_iv_scale: "in_iv a x \<Longrightarrow> in_iv (iv_scale k a) (x * k)"
  by (simp add: in_iv_def iv_scale_def mult.commute [of x] mult_left_mono mult_left_mono_neg)

lemma in_iv_i64: "in_iv a x \<Longrightarrow> iv64 a \<Longrightarrow> i64 x = x"
  by (simp add: in_iv_def iv64_def i64_id)

lemma sc_val_update:
  "i < length s \<Longrightarrow> sc_val (s[i := x]) = sc_val s + (x - s ! i) * 2 ^ (21 * i)"
  by (simp add: sc_val_def horner_sum_update power_mult)

text \<open>One statement \<^verbatim>\<open>s_j += x\<close>, exact and within its interval.\<close>

lemma bnd_add_sound:
  assumes "bnd_add j b B = Some B'" "fits B s" "in_iv b x"
  shows "j < length s" "i64 x = x" "add_to j x s = s[j := s ! j + x]" "fits B' (add_to j x s)"
proof -
  from assms(1) have j: "j < length B" and b: "iv64 b" "iv64 (iv_add (B ! j) b)"
    and B': "B' = B[j := iv_add (B ! j) b]"
    by (auto simp: bnd_add_def Let_def split: if_splits)
  then show "j < length s" using fits_length [OF assms(2)] by simp
  then have s: "in_iv (iv_add (B ! j) b) (s ! j + x)"
    by (intro in_iv_add fits_nth assms)
  show "i64 x = x" using in_iv_i64 assms(3) b(1) by blast
  show e: "add_to j x s = s[j := s ! j + x]" by (simp add: add_to_def in_iv_i64 [OF s b(2)])
  show "fits B' (add_to j x s)" unfolding e B' by (rule fits_update [OF assms(2) s])
qed

lemma sub_from_neg: "sub_from j x s = add_to j (- x) s"
  by (simp add: sub_from_def add_to_def)

lemma take_update_val:
  assumes "j < i" "i \<le> length s"
  shows "sc_val (take i (s[j := s ! j + x])) = sc_val (take i s) + x * 2 ^ (21 * j)"
  using assms by (simp add: take_update_swap sc_val_update)

text \<open>
  One line \<^verbatim>\<open>s_j += s_i * k\<close> (or \<^verbatim>\<open>-=\<close>) of a fold: it stays within the interval, leaves \<^verbatim>\<open>s_i\<close> alone
  and adds $s_i k 2^{21 j}$ to the value of the limbs below $i$.
\<close>

lemma fold_line:
  assumes "bnd_add j (iv_scale k (B ! i)) B = Some B'" "fits B s" "j < i" "i < length s"
  defines "s' \<equiv> add_to j (i64 (s ! i * k)) s"
  shows "fits B' s'" "length s' = length s" "s' ! i = s ! i"
    "sc_val (take i s') = sc_val (take i s) + s ! i * k * 2 ^ (21 * j)"
proof -
  have x: "in_iv (iv_scale k (B ! i)) (s ! i * k)" by (intro in_iv_scale fits_nth assms)
  note r = bnd_add_sound [OF assms(1,2) x]
  show "fits B' s'" using r by (simp add: s'_def)
  have e: "s' = s[j := s ! j + s ! i * k]" using r by (simp add: s'_def)
  show "length s' = length s" "s' ! i = s ! i" using \<open>j < i\<close> by (simp_all add: e)
  show "sc_val (take i s') = sc_val (take i s) + s ! i * k * 2 ^ (21 * j)"
    unfolding e using assms(3,4) by (intro take_update_val) simp_all
qed

lemma fold_line_sub:
  assumes "bnd_add j (iv_scale (- k) (B ! i)) B = Some B'" "fits B s" "j < i" "i < length s"
  shows "sub_from j (i64 (s ! i * k)) s = add_to j (i64 (s ! i * - k)) s"
proof -
  have x: "in_iv (iv_scale (- k) (B ! i)) (s ! i * - k)" by (intro in_iv_scale fits_nth assms)
  moreover have "iv64 (iv_scale (- k) (B ! i))"
    using assms(1) by (auto simp: bnd_add_def Let_def split: if_splits)
  ultimately have "i64 (s ! i * k) = s ! i * k" "i64 (s ! i * - k) = s ! i * - k"
    by (auto simp: in_iv_def iv64_def intro!: i64_id)
  then show ?thesis by (simp add: sub_from_neg)
qed

lemma sc_l_digits:
  "666643 + 470296 * 2 ^ 21 + 654183 * 2 ^ 42 - 997805 * 2 ^ 63 + 136657 * 2 ^ 84 - 683901 * 2 ^ 105
   = 2 ^ 252 - sc_l"
  by (simp add: sc_l_def)

lemma fold_value:
  fixes x v :: int
  assumes "12 \<le> i"
  shows "(v + x * 666643 * 2 ^ (21 * (i - 12)) + x * 470296 * 2 ^ (21 * (i - 11))
     + x * 654183 * 2 ^ (21 * (i - 10)) + x * - 997805 * 2 ^ (21 * (i - 9))
     + x * 136657 * 2 ^ (21 * (i - 8)) + x * - 683901 * 2 ^ (21 * (i - 7)))
   = v + x * 2 ^ (21 * (i - 12)) * (2 ^ 252 - sc_l)"
proof -
  define W :: int where "W = 2 ^ (21 * (i - 12))"
  obtain j where j: "i = j + 12" using assms le_Suc_ex [of 12 i] by auto
  have p: "(2::int) ^ (21 * (i - 11)) = W * 2 ^ 21" "(2::int) ^ (21 * (i - 10)) = W * 2 ^ 42"
    "(2::int) ^ (21 * (i - 9)) = W * 2 ^ 63" "(2::int) ^ (21 * (i - 8)) = W * 2 ^ 84"
    "(2::int) ^ (21 * (i - 7)) = W * 2 ^ 105"
    by (simp_all add: W_def j power_add distrib_left)
  have "v + x * 666643 * W + x * 470296 * (W * 2 ^ 21) + x * 654183 * (W * 2 ^ 42) + x * - 997805 * (W * 2 ^ 63)
      + x * 136657 * (W * 2 ^ 84) + x * - 683901 * (W * 2 ^ 105)
    = v + x * W * (2 ^ 252 - sc_l)"
    unfolding sc_l_digits [symmetric] by algebra
  then show ?thesis by (simp only: p W_def [symmetric])
qed

lemma sc_fold_sound:
  assumes "bnd_fold i B = Some B'" "fits B s"
  shows "fits B' (sc_fold i s)"
    and "sc_val (take i (sc_fold i s)) = sc_val (take i s) + s ! i * 2 ^ (21 * (i - 12)) * (2 ^ 252 - sc_l)"
proof -
  have i: "12 \<le> i" "i < length B" using assms(1) by (auto simp: bnd_fold_def split: if_splits)
  then have l: "i < length s" using fits_length [OF assms(2)] by simp
  obtain B1 B2 B3 B4 B5 where b: "bnd_add (i - 12) (iv_scale 666643 (B ! i)) B = Some B1"
    "bnd_add (i - 11) (iv_scale 470296 (B1 ! i)) B1 = Some B2"
    "bnd_add (i - 10) (iv_scale 654183 (B2 ! i)) B2 = Some B3"
    "bnd_add (i - 9) (iv_scale (- 997805) (B3 ! i)) B3 = Some B4"
    "bnd_add (i - 8) (iv_scale 136657 (B4 ! i)) B4 = Some B5"
    "bnd_add (i - 7) (iv_scale (- 683901) (B5 ! i)) B5 = Some B'"
    using assms(1) by (auto simp: bnd_fold_def bind_eq_Some_conv split: if_splits)
  define s1 where "s1 = add_to (i - 12) (i64 (s ! i * 666643)) s"
  define s2 where "s2 = add_to (i - 11) (i64 (s1 ! i * 470296)) s1"
  define s3 where "s3 = add_to (i - 10) (i64 (s2 ! i * 654183)) s2"
  define s4 where "s4 = add_to (i - 9) (i64 (s3 ! i * - 997805)) s3"
  define s5 where "s5 = add_to (i - 8) (i64 (s4 ! i * 136657)) s4"
  define s6 where "s6 = add_to (i - 7) (i64 (s5 ! i * - 683901)) s5"
  have j: "i - 12 < i" "i - 11 < i" "i - 10 < i" "i - 9 < i" "i - 8 < i" "i - 7 < i"
    using i by simp_all
  note r1 = fold_line [OF b(1) assms(2) j(1) l, folded s1_def]
  note r2 = fold_line [OF b(2) r1(1) j(2) l [folded r1(2)], folded s2_def]
  note r3 = fold_line [OF b(3) r2(1) j(3) l [folded r1(2) r2(2)], folded s3_def]
  note r4 = fold_line [OF b(4) r3(1) j(4) l [folded r1(2) r2(2) r3(2)], folded s4_def]
  note r5 = fold_line [OF b(5) r4(1) j(5) l [folded r1(2) r2(2) r3(2) r4(2)], folded s5_def]
  note r6 = fold_line [OF b(6) r5(1) j(6) l [folded r1(2) r2(2) r3(2) r4(2) r5(2)], folded s6_def]
  have "sub_from (i - 9) (i64 (s3 ! i * 997805)) s3 = s4"
    using fold_line_sub [OF b(4) r3(1) j(4)] l r1(2) r2(2) r3(2) by (simp add: s4_def)
  moreover have "sub_from (i - 7) (i64 (s5 ! i * 683901)) s5 = s6"
    using fold_line_sub [OF b(6) r5(1) j(6)] l r1(2) r2(2) r3(2) r4(2) r5(2) by (simp add: s6_def)
  ultimately have e: "sc_fold i s = s6"
    by (simp only: sc_fold_def Let_def s1_def [symmetric] s2_def [symmetric] s3_def [symmetric] s5_def [symmetric])
  show "fits B' (sc_fold i s)" unfolding e by (rule r6(1))
  show "sc_val (take i (sc_fold i s)) = sc_val (take i s) + s ! i * 2 ^ (21 * (i - 12)) * (2 ^ 252 - sc_l)"
    unfolding e r6(4) r5(3,4) r4(3,4) r3(3,4) r2(3,4) r1(3,4) by (simp only: fold_value [OF i(1)])
qed

lemma sc_val_take_Suc: "i < length s \<Longrightarrow> sc_val (take (Suc i) s) = sc_val (take i s) + s ! i * 2 ^ (21 * i)"
  by (simp add: take_Suc_conv_app_nth sc_val_def horner_sum_append power_mult)

lemma sc_fold_mod:
  assumes "bnd_fold i B = Some B'" "fits B s"
  shows "sc_val (take i (sc_fold i s)) mod sc_l = sc_val (take (Suc i) s) mod sc_l"
proof -
  have i: "12 \<le> i" "i < length s"
    using assms(1) fits_length [OF assms(2)] by (auto simp: bnd_fold_def split: if_splits)
  then obtain j where "i = j + 12" using le_Suc_ex [of 12 i] by auto
  then have p: "(2::int) ^ (21 * i) = 2 ^ (21 * (i - 12)) * 2 ^ 252" by (simp add: power_add distrib_left)
  have "sc_val (take i (sc_fold i s)) = sc_val (take (Suc i) s) + sc_l * (- (s ! i * 2 ^ (21 * (i - 12))))"
    unfolding sc_fold_sound(2) [OF assms] sc_val_take_Suc [OF i(2)] p by algebra
  then show ?thesis by (simp only: mod_mult_self2)
qed

text \<open>
  A carry moves $c$ from limb $i$ to limb $i + 1$.  Both kinds share everything but the rounding of
  $c$ and the interval in which limb $i$ ends.
\<close>

lemma carry_line:
  assumes "bnd_add (i + 1) b B = Some B1" "fits B s" "in_iv b c" "Suc i < length s"
    and r: "in_iv r (s ! i - c * 2 ^ 21)" and "iv64 r"
    and c: "- (2 ^ 63) \<le> c * 2 ^ 21" "c * 2 ^ 21 < 2 ^ 63"
  defines "s' \<equiv> sub_from i (i64 (c * 2 ^ 21)) (add_to (i + 1) c s)"
  shows "fits (B1[i := r]) s'" "length s' = length s"
    "\<And>n. Suc i < n \<Longrightarrow> n \<le> length s \<Longrightarrow> sc_val (take n s') = sc_val (take n s)"
proof -
  note u = bnd_add_sound [OF assms(1-3)]
  have e: "s' = (s[i + 1 := s ! (i + 1) + c])[i := s ! i - c * 2 ^ 21]"
    using u assms(4) i64_id [OF c] in_iv_i64 [OF r \<open>iv64 r\<close>] by (simp add: s'_def sub_from_def)
  show "fits (B1[i := r]) s'" unfolding e using fits_update [OF u(4) r, of i] u(3) by simp
  show "length s' = length s" by (simp add: e)
  fix n assume "Suc i < n" "n \<le> length s"
  then show "sc_val (take n s') = sc_val (take n s)"
    by (simp add: e take_update_swap sc_val_update algebra_simps power_add)
qed

lemma carry_round_sound:
  assumes "bnd_round i B = Some B'" "fits B s"
  shows "fits B' (carry_round i s)"
    and "Suc i < n \<Longrightarrow> n \<le> length s \<Longrightarrow> sc_val (take n (carry_round i s)) = sc_val (take n s)"
proof -
  obtain B1 where b: "bnd_add (i + 1) ((fst (B ! i) + 2 ^ 20) div 2 ^ 21, (snd (B ! i) + 2 ^ 20) div 2 ^ 21) B = Some B1"
    "B' = B1[i := (- (2 ^ 20), 2 ^ 20 - 1)]" and l: "Suc i < length s"
    and w: "iv64 (iv_add (B ! i) (- (2 ^ 20), 2 ^ 21))"
    using assms fits_length [OF assms(2)] by (auto simp: bnd_round_def bind_eq_Some_conv split: if_splits)
  have s: "in_iv (B ! i) (s ! i)" using assms(2) l by (intro fits_nth) simp_all
  define c where "c = (s ! i + 2 ^ 20) div 2 ^ 21"
  have "i64 (s ! i + 2 ^ 20) = s ! i + 2 ^ 20"
    using s w by (intro i64_id) (simp_all add: in_iv_def iv64_def iv_add_def)
  then have e: "carry_round i s = sub_from i (i64 (c * 2 ^ 21)) (add_to (i + 1) c s)"
    by (simp add: carry_round_def Let_def c_def)
  have c: "in_iv ((fst (B ! i) + 2 ^ 20) div 2 ^ 21, (snd (B ! i) + 2 ^ 20) div 2 ^ 21) c"
    using s by (simp add: in_iv_def c_def zdiv_mono1)
  have d: "c * 2 ^ 21 \<le> s ! i + 2 ^ 20" "s ! i + 2 ^ 20 < c * 2 ^ 21 + 2 ^ 21"
    using mod_div_decomp [of "s ! i + 2 ^ 20" "2 ^ 21"] pos_mod_bound [of "2 ^ 21" "s ! i + 2 ^ 20"]
      pos_mod_sign [of "2 ^ 21" "s ! i + 2 ^ 20"] by (simp_all add: c_def)
  have r: "in_iv (- (2 ^ 20), 2 ^ 20 - 1) (s ! i - c * 2 ^ 21)" using d by (simp add: in_iv_def)
  have v: "- (2 ^ 63) \<le> c * 2 ^ 21" "c * 2 ^ 21 < 2 ^ 63"
    using d s w by (simp_all add: in_iv_def iv64_def iv_add_def)
  have "iv64 (- (2 ^ 20), 2 ^ 20 - 1)" by (simp add: iv64_def)
  note k = carry_line [OF b(1) assms(2) c l r this v, folded e]
  show "fits B' (carry_round i s)" using k(1) b(2) by simp
  show "sc_val (take n (carry_round i s)) = sc_val (take n s)" if "Suc i < n" "n \<le> length s"
    by (rule k(3) [OF that])
qed

lemma carry_floor_sound:
  assumes "bnd_floor i B = Some B'" "fits B s"
  shows "fits B' (carry_floor i s)"
    and "Suc i < n \<Longrightarrow> n \<le> length s \<Longrightarrow> sc_val (take n (carry_floor i s)) = sc_val (take n s)"
proof -
  obtain B1 where b: "bnd_add (i + 1) (fst (B ! i) div 2 ^ 21, snd (B ! i) div 2 ^ 21) B = Some B1"
    "B' = B1[i := (0, 2 ^ 21 - 1)]" and l: "Suc i < length s"
    and w: "iv64 (iv_add (B ! i) (- (2 ^ 21), 2 ^ 21))"
    using assms fits_length [OF assms(2)] by (auto simp: bnd_floor_def bind_eq_Some_conv split: if_splits)
  have s: "in_iv (B ! i) (s ! i)" using assms(2) l by (intro fits_nth) simp_all
  define c where "c = s ! i div 2 ^ 21"
  have e: "carry_floor i s = sub_from i (i64 (c * 2 ^ 21)) (add_to (i + 1) c s)"
    by (simp add: carry_floor_def Let_def c_def)
  have c: "in_iv (fst (B ! i) div 2 ^ 21, snd (B ! i) div 2 ^ 21) c"
    using s by (simp add: in_iv_def c_def zdiv_mono1)
  have r: "in_iv (0, 2 ^ 21 - 1) (s ! i - c * 2 ^ 21)"
    using pos_mod_bound [of "2 ^ 21" "s ! i"] pos_mod_sign [of "2 ^ 21" "s ! i"]
    by (simp add: c_def in_iv_def minus_div_mult_eq_mod)
  have v: "- (2 ^ 63) \<le> c * 2 ^ 21" "c * 2 ^ 21 < 2 ^ 63"
    using r s w by (simp_all add: in_iv_def iv64_def iv_add_def)
  have "iv64 (0, 2 ^ 21 - 1)" by (simp add: iv64_def)
  note k = carry_line [OF b(1) assms(2) c l r this v, folded e]
  show "fits B' (carry_floor i s)" using k(1) b(2) by simp
  show "sc_val (take n (carry_floor i s)) = sc_val (take n s)" if "Suc i < n" "n \<le> length s"
    by (rule k(3) [OF that])
qed

section \<open>Sequences of steps\<close>

text \<open>
  The interface between the interval analysis and the code: \<open>bnd\<close> predicts the intervals after
  \<open>step\<close>.  A sequence of steps is then sound as a whole, and a sequence of steps that keep the
  value of the limbs keeps it as a whole.
\<close>

locale bounded_step =
  fixes step :: "nat \<Rightarrow> limbs \<Rightarrow> limbs" and bnd :: "nat \<Rightarrow> iv list \<Rightarrow> iv list option"
  assumes step_fits: "bnd i B = Some B' \<Longrightarrow> fits B s \<Longrightarrow> fits B' (step i s)"
begin

lemma run_fits: "run_bnd bnd is B = Some B' \<Longrightarrow> fits B s \<Longrightarrow> fits B' (each step is s)"
  by (induction "is" arbitrary: B s) (auto simp: each_def bind_eq_Some_conv dest: step_fits)

end

locale value_step = bounded_step +
  assumes step_val: "bnd i B = Some B' \<Longrightarrow> fits B s \<Longrightarrow> Suc i < n \<Longrightarrow> n \<le> length s \<Longrightarrow>
      sc_val (take n (step i s)) = sc_val (take n s)"
    and step_length: "length (step i s) = length s"
begin

lemma run_val:
  "run_bnd bnd is B = Some B' \<Longrightarrow> fits B s \<Longrightarrow> \<forall>i\<in>set is. Suc i < n \<Longrightarrow> n \<le> length s \<Longrightarrow>
     sc_val (take n (each step is s)) = sc_val (take n s)"
proof (induction "is" arbitrary: B s)
  case (Cons i "is")
  then obtain B1 where b: "bnd i B = Some B1" "run_bnd bnd is B1 = Some B'"
    by (auto simp: bind_eq_Some_conv)
  have f: "fits B1 (step i s)" by (rule step_fits [OF b(1) Cons.prems(2)])
  with Cons.IH [OF b(2) f] Cons.prems step_val [OF b(1) Cons.prems(2)] step_length [of i s]
  show ?case by (simp add: each_def)
qed (simp add: each_def)

end

locale fold_step = bounded_step +
  assumes step_mod: "bnd i B = Some B' \<Longrightarrow> fits B s \<Longrightarrow>
      sc_val (take i (step i s)) mod sc_l = sc_val (take (Suc i) s) mod sc_l"
begin

lemma run_mod:
  "run_bnd bnd (rev [m..<n]) B = Some B' \<Longrightarrow> fits B s \<Longrightarrow> m \<le> n \<Longrightarrow>
     sc_val (take m (each step (rev [m..<n]) s)) mod sc_l = sc_val (take n s) mod sc_l"
proof (induction n arbitrary: B s)
  case (Suc n)
  show ?case
  proof (cases "m = Suc n")
    case False
    with Suc.prems have m: "rev [m..<Suc n] = n # rev [m..<n]" "m \<le> n" by simp_all
    then obtain B1 where b: "bnd n B = Some B1" "run_bnd bnd (rev [m..<n]) B1 = Some B'"
      using Suc.prems(1) by (auto simp: bind_eq_Some_conv)
    have "each step (rev [m..<Suc n]) s = each step (rev [m..<n]) (step n s)"
      using m by (simp add: each_def)
    with Suc.IH [OF b(2) step_fits [OF b(1) Suc.prems(2)] m(2)] step_mod [OF b(1) Suc.prems(2)]
    show ?thesis by simp
  qed (simp add: each_def)
qed (simp add: each_def)

end

interpretation folds: fold_step sc_fold bnd_fold
  by unfold_locales (rule sc_fold_sound sc_fold_mod; assumption)+

interpretation rounds: value_step carry_round bnd_round
  by unfold_locales
    (auto simp: carry_round_sound)

interpretation floors: value_step carry_floor bnd_floor
  by unfold_locales
    (auto simp: carry_floor_sound)

end
