(* ===== verification/Sc_Reduce.thy ===== *)
theory Sc_Reduce
  imports Sc_Limbs
begin

text \<open>
  Reading bytes into limbs, the phases of the reduction modulo $\ell$, and writing limbs as bytes, as
  they occur in every \<^verbatim>\<open>sc_*\<close> operation of \<^verbatim>\<open>src/src/crypto/crypto-ops.c\<close>.  The interval analysis is run on
  each phase; with it \<open>sc_finish\<close> shows that the final phase returns the canonical encoding of the
  value modulo $\ell$.
\<close>

section \<open>Reading and writing scalars\<close>

definition sc_load :: "bytes \<Rightarrow> limbs" where
  "sc_load s =
     [sint (2097151 AND load_3 s),
      sint (2097151 AND drop_bit 5 (load_4 (drop 2 s))),
      sint (2097151 AND drop_bit 2 (load_3 (drop 5 s))),
      sint (2097151 AND drop_bit 7 (load_4 (drop 7 s))),
      sint (2097151 AND drop_bit 4 (load_4 (drop 10 s))),
      sint (2097151 AND drop_bit 1 (load_3 (drop 13 s))),
      sint (2097151 AND drop_bit 6 (load_4 (drop 15 s))),
      sint (2097151 AND drop_bit 3 (load_3 (drop 18 s))),
      sint (2097151 AND load_3 (drop 21 s)),
      sint (2097151 AND drop_bit 5 (load_4 (drop 23 s))),
      sint (2097151 AND drop_bit 2 (load_3 (drop 26 s))),
      sint (drop_bit 7 (load_4 (drop 28 s)))]"

definition sc_load64 :: "bytes \<Rightarrow> limbs" where
  "sc_load64 s =
     [sint (2097151 AND load_3 s),
      sint (2097151 AND drop_bit 5 (load_4 (drop 2 s))),
      sint (2097151 AND drop_bit 2 (load_3 (drop 5 s))),
      sint (2097151 AND drop_bit 7 (load_4 (drop 7 s))),
      sint (2097151 AND drop_bit 4 (load_4 (drop 10 s))),
      sint (2097151 AND drop_bit 1 (load_3 (drop 13 s))),
      sint (2097151 AND drop_bit 6 (load_4 (drop 15 s))),
      sint (2097151 AND drop_bit 3 (load_3 (drop 18 s))),
      sint (2097151 AND load_3 (drop 21 s)),
      sint (2097151 AND drop_bit 5 (load_4 (drop 23 s))),
      sint (2097151 AND drop_bit 2 (load_3 (drop 26 s))),
      sint (2097151 AND drop_bit 7 (load_4 (drop 28 s))),
      sint (2097151 AND drop_bit 4 (load_4 (drop 31 s))),
      sint (2097151 AND drop_bit 1 (load_3 (drop 34 s))),
      sint (2097151 AND drop_bit 6 (load_4 (drop 36 s))),
      sint (2097151 AND drop_bit 3 (load_3 (drop 39 s))),
      sint (2097151 AND load_3 (drop 42 s)),
      sint (2097151 AND drop_bit 5 (load_4 (drop 44 s))),
      sint (2097151 AND drop_bit 2 (load_3 (drop 47 s))),
      sint (2097151 AND drop_bit 7 (load_4 (drop 49 s))),
      sint (2097151 AND drop_bit 4 (load_4 (drop 52 s))),
      sint (2097151 AND drop_bit 1 (load_3 (drop 55 s))),
      sint (2097151 AND drop_bit 6 (load_4 (drop 57 s))),
      sint (drop_bit 3 (load_4 (drop 60 s)))]"

definition sc_store :: "limbs \<Rightarrow> bytes" where
  "sc_store s =
     [word_of_int (s ! 0 div 2 ^ 0),
      word_of_int (s ! 0 div 2 ^ 8),
      word_of_int (s ! 0 div 2 ^ 16 OR s ! 1 * 2 ^ 5),
      word_of_int (s ! 1 div 2 ^ 3),
      word_of_int (s ! 1 div 2 ^ 11),
      word_of_int (s ! 1 div 2 ^ 19 OR s ! 2 * 2 ^ 2),
      word_of_int (s ! 2 div 2 ^ 6),
      word_of_int (s ! 2 div 2 ^ 14 OR s ! 3 * 2 ^ 7),
      word_of_int (s ! 3 div 2 ^ 1),
      word_of_int (s ! 3 div 2 ^ 9),
      word_of_int (s ! 3 div 2 ^ 17 OR s ! 4 * 2 ^ 4),
      word_of_int (s ! 4 div 2 ^ 4),
      word_of_int (s ! 4 div 2 ^ 12),
      word_of_int (s ! 4 div 2 ^ 20 OR s ! 5 * 2 ^ 1),
      word_of_int (s ! 5 div 2 ^ 7),
      word_of_int (s ! 5 div 2 ^ 15 OR s ! 6 * 2 ^ 6),
      word_of_int (s ! 6 div 2 ^ 2),
      word_of_int (s ! 6 div 2 ^ 10),
      word_of_int (s ! 6 div 2 ^ 18 OR s ! 7 * 2 ^ 3),
      word_of_int (s ! 7 div 2 ^ 5),
      word_of_int (s ! 7 div 2 ^ 13),
      word_of_int (s ! 8 div 2 ^ 0),
      word_of_int (s ! 8 div 2 ^ 8),
      word_of_int (s ! 8 div 2 ^ 16 OR s ! 9 * 2 ^ 5),
      word_of_int (s ! 9 div 2 ^ 3),
      word_of_int (s ! 9 div 2 ^ 11),
      word_of_int (s ! 9 div 2 ^ 19 OR s ! 10 * 2 ^ 2),
      word_of_int (s ! 10 div 2 ^ 6),
      word_of_int (s ! 10 div 2 ^ 14 OR s ! 11 * 2 ^ 7),
      word_of_int (s ! 11 div 2 ^ 1),
      word_of_int (s ! 11 div 2 ^ 9),
      word_of_int (s ! 11 div 2 ^ 17)]"

section \<open>The reduction\<close>

text \<open>
  The phases of the reduction, in the order of the code: the carries over all 23 products (only
  after a multiplication), the fold of the limbs 23 to 12 into the low limbs (only for 24 limbs),
  and the final reduction.  A list of indices stands for the consecutive lines of the code with
  these indices; the limbs 13 to 23 are dead after \<open>sc_head\<close> and are dropped there.
\<close>

definition sc_wide :: "limbs \<Rightarrow> limbs" where
  "sc_wide s =
     each carry_round [1, 3, 5, 7, 9, 11, 13, 15, 17, 19, 21]
       (each carry_round [0, 2, 4, 6, 8, 10, 12, 14, 16, 18, 20, 22] s)"

definition sc_head :: "limbs \<Rightarrow> limbs" where
  "sc_head s =
    (let s = each sc_fold [23, 22, 21, 20, 19, 18] s;
         s = each carry_round [6, 8, 10, 12, 14, 16] s;
         s = each carry_round [7, 9, 11, 13, 15] s;
         s = each sc_fold [17, 16, 15, 14, 13, 12] s
     in (take 13 s)[12 := 0])"

definition sc_tail :: "limbs \<Rightarrow> limbs" where
  "sc_tail s =
    (let s = each carry_round [0, 2, 4, 6, 8, 10] s;
         s = each carry_round [1, 3, 5, 7, 9, 11] s;
         s = sc_fold 12 s;
         s = s[12 := 0];
         s = each carry_floor [0, 1, 2, 3, 4, 5, 6, 7, 8, 9, 10, 11] s;
         s = sc_fold 12 s
     in each carry_floor [0, 1, 2, 3, 4, 5, 6, 7, 8, 9, 10] s)"

section \<open>Loads\<close>

lemma uint_mask21: "uint (2097151 AND (w :: 64 word)) = uint w mod 2 ^ 21"
proof -
  have "(2097151 :: 64 word) = mask 21" by (simp add: mask_eq_exp_minus_1)
  then have "2097151 AND w = take_bit 21 w" by (simp only: take_bit_eq_mask and.commute)
  then show ?thesis by (simp only: unsigned_take_bit_eq) (simp only: take_bit_eq_mod)
qed

lemma masked_limb:
  fixes w :: "64 word"
  assumes "uint w = v div 256 ^ k mod 256 ^ n" "j + 21 \<le> 8 * n"
  shows "sint (2097151 AND drop_bit j w) = v div 2 ^ (8 * k + j) mod 2 ^ 21"
proof -
  have "uint (2097151 AND drop_bit j w) = v div 2 ^ (8 * k + j) mod 2 ^ 21"
    unfolding uint_mask21 uint_drop_bit64 assms(1) by (rule slice [OF assms(2)])
  moreover have "v div 2 ^ (8 * k + j) mod 2 ^ 21 < 2 ^ 63"
    using pos_mod_bound [of "2 ^ 21" "v div 2 ^ (8 * k + j)"] by simp
  ultimately show ?thesis using sint_eq_uint64 by metis
qed

lemma limb_at:
  "k + 3 \<le> length s \<Longrightarrow> j \<le> 3 \<Longrightarrow>
     sint (2097151 AND drop_bit j (load_3 (drop k s))) = le_val s div 2 ^ (8 * k + j) mod 2 ^ 21"
  "k + 4 \<le> length s \<Longrightarrow> j \<le> 11 \<Longrightarrow>
     sint (2097151 AND drop_bit j (load_4 (drop k s))) = le_val s div 2 ^ (8 * k + j) mod 2 ^ 21"
  "k + 3 \<le> length s \<Longrightarrow> sint (2097151 AND load_3 (drop k s)) = le_val s div 2 ^ (8 * k) mod 2 ^ 21"
  using masked_limb [OF load_at(1), of k s j] masked_limb [OF load_at(2), of k s j]
    masked_limb [OF load_at(1), of k s 0] by simp_all

lemma limb_top:
  assumes "k + 4 = length s"
  shows "sint (drop_bit j (load_4 (drop k s))) = le_val s div 2 ^ (8 * k + j)"
    and "le_val s div 2 ^ (8 * k + j) < 2 ^ 32"
proof -
  have u: "uint (load_4 (drop k s)) = le_val s div 256 ^ k"
    using assms by (simp add: load_4_val le_val_drop)
  have n: "length (drop k s) = 4" "k \<le> length s" using assms by simp_all
  have l: "le_val s div 256 ^ k < 2 ^ 32"
    using le_val_less [of "drop k s", unfolded n(1)] n(2) by (simp add: le_val_drop)
  have e: "le_val s div 256 ^ k div 2 ^ j = le_val s div 2 ^ (8 * k + j)"
    by (simp add: zdiv_zmult2_eq power_add power_mult)
  have "le_val s div 256 ^ k div 2 ^ j \<le> le_val s div 256 ^ k"
    using zdiv_mono2 [of "le_val s div 256 ^ k" 1 "2 ^ j"] by (simp add: pos_imp_zdiv_nonneg_iff)
  with l e show *: "le_val s div 2 ^ (8 * k + j) < 2 ^ 32" by simp
  have "uint (drop_bit j (load_4 (drop k s))) = le_val s div 2 ^ (8 * k + j)"
    unfolding uint_drop_bit64 u by (rule e)
  with * show "sint (drop_bit j (load_4 (drop k s))) = le_val s div 2 ^ (8 * k + j)"
    by (simp add: sint_eq_uint64)
qed

definition digits :: "nat \<Rightarrow> int \<Rightarrow> limbs" where
  "digits n v = map (\<lambda>i. v div 2 ^ (21 * i) mod 2 ^ 21) [0..<n] @ [v div 2 ^ (21 * n)]"

lemma sc_val_digits: "sc_val (digits n v) = v"
proof (induction n)
  case 0
  show ?case by (simp add: digits_def sc_val_def)
next
  case (Suc n)
  have "v div 2 ^ (21 * n) = v div 2 ^ (21 * n) mod 2 ^ 21 + 2 ^ 21 * (v div 2 ^ (21 * Suc n))"
    using mult_div_mod_eq [of "2 ^ 21" "v div 2 ^ (21 * n)"]
    by (simp add: zdiv_zmult2_eq [symmetric] power_add ac_simps)
  with Suc show ?case
    by (simp add: digits_def sc_val_def horner_sum_append algebra_simps)
qed

lemma sc_load_digits:
  assumes "length s = 32"
  shows "sc_load s = digits 11 (le_val s)"
proof -
  have u: "[0..<11] = [0, 1, 2, 3, 4, 5, 6, 7, 8, 9, 10]" by code_simp
  have "sint (2097151 AND load_3 s) = le_val s mod 2 ^ 21"
    using limb_at(3) [of 0 s] assms by simp
  then show ?thesis
    using assms unfolding sc_load_def digits_def u by (simp add: limb_at limb_top)
qed

lemma sc_load64_digits:
  assumes "length s = 64"
  shows "sc_load64 s = digits 23 (le_val s)"
proof -
  have u: "[0..<23] = [0, 1, 2, 3, 4, 5, 6, 7, 8, 9, 10, 11, 12, 13, 14, 15, 16, 17, 18, 19, 20, 21, 22]"
    by code_simp
  have "sint (2097151 AND load_3 s) = le_val s mod 2 ^ 21"
    using limb_at(3) [of 0 s] assms by simp
  then show ?thesis
    using assms unfolding sc_load64_def digits_def u by (simp add: limb_at limb_top)
qed

lemma fits_digits:
  assumes "0 \<le> v" "v < 2 ^ (21 * n + m)"
  shows "fits (replicate n (0, 2 ^ 21 - 1) @ [(0, 2 ^ m - 1)]) (digits n v)"
proof -
  have "v div 2 ^ (21 * n) < 2 ^ m"
    using div_less_pow [OF assms(2), of "21 * n"] by simp
  then have "in_iv (0, 2 ^ m - 1) (v div 2 ^ (21 * n))"
    using assms(1) by (simp add: in_iv_def pos_imp_zdiv_nonneg_iff)
  moreover have "list_all2 in_iv (replicate n (0, 2 ^ 21 - 1)) (map (\<lambda>i. v div 2 ^ (21 * i) mod 2 ^ 21) [0..<n])"
    by (auto simp: list_all2_conv_all_nth in_iv_def zmod_le_nonneg_dividend intro: zle_diff1_eq [THEN iffD2, OF pos_mod_bound, simplified])
  ultimately show ?thesis by (simp add: fits_def digits_def list_all2_appendI)
qed

lemma length_digits: "length (digits n v) = Suc n"
  by (simp add: digits_def)

lemma sc_load_value:
  assumes "length s = 32"
  shows "sc_val (sc_load s) = le_val s" "length (sc_load s) = 12"
    "fits (replicate 11 (0, 2 ^ 21 - 1) @ [(0, 2 ^ 25 - 1)]) (sc_load s)"
proof -
  have "le_val s < 2 ^ (21 * 11 + 25)" using le_val_less [of s] assms by simp
  then show "fits (replicate 11 (0, 2 ^ 21 - 1) @ [(0, 2 ^ 25 - 1)]) (sc_load s)"
    unfolding sc_load_digits [OF assms] by (rule fits_digits [OF le_val_nonneg])
qed (simp_all add: sc_load_digits [OF assms] sc_val_digits length_digits)

lemma sc_load64_value:
  assumes "length s = 64"
  shows "sc_val (sc_load64 s) = le_val s" "length (sc_load64 s) = 24"
    "fits (replicate 23 (0, 2 ^ 21 - 1) @ [(0, 2 ^ 29 - 1)]) (sc_load64 s)"
proof -
  have "le_val s < 2 ^ (21 * 23 + 29)" using le_val_less [of s] assms by simp
  then show "fits (replicate 23 (0, 2 ^ 21 - 1) @ [(0, 2 ^ 29 - 1)]) (sc_load64 s)"
    unfolding sc_load64_digits [OF assms] by (rule fits_digits [OF le_val_nonneg])
qed (simp_all add: sc_load64_digits [OF assms] sc_val_digits length_digits)

section \<open>The final reduction\<close>

definition tail_bounds :: "iv list" where
  "tail_bounds = replicate 12 (- (2 ^ 56), 2 ^ 56) @ [(0, 0)]"

definition final_bounds :: "iv list" where
  "final_bounds = replicate 12 (0, 2 ^ 21 - 1) @ [(- 1, 0)]"

definition bnd_rounds :: "iv list \<Rightarrow> iv list option" where
  "bnd_rounds B = Option.bind (run_bnd bnd_round [0, 2, 4, 6, 8, 10] B) (run_bnd bnd_round [1, 3, 5, 7, 9, 11])"

definition bnd_floors :: "iv list \<Rightarrow> iv list option" where
  "bnd_floors B = Option.bind (bnd_fold 12 B)
     (\<lambda>B. run_bnd bnd_floor [0, 1, 2, 3, 4, 5, 6, 7, 8, 9, 10, 11] (B[12 := (0, 0)]))"

definition bnd_last :: "iv list \<Rightarrow> iv list option" where
  "bnd_last B = Option.bind (bnd_fold 12 B) (run_bnd bnd_floor [0, 1, 2, 3, 4, 5, 6, 7, 8, 9, 10])"

text \<open>
  The interval analysis of the last phase: no statement can overflow, and the second pass of
  carries leaves $-1$ or $0$ in \<^verbatim>\<open>s12\<close>.
\<close>

lemma tail_analysis: "Option.bind (bnd_rounds tail_bounds) bnd_floors = Some final_bounds"
  by code_simp

lemma last_analysis: "bnd_last final_bounds = Some (replicate 11 (0, 2 ^ 21 - 1) @ [(- 1, 2 ^ 21), (- 1, 0)])"
  by code_simp

lemma fits_take: "fits B s \<Longrightarrow> fits (take n B) (take n s)"
  by (auto simp: fits_def intro: list_all2_takeI)

lemma sc_val_range:
  "fits (replicate n (0, 2 ^ 21 - 1)) s \<Longrightarrow> 0 \<le> sc_val s \<and> sc_val s < 2 ^ (21 * n)"
proof (induction n arbitrary: s)
  case (Suc n)
  then obtain d t where s: "s = d # t" "fits (replicate n (0, 2 ^ 21 - 1)) t" "in_iv (0, 2 ^ 21 - 1) d"
    by (auto simp: fits_def list_all2_Cons1)
  have v: "sc_val s = d + 2 ^ 21 * sc_val t" by (simp add: s(1) sc_val_def)
  have "0 \<le> sc_val t" "sc_val t + 1 \<le> 2 ^ (21 * n)" using Suc.IH [OF s(2)] by simp_all
  then have "0 \<le> sc_val t" "2 ^ 21 * (sc_val t + 1) \<le> 2 ^ 21 * 2 ^ (21 * n)" by simp_all
  moreover have "(2::int) ^ (21 * Suc n) = 2 ^ 21 * 2 ^ (21 * n)" by (simp add: power_add)
  ultimately show ?case using s(3) v by (simp add: in_iv_def)
qed (simp add: fits_def sc_val_def)

lemma sc_val_zero_top: "length s = Suc n \<Longrightarrow> sc_val (s[n := 0]) = sc_val (take n s)"
  using sc_val_take_Suc [of n "s[n := 0]"] by simp

lemma rounds_value:
  assumes "bnd_rounds B = Some B'" "fits B s" "length s = 13"
  defines "s' \<equiv> each carry_round [1, 3, 5, 7, 9, 11] (each carry_round [0, 2, 4, 6, 8, 10] s)"
  shows "fits B' s'" "sc_val s' = sc_val s"
proof -
  obtain B1 where b: "run_bnd bnd_round [0, 2, 4, 6, 8, 10] B = Some B1"
    "run_bnd bnd_round [1, 3, 5, 7, 9, 11] B1 = Some B'"
    using assms(1) by (auto simp: bnd_rounds_def bind_eq_Some_conv)
  note f = rounds.run_fits [OF b(1) assms(2)]
  show "fits B' s'" using rounds.run_fits [OF b(2) f] by (simp add: s'_def)
  show "sc_val s' = sc_val s"
    using rounds.run_val [OF b(1) assms(2), of 13] rounds.run_val [OF b(2) f, of 13] assms(3)
    by (simp add: s'_def)
qed

lemma floors_value:
  assumes "bnd_floors B = Some B'" "fits B s" "length s = 13"
  defines "s' \<equiv> each carry_floor [0, 1, 2, 3, 4, 5, 6, 7, 8, 9, 10, 11] ((sc_fold 12 s)[12 := 0])"
  shows "fits B' s'" "sc_val s' mod sc_l = sc_val s mod sc_l"
proof -
  obtain B1 where b: "bnd_fold 12 B = Some B1"
    "run_bnd bnd_floor [0, 1, 2, 3, 4, 5, 6, 7, 8, 9, 10, 11] (B1[12 := (0, 0)]) = Some B'"
    using assms(1) by (auto simp: bnd_floors_def bind_eq_Some_conv)
  have f: "fits (B1[12 := (0, 0)]) ((sc_fold 12 s)[12 := 0])"
    by (intro fits_update sc_fold_sound [OF b(1) assms(2)]) (simp add: in_iv_def)
  show "fits B' s'" using floors.run_fits [OF b(2) f] by (simp add: s'_def)
  have "sc_val s' = sc_val ((sc_fold 12 s)[12 := 0])"
    using floors.run_val [OF b(2) f, of 13] assms(3) by (simp add: s'_def)
  also have "\<dots> = sc_val (take 12 (sc_fold 12 s))"
    using assms(3) by (intro sc_val_zero_top) simp
  finally show "sc_val s' mod sc_l = sc_val s mod sc_l"
    using sc_fold_mod [OF b(1) assms(2)] assms(3) by simp
qed

lemma last_value:
  assumes "bnd_last B = Some B'" "fits B s" "length s = 13"
  defines "s' \<equiv> each carry_floor [0, 1, 2, 3, 4, 5, 6, 7, 8, 9, 10] (sc_fold 12 s)"
  shows "fits B' s'" "sc_val (take 12 s') = sc_val (take 12 s) + s ! 12 * (2 ^ 252 - sc_l)"
proof -
  obtain B1 where b: "bnd_fold 12 B = Some B1"
    "run_bnd bnd_floor [0, 1, 2, 3, 4, 5, 6, 7, 8, 9, 10] B1 = Some B'"
    using assms(1) by (auto simp: bnd_last_def bind_eq_Some_conv)
  note f = sc_fold_sound [OF b(1) assms(2)]
  show "fits B' s'" using floors.run_fits [OF b(2) f(1)] by (simp add: s'_def)
  show "sc_val (take 12 s') = sc_val (take 12 s) + s ! 12 * (2 ^ 252 - sc_l)"
    using floors.run_val [OF b(2) f(1), of 12] assms(3) f(2) by (simp add: s'_def)
qed

text \<open>
  The final reduction is canonical: before the last fold the limbs 0 to 11 are digits of a number
  $r < 2^{252}$ and limb 12 is $-1$ or $0$, so the folded value lies in $[0, \ell)$.
\<close>

lemma sc_tail_value:
  assumes "fits tail_bounds s"
  shows "fits (replicate 11 (0, 2 ^ 21 - 1) @ [(- 1, 2 ^ 21), (- 1, 0)]) (sc_tail s)"
    and "sc_val (take 12 (sc_tail s)) = sc_val s mod sc_l"
proof -
  have n: "length s = 13" using fits_length [OF assms] by (simp add: tail_bounds_def)
  obtain B where b: "bnd_rounds tail_bounds = Some B" "bnd_floors B = Some final_bounds"
    using tail_analysis by (auto simp: bind_eq_Some_conv)
  define s1 where "s1 = each carry_round [1, 3, 5, 7, 9, 11] (each carry_round [0, 2, 4, 6, 8, 10] s)"
  define s2 where "s2 = each carry_floor [0, 1, 2, 3, 4, 5, 6, 7, 8, 9, 10, 11] ((sc_fold 12 s1)[12 := 0])"
  note r = rounds_value [OF b(1) assms n, folded s1_def]
  have n1: "length s1 = 13" by (simp add: s1_def n)
  note f = floors_value [OF b(2) r(1) n1, folded s2_def]
  have n2: "length s2 = 13" by (simp add: s2_def n1)
  have t: "sc_tail s = each carry_floor [0, 1, 2, 3, 4, 5, 6, 7, 8, 9, 10] (sc_fold 12 s2)"
    by (simp only: sc_tail_def Let_def s1_def s2_def)
  note l = last_value [OF last_analysis f(1) n2, folded t]
  show "fits (replicate 11 (0, 2 ^ 21 - 1) @ [(- 1, 2 ^ 21), (- 1, 0)]) (sc_tail s)" by (rule l(1))
  have "fits (replicate 12 (0, 2 ^ 21 - 1)) (take 12 s2)"
    using fits_take [OF f(1), of 12] by (simp only: final_bounds_def) simp
  then have v: "0 \<le> sc_val (take 12 s2)" "sc_val (take 12 s2) < 2 ^ 252" using sc_val_range [of 12] by auto
  have "s2 ! 12 = - 1 \<or> s2 ! 12 = 0"
    using fits_nth [OF f(1), of 12] n2 by (auto simp: final_bounds_def in_iv_def nth_append)
  moreover have "sc_val s2 = sc_val (take 12 s2) + s2 ! 12 * 2 ^ 252"
    using sc_val_take_Suc [of 12 s2] n2 by simp
  ultimately have "0 \<le> sc_val (take 12 (sc_tail s)) \<and> sc_val (take 12 (sc_tail s)) < sc_l \<and>
      sc_val (take 12 (sc_tail s)) = sc_val s2 + sc_l * (- (s2 ! 12))"
    unfolding l(2) using v by (auto simp: sc_l_def)
  moreover have "(sc_val s2 + sc_l * (- (s2 ! 12))) mod sc_l = sc_val s mod sc_l"
    using f(2) r(2) by (simp only: mod_mult_self2)
  ultimately show "sc_val (take 12 (sc_tail s)) = sc_val s mod sc_l" by (metis mod_pos_pos_trivial)
qed

section \<open>The first phases\<close>

text \<open>
  Products and loads leave 24 limbs within these bounds; the analysis of the head then ends
  within \<^const>\<open>tail_bounds\<close>.
\<close>

definition wide_bounds :: "iv list" where
  "wide_bounds = replicate 23 (- (2 ^ 54), 2 ^ 54) @ [(0, 0)]"

definition head_bounds :: "iv list" where
  "head_bounds = replicate 23 (- (2 ^ 34), 2 ^ 34) @ [(- (2 ^ 34), 2 ^ 34)]"

definition bnd_wide :: "iv list \<Rightarrow> iv list option" where
  "bnd_wide B = Option.bind (run_bnd bnd_round [0, 2, 4, 6, 8, 10, 12, 14, 16, 18, 20, 22] B)
     (run_bnd bnd_round [1, 3, 5, 7, 9, 11, 13, 15, 17, 19, 21])"

definition bnd_head :: "iv list \<Rightarrow> iv list option" where
  "bnd_head B =
     Option.bind (run_bnd bnd_fold [23, 22, 21, 20, 19, 18] B) (\<lambda>B.
     Option.bind (run_bnd bnd_round [6, 8, 10, 12, 14, 16] B) (\<lambda>B.
     Option.bind (run_bnd bnd_round [7, 9, 11, 13, 15] B)
       (run_bnd bnd_fold [17, 16, 15, 14, 13, 12])))"

definition iv_le :: "iv \<Rightarrow> iv \<Rightarrow> bool" where
  "iv_le a b \<longleftrightarrow> fst b \<le> fst a \<and> snd a \<le> snd b"

definition bnd_le :: "iv list \<Rightarrow> iv list \<Rightarrow> bool" where
  "bnd_le A B \<longleftrightarrow> list_all2 iv_le A B"

lemma wide_analysis: "case bnd_wide wide_bounds of Some B \<Rightarrow> bnd_le B head_bounds | None \<Rightarrow> False"
  by code_simp

lemma head_analysis: "case bnd_head head_bounds of Some B \<Rightarrow> bnd_le (take 12 B) (replicate 12 (- (2 ^ 56), 2 ^ 56)) | None \<Rightarrow> False"
  by code_simp

lemma fits_le: "fits A s \<Longrightarrow> bnd_le A B \<Longrightarrow> fits B s"
  by (force simp: fits_def bnd_le_def list_all2_conv_all_nth in_iv_def iv_le_def)

lemma sc_wide_value:
  assumes "fits wide_bounds s"
  shows "fits head_bounds (sc_wide s)" "sc_val (sc_wide s) = sc_val s"
proof -
  have n: "length s = 24" using fits_length [OF assms] by (simp add: wide_bounds_def)
  obtain B B' where b: "run_bnd bnd_round [0, 2, 4, 6, 8, 10, 12, 14, 16, 18, 20, 22] wide_bounds = Some B"
    "run_bnd bnd_round [1, 3, 5, 7, 9, 11, 13, 15, 17, 19, 21] B = Some B'" "bnd_le B' head_bounds"
    using wide_analysis by (auto simp: bnd_wide_def bind_eq_Some_conv split: option.splits)
  note f = rounds.run_fits [OF b(1) assms]
  show "fits head_bounds (sc_wide s)"
    unfolding sc_wide_def by (rule fits_le [OF rounds.run_fits [OF b(2) f] b(3)])
  show "sc_val (sc_wide s) = sc_val s"
    using rounds.run_val [OF b(1) assms, of 24] rounds.run_val [OF b(2) f, of 24] n
    by (simp add: sc_wide_def)
qed

lemma sc_head_value:
  assumes "fits head_bounds s"
  shows "fits tail_bounds (sc_head s)" "sc_val (sc_head s) mod sc_l = sc_val s mod sc_l"
proof -
  have n: "length s = 24" using fits_length [OF assms] by (simp add: head_bounds_def)
  have u: "rev [18..<24] = [23, 22, 21, 20, 19, 18]" "rev [12..<18] = [17, 16, 15, 14, 13, 12]" by code_simp+
  obtain B1 B2 B3 B4 where b: "run_bnd bnd_fold (rev [18..<24]) head_bounds = Some B1"
    "run_bnd bnd_round [6, 8, 10, 12, 14, 16] B1 = Some B2" "run_bnd bnd_round [7, 9, 11, 13, 15] B2 = Some B3"
    "run_bnd bnd_fold (rev [12..<18]) B3 = Some B4" "bnd_le (take 12 B4) (replicate 12 (- (2 ^ 56), 2 ^ 56))"
    using head_analysis unfolding u by (auto simp: bnd_head_def bind_eq_Some_conv split: option.splits)
  define s1 where "s1 = each sc_fold (rev [18..<24]) s"
  define s2 where "s2 = each carry_round [6, 8, 10, 12, 14, 16] s1"
  define s3 where "s3 = each carry_round [7, 9, 11, 13, 15] s2"
  define s4 where "s4 = each sc_fold (rev [12..<18]) s3"
  have f1: "fits B1 s1" unfolding s1_def by (rule folds.run_fits [OF b(1) assms])
  have f2: "fits B2 s2" unfolding s2_def by (rule rounds.run_fits [OF b(2) f1])
  have f3: "fits B3 s3" unfolding s3_def by (rule rounds.run_fits [OF b(3) f2])
  have f4: "fits B4 s4" unfolding s4_def by (rule folds.run_fits [OF b(4) f3])
  have m: "length s1 = 24" "length s2 = 24" "length s3 = 24" "length s4 = 24"
    by (simp_all add: s1_def s2_def s3_def s4_def n)
  have "sc_head s = (take 13 s4)[12 := 0]"
    by (simp only: sc_head_def Let_def s1_def s2_def s3_def s4_def u)
  also have "\<dots> = take 12 s4 @ [0]"
    using m(4) take_Suc_conv_app_nth [of 12 s4] by (simp add: list_update_append)
  finally have h: "sc_head s = take 12 s4 @ [0]" .
  have "fits (replicate 12 (- (2 ^ 56), 2 ^ 56)) (take 12 s4)" by (rule fits_le [OF fits_take [OF f4] b(5)])
  then show "fits tail_bounds (sc_head s)"
    unfolding h tail_bounds_def fits_def by (rule list_all2_appendI) (simp add: in_iv_def)
  have "sc_val (take 18 s3) = sc_val (take 18 s1)"
    using rounds.run_val [OF b(2) f1, of 18] rounds.run_val [OF b(3) f2, of 18] m by (simp add: s2_def s3_def)
  then have "sc_val (take 12 s4) mod sc_l = sc_val s mod sc_l"
    using folds.run_mod [OF b(1) assms] folds.run_mod [OF b(4) f3] n by (simp add: s1_def s4_def)
  then show "sc_val (sc_head s) mod sc_l = sc_val s mod sc_l"
    by (simp add: h sc_val_def horner_sum_append)
qed

section \<open>Stores\<close>

lemma sc_val_mixed: "sc_val s = mixed (replicate (length s) 21) s"
  by (induction s) (simp_all add: sc_val_def)

lemma sc_store_digits:
  assumes d: "fits (replicate 11 (0, 2 ^ 21 - 1)) (take 11 s)" and l: "length s = 12"
  shows "sc_store s = le_bytes 32 (sc_val s)"
proof -
  define ws :: "nat list" where "ws = replicate 12 21"
  have w: "ws ! k = 21" "sum_list (take k ws) = 21 * k" if "k < 12" for k
    using that by (simp_all add: ws_def sum_list_replicate)
  have b: "digits_below k ws s" if "k \<le> 11" for k
  proof -
    have "0 \<le> s ! j \<and> s ! j < 2 ^ 21" if "j < 11" for j
      using fits_nth [OF d, of j] l that by (simp add: in_iv_def)
    then show ?thesis using l that by (simp add: digits_below_def ws_def)
  qed
  have low: "word_of_int (sc_val s div 2 ^ n) = (word_of_int (s ! k div 2 ^ a) :: byte)"
    if "n = 21 * k + a" "k < 11 \<and> a + 8 \<le> 21 \<or> k = 11" for n k a
    using that pack_low [OF b, of k a] pack_top [OF b, of 11 a] l w [of k]
    by (auto simp add: sc_val_mixed ws_def)
  have cross: "word_of_int (sc_val s div 2 ^ n) = (word_of_int (s ! k div 2 ^ a OR s ! k' * 2 ^ c) :: byte)"
    if "n = 21 * k + a" "k' = Suc k" "k < 11" "13 < a" "a \<le> 21 \<and> c = 21 - a" for n k k' a c
    using that pack_cross [OF b, of k a] l w [of k] w [of "Suc k"] by (auto simp add: sc_val_mixed ws_def)
  show ?thesis
    unfolding bytes_at upt32 sc_store_def list.map
    by (intro Cons_cong2 refl; ((rule low [symmetric], simp, simp) | (rule cross [symmetric], simp, simp, simp, simp, simp)))
qed

lemma sc_store_take: "sc_store s = sc_store (take 12 s)"
  by (simp add: sc_store_def)

text \<open>What the common second half of every scalar operation computes.\<close>

lemma sc_finish:
  assumes "fits tail_bounds s"
  shows "sc_store (sc_tail s) = le_bytes 32 (sc_val s mod sc_l)"
proof -
  note t = sc_tail_value [OF assms]
  have "length (sc_tail s) = 13" using fits_length [OF t(1)] by simp
  moreover have "fits (replicate 11 (0, 2 ^ 21 - 1)) (take 11 (take 12 (sc_tail s)))"
    using fits_take [OF t(1), of 11] by simp
  ultimately have "sc_store (take 12 (sc_tail s)) = le_bytes 32 (sc_val (take 12 (sc_tail s)))"
    by (intro sc_store_digits) simp_all
  then show ?thesis by (simp only: sc_store_take [of "sc_tail s"] t(2))
qed

lemma sc_finish_head:
  assumes "fits head_bounds s"
  shows "sc_store (sc_tail (sc_head s)) = le_bytes 32 (sc_val s mod sc_l)"
  using sc_finish [OF sc_head_value(1) [OF assms]] sc_head_value(2) [OF assms] by simp

lemma sc_finish_wide:
  assumes "fits wide_bounds s"
  shows "sc_store (sc_tail (sc_head (sc_wide s))) = le_bytes 32 (sc_val s mod sc_l)"
  using sc_finish_head [OF sc_wide_value(1) [OF assms]] sc_wide_value(2) [OF assms] by simp

end
