(* ===== verification/Sc_Ops.thy ===== *)
theory Sc_Ops
  imports Sc_Reduce
begin

text \<open>
  The scalar operations of \<^verbatim>\<open>src/src/crypto/crypto-ops.c\<close> on 32- and 64-byte strings, their values, the
  checks \<^verbatim>\<open>sc_check\<close> and \<^verbatim>\<open>sc_isnonzero\<close>, and the ring they form (locale \<open>scalar_ring\<close>).
\<close>

section \<open>The operations\<close>

definition sc_0 :: bytes where
  "sc_0 = replicate 32 0"

definition sc_reduce :: "bytes \<Rightarrow> bytes" where
  "sc_reduce s = sc_store (sc_tail (sc_head (sc_load64 s)))"

definition sc_reduce32 :: "bytes \<Rightarrow> bytes" where
  "sc_reduce32 s = sc_store (sc_tail (sc_load s @ [0]))"

text \<open>\<^verbatim>\<open>sc_reduce32copy\<close> of \<^verbatim>\<open>src/src/ringct/rctCryptoOps.c\<close>, which writes to another buffer.\<close>

definition sc_reduce32copy :: "bytes \<Rightarrow> bytes" where
  "sc_reduce32copy s = sc_store (sc_tail (sc_load s @ [0]))"

definition sc_add :: "bytes \<Rightarrow> bytes \<Rightarrow> bytes" where
  "sc_add a b = sc_store (sc_tail (map2 (\<lambda>a b. i64 (a + b)) (sc_load a) (sc_load b) @ [0]))"

definition sc_sub :: "bytes \<Rightarrow> bytes \<Rightarrow> bytes" where
  "sc_sub a b = sc_store (sc_tail (map2 (\<lambda>a b. i64 (a - b)) (sc_load a) (sc_load b) @ [0]))"

text \<open>
  The 23 right-hand sides \<^verbatim>\<open>s0\<close> to \<^verbatim>\<open>s22\<close> of a multiplication; each is converted to \<^verbatim>\<open>int64_t\<close> when it is
  assigned, and \<^verbatim>\<open>s23\<close> starts at 0.  One conversion of the whole sum is the same as a conversion
  after every operation, since wrapping respects sums and products.
\<close>

definition sc_mul_sums :: "limbs \<Rightarrow> limbs \<Rightarrow> limbs" where
  "sc_mul_sums a b =
    (let a0 = a ! 0; a1 = a ! 1; a2 = a ! 2; a3 = a ! 3; a4 = a ! 4; a5 = a ! 5;
         a6 = a ! 6; a7 = a ! 7; a8 = a ! 8; a9 = a ! 9; a10 = a ! 10; a11 = a ! 11;
         b0 = b ! 0; b1 = b ! 1; b2 = b ! 2; b3 = b ! 3; b4 = b ! 4; b5 = b ! 5;
         b6 = b ! 6; b7 = b ! 7; b8 = b ! 8; b9 = b ! 9; b10 = b ! 10; b11 = b ! 11
     in [a0 * b0,
       (a0 * b1 + a1 * b0),
       (a0 * b2 + a1 * b1 + a2 * b0),
       (a0 * b3 + a1 * b2 + a2 * b1 + a3 * b0),
       (a0 * b4 + a1 * b3 + a2 * b2 + a3 * b1 + a4 * b0),
       (a0 * b5 + a1 * b4 + a2 * b3 + a3 * b2 + a4 * b1 + a5 * b0),
       (a0 * b6 + a1 * b5 + a2 * b4 + a3 * b3 + a4 * b2 + a5 * b1 + a6 * b0),
       (a0 * b7 + a1 * b6 + a2 * b5 + a3 * b4 + a4 * b3 + a5 * b2 + a6 * b1 + a7 * b0),
       (a0 * b8 + a1 * b7 + a2 * b6 + a3 * b5 + a4 * b4 + a5 * b3 + a6 * b2 + a7 * b1
        + a8 * b0),
       (a0 * b9 + a1 * b8 + a2 * b7 + a3 * b6 + a4 * b5 + a5 * b4 + a6 * b3 + a7 * b2 + a8 * b1
        + a9 * b0),
       (a0 * b10 + a1 * b9 + a2 * b8 + a3 * b7 + a4 * b6 + a5 * b5 + a6 * b4 + a7 * b3
        + a8 * b2 + a9 * b1 + a10 * b0),
       (a0 * b11 + a1 * b10 + a2 * b9 + a3 * b8 + a4 * b7 + a5 * b6 + a6 * b5 + a7 * b4
        + a8 * b3 + a9 * b2 + a10 * b1 + a11 * b0),
       (a1 * b11 + a2 * b10 + a3 * b9 + a4 * b8 + a5 * b7 + a6 * b6 + a7 * b5 + a8 * b4
        + a9 * b3 + a10 * b2 + a11 * b1),
       (a2 * b11 + a3 * b10 + a4 * b9 + a5 * b8 + a6 * b7 + a7 * b6 + a8 * b5 + a9 * b4
        + a10 * b3 + a11 * b2),
       (a3 * b11 + a4 * b10 + a5 * b9 + a6 * b8 + a7 * b7 + a8 * b6 + a9 * b5 + a10 * b4
        + a11 * b3),
       (a4 * b11 + a5 * b10 + a6 * b9 + a7 * b8 + a8 * b7 + a9 * b6 + a10 * b5 + a11 * b4),
       (a5 * b11 + a6 * b10 + a7 * b9 + a8 * b8 + a9 * b7 + a10 * b6 + a11 * b5),
       (a6 * b11 + a7 * b10 + a8 * b9 + a9 * b8 + a10 * b7 + a11 * b6),
       (a7 * b11 + a8 * b10 + a9 * b9 + a10 * b8 + a11 * b7),
       (a8 * b11 + a9 * b10 + a10 * b9 + a11 * b8),
       (a9 * b11 + a10 * b10 + a11 * b9),
       (a10 * b11 + a11 * b10),
       a11 * b11])"

definition sc_mul_limbs :: "limbs \<Rightarrow> limbs \<Rightarrow> limbs" where
  "sc_mul_limbs a b = map i64 (sc_mul_sums a b) @ [0]"

definition sc_muladd_sums :: "limbs \<Rightarrow> limbs \<Rightarrow> limbs \<Rightarrow> limbs" where
  "sc_muladd_sums a b c =
    (let a0 = a ! 0; a1 = a ! 1; a2 = a ! 2; a3 = a ! 3; a4 = a ! 4; a5 = a ! 5;
         a6 = a ! 6; a7 = a ! 7; a8 = a ! 8; a9 = a ! 9; a10 = a ! 10; a11 = a ! 11;
         b0 = b ! 0; b1 = b ! 1; b2 = b ! 2; b3 = b ! 3; b4 = b ! 4; b5 = b ! 5;
         b6 = b ! 6; b7 = b ! 7; b8 = b ! 8; b9 = b ! 9; b10 = b ! 10; b11 = b ! 11;
         c0 = c ! 0; c1 = c ! 1; c2 = c ! 2; c3 = c ! 3; c4 = c ! 4; c5 = c ! 5;
         c6 = c ! 6; c7 = c ! 7; c8 = c ! 8; c9 = c ! 9; c10 = c ! 10; c11 = c ! 11
     in [c0 + a0 * b0,
       c1 + (a0 * b1 + a1 * b0),
       c2 + (a0 * b2 + a1 * b1 + a2 * b0),
       c3 + (a0 * b3 + a1 * b2 + a2 * b1 + a3 * b0),
       c4 + (a0 * b4 + a1 * b3 + a2 * b2 + a3 * b1 + a4 * b0),
       c5 + (a0 * b5 + a1 * b4 + a2 * b3 + a3 * b2 + a4 * b1 + a5 * b0),
       c6 + (a0 * b6 + a1 * b5 + a2 * b4 + a3 * b3 + a4 * b2 + a5 * b1 + a6 * b0),
       c7 + (a0 * b7 + a1 * b6 + a2 * b5 + a3 * b4 + a4 * b3 + a5 * b2 + a6 * b1 + a7 * b0),
       c8 + (a0 * b8 + a1 * b7 + a2 * b6 + a3 * b5 + a4 * b4 + a5 * b3 + a6 * b2 + a7 * b1
        + a8 * b0),
       c9 + (a0 * b9 + a1 * b8 + a2 * b7 + a3 * b6 + a4 * b5 + a5 * b4 + a6 * b3 + a7 * b2
        + a8 * b1 + a9 * b0),
       c10 + (a0 * b10 + a1 * b9 + a2 * b8 + a3 * b7 + a4 * b6 + a5 * b5 + a6 * b4 + a7 * b3
        + a8 * b2 + a9 * b1 + a10 * b0),
       c11 + (a0 * b11 + a1 * b10 + a2 * b9 + a3 * b8 + a4 * b7 + a5 * b6 + a6 * b5 + a7 * b4
        + a8 * b3 + a9 * b2 + a10 * b1 + a11 * b0),
       (a1 * b11 + a2 * b10 + a3 * b9 + a4 * b8 + a5 * b7 + a6 * b6 + a7 * b5 + a8 * b4
        + a9 * b3 + a10 * b2 + a11 * b1),
       (a2 * b11 + a3 * b10 + a4 * b9 + a5 * b8 + a6 * b7 + a7 * b6 + a8 * b5 + a9 * b4
        + a10 * b3 + a11 * b2),
       (a3 * b11 + a4 * b10 + a5 * b9 + a6 * b8 + a7 * b7 + a8 * b6 + a9 * b5 + a10 * b4
        + a11 * b3),
       (a4 * b11 + a5 * b10 + a6 * b9 + a7 * b8 + a8 * b7 + a9 * b6 + a10 * b5 + a11 * b4),
       (a5 * b11 + a6 * b10 + a7 * b9 + a8 * b8 + a9 * b7 + a10 * b6 + a11 * b5),
       (a6 * b11 + a7 * b10 + a8 * b9 + a9 * b8 + a10 * b7 + a11 * b6),
       (a7 * b11 + a8 * b10 + a9 * b9 + a10 * b8 + a11 * b7),
       (a8 * b11 + a9 * b10 + a10 * b9 + a11 * b8),
       (a9 * b11 + a10 * b10 + a11 * b9),
       (a10 * b11 + a11 * b10),
       a11 * b11])"

definition sc_muladd_limbs :: "limbs \<Rightarrow> limbs \<Rightarrow> limbs \<Rightarrow> limbs" where
  "sc_muladd_limbs a b c = map i64 (sc_muladd_sums a b c) @ [0]"

definition sc_mulsub_sums :: "limbs \<Rightarrow> limbs \<Rightarrow> limbs \<Rightarrow> limbs" where
  "sc_mulsub_sums a b c =
    (let a0 = a ! 0; a1 = a ! 1; a2 = a ! 2; a3 = a ! 3; a4 = a ! 4; a5 = a ! 5;
         a6 = a ! 6; a7 = a ! 7; a8 = a ! 8; a9 = a ! 9; a10 = a ! 10; a11 = a ! 11;
         b0 = b ! 0; b1 = b ! 1; b2 = b ! 2; b3 = b ! 3; b4 = b ! 4; b5 = b ! 5;
         b6 = b ! 6; b7 = b ! 7; b8 = b ! 8; b9 = b ! 9; b10 = b ! 10; b11 = b ! 11;
         c0 = c ! 0; c1 = c ! 1; c2 = c ! 2; c3 = c ! 3; c4 = c ! 4; c5 = c ! 5;
         c6 = c ! 6; c7 = c ! 7; c8 = c ! 8; c9 = c ! 9; c10 = c ! 10; c11 = c ! 11
     in [c0 - a0 * b0,
       c1 - (a0 * b1 + a1 * b0),
       c2 - (a0 * b2 + a1 * b1 + a2 * b0),
       c3 - (a0 * b3 + a1 * b2 + a2 * b1 + a3 * b0),
       c4 - (a0 * b4 + a1 * b3 + a2 * b2 + a3 * b1 + a4 * b0),
       c5 - (a0 * b5 + a1 * b4 + a2 * b3 + a3 * b2 + a4 * b1 + a5 * b0),
       c6 - (a0 * b6 + a1 * b5 + a2 * b4 + a3 * b3 + a4 * b2 + a5 * b1 + a6 * b0),
       c7 - (a0 * b7 + a1 * b6 + a2 * b5 + a3 * b4 + a4 * b3 + a5 * b2 + a6 * b1 + a7 * b0),
       c8 - (a0 * b8 + a1 * b7 + a2 * b6 + a3 * b5 + a4 * b4 + a5 * b3 + a6 * b2 + a7 * b1
        + a8 * b0),
       c9 - (a0 * b9 + a1 * b8 + a2 * b7 + a3 * b6 + a4 * b5 + a5 * b4 + a6 * b3 + a7 * b2
        + a8 * b1 + a9 * b0),
       c10 - (a0 * b10 + a1 * b9 + a2 * b8 + a3 * b7 + a4 * b6 + a5 * b5 + a6 * b4 + a7 * b3
        + a8 * b2 + a9 * b1 + a10 * b0),
       c11 - (a0 * b11 + a1 * b10 + a2 * b9 + a3 * b8 + a4 * b7 + a5 * b6 + a6 * b5 + a7 * b4
        + a8 * b3 + a9 * b2 + a10 * b1 + a11 * b0),
       - (a1 * b11 + a2 * b10 + a3 * b9 + a4 * b8 + a5 * b7 + a6 * b6 + a7 * b5 + a8 * b4
        + a9 * b3 + a10 * b2 + a11 * b1),
       - (a2 * b11 + a3 * b10 + a4 * b9 + a5 * b8 + a6 * b7 + a7 * b6 + a8 * b5 + a9 * b4
        + a10 * b3 + a11 * b2),
       - (a3 * b11 + a4 * b10 + a5 * b9 + a6 * b8 + a7 * b7 + a8 * b6 + a9 * b5 + a10 * b4
        + a11 * b3),
       - (a4 * b11 + a5 * b10 + a6 * b9 + a7 * b8 + a8 * b7 + a9 * b6 + a10 * b5 + a11 * b4),
       - (a5 * b11 + a6 * b10 + a7 * b9 + a8 * b8 + a9 * b7 + a10 * b6 + a11 * b5),
       - (a6 * b11 + a7 * b10 + a8 * b9 + a9 * b8 + a10 * b7 + a11 * b6),
       - (a7 * b11 + a8 * b10 + a9 * b9 + a10 * b8 + a11 * b7),
       - (a8 * b11 + a9 * b10 + a10 * b9 + a11 * b8),
       - (a9 * b11 + a10 * b10 + a11 * b9),
       - (a10 * b11 + a11 * b10),
       - a11 * b11])"

definition sc_mulsub_limbs :: "limbs \<Rightarrow> limbs \<Rightarrow> limbs \<Rightarrow> limbs" where
  "sc_mulsub_limbs a b c = map i64 (sc_mulsub_sums a b c) @ [0]"

definition sc_mul :: "bytes \<Rightarrow> bytes \<Rightarrow> bytes" where
  "sc_mul a b = sc_store (sc_tail (sc_head (sc_wide (sc_mul_limbs (sc_load a) (sc_load b)))))"

definition sc_muladd :: "bytes \<Rightarrow> bytes \<Rightarrow> bytes \<Rightarrow> bytes" where
  "sc_muladd a b c =
     sc_store (sc_tail (sc_head (sc_wide (sc_muladd_limbs (sc_load a) (sc_load b) (sc_load c)))))"

definition sc_mulsub :: "bytes \<Rightarrow> bytes \<Rightarrow> bytes \<Rightarrow> bytes" where
  "sc_mulsub a b c =
     sc_store (sc_tail (sc_head (sc_wide (sc_mulsub_limbs (sc_load a) (sc_load b) (sc_load c)))))"

definition signum :: "int \<Rightarrow> int" where
  "signum a = i64 (a div 2 ^ 63 - i64 (- a) div 2 ^ 63)"

definition sc_check :: "bytes \<Rightarrow> int" where
  "sc_check s =
    (let s0 = sint (load_4 s); s1 = sint (load_4 (drop 4 s)); s2 = sint (load_4 (drop 8 s));
         s3 = sint (load_4 (drop 12 s)); s4 = sint (load_4 (drop 16 s)); s5 = sint (load_4 (drop 20 s));
         s6 = sint (load_4 (drop 24 s)); s7 = sint (load_4 (drop 28 s))
     in i32 (i64 (signum (1559614444 - s0) + signum (1477600026 - s1) * 2 ^ 1 + signum (2734136534 - s2) * 2 ^ 2
          + signum (350157278 - s3) * 2 ^ 3 + signum (- s4) * 2 ^ 4 + signum (- s5) * 2 ^ 5
          + signum (- s6) * 2 ^ 6 + signum (268435456 - s7) * 2 ^ 7) div 2 ^ 8))"

definition sc_isnonzero :: "bytes \<Rightarrow> int" where
  "sc_isnonzero s = nonzero_bytes s"

section \<open>Values\<close>

lemma within_zero: "within 0 0"
  by (simp add: within_def)

lemma map_i64_exact: "list_all (within (2 ^ 54)) xs \<Longrightarrow> map i64 xs = xs"
  by (induction xs) (auto intro: i64_within)

lemma fits_within: "list_all (within k) xs \<Longrightarrow> fits (replicate (length xs) (- k, k)) xs"
  by (induction xs) (auto simp: fits_def within_def in_iv_def)

lemma list12:
  assumes "length s = 12"
  obtains s0 s1 s2 s3 s4 s5 s6 s7 s8 s9 s10 s11 where "s = [s0, s1, s2, s3, s4, s5, s6, s7, s8, s9, s10, s11]"
  using assms by (auto simp: numeral_eq_Suc length_Suc_conv)

lemma sc_load_within:
  assumes "length s = 32"
  shows "list_all (within (2 ^ 25)) (sc_load s)"
proof -
  have "in_iv ((replicate 11 (0, 2 ^ 21 - 1) @ [(0, 2 ^ 25 - 1)]) ! i) (sc_load s ! i)" if "i < 12" for i
    using fits_nth [OF sc_load_value(3) [OF assms]] sc_load_value(2) [OF assms] that by simp
  then have "within (2 ^ 25) (sc_load s ! i)" if "i < 12" for i
    using that by (cases "i < 11") (fastforce simp: in_iv_def within_def nth_append)+
  then show ?thesis by (simp add: list_all_length sc_load_value(2) [OF assms])
qed

lemma nth12:
  "[x0, x1, x2, x3, x4, x5, x6, x7, x8, x9, x10, x11] ! 0 = x0"
  "[x0, x1, x2, x3, x4, x5, x6, x7, x8, x9, x10, x11] ! 1 = x1"
  "[x0, x1, x2, x3, x4, x5, x6, x7, x8, x9, x10, x11] ! 2 = x2"
  "[x0, x1, x2, x3, x4, x5, x6, x7, x8, x9, x10, x11] ! 3 = x3"
  "[x0, x1, x2, x3, x4, x5, x6, x7, x8, x9, x10, x11] ! 4 = x4"
  "[x0, x1, x2, x3, x4, x5, x6, x7, x8, x9, x10, x11] ! 5 = x5"
  "[x0, x1, x2, x3, x4, x5, x6, x7, x8, x9, x10, x11] ! 6 = x6"
  "[x0, x1, x2, x3, x4, x5, x6, x7, x8, x9, x10, x11] ! 7 = x7"
  "[x0, x1, x2, x3, x4, x5, x6, x7, x8, x9, x10, x11] ! 8 = x8"
  "[x0, x1, x2, x3, x4, x5, x6, x7, x8, x9, x10, x11] ! 9 = x9"
  "[x0, x1, x2, x3, x4, x5, x6, x7, x8, x9, x10, x11] ! 10 = x10"
  "[x0, x1, x2, x3, x4, x5, x6, x7, x8, x9, x10, x11] ! 11 = x11"
  by simp_all

lemma sc_mul_sums_value:
  assumes "length a = 12" "length b = 12"
    and w: "list_all (within (2 ^ 25)) a" "list_all (within (2 ^ 25)) b"
  shows "length (sc_mul_sums a b) = 23" "list_all (within (2 ^ 54)) (sc_mul_sums a b)"
    "sc_val (sc_mul_sums a b) = sc_val a * sc_val b"
proof -
  obtain a0 a1 a2 a3 a4 a5 a6 a7 a8 a9 a10 a11 where a: "a = [a0, a1, a2, a3, a4, a5, a6, a7, a8, a9, a10, a11]"
    using list12 [OF assms(1)] .
  obtain b0 b1 b2 b3 b4 b5 b6 b7 b8 b9 b10 b11 where b: "b = [b0, b1, b2, b3, b4, b5, b6, b7, b8, b9, b10, b11]"
    using list12 [OF assms(2)] .
  show "length (sc_mul_sums a b) = 23" by (simp add: sc_mul_sums_def Let_def)
  have "horner_sum id B (sc_mul_sums a b) = horner_sum id B a * horner_sum id B b" for B :: int
    unfolding sc_mul_sums_def Let_def a b by (simp only: nth12 horner_sum_simps id_apply) algebra
  then show "sc_val (sc_mul_sums a b) = sc_val a * sc_val b" by (simp only: sc_val_def)
  show "list_all (within (2 ^ 54)) (sc_mul_sums a b)"
  proof -
    have f: "within (2 ^ 25) a0" "within (2 ^ 25) a1" "within (2 ^ 25) a2" "within (2 ^ 25) a3" "within (2 ^ 25) a4" "within (2 ^ 25) a5"
      "within (2 ^ 25) a6" "within (2 ^ 25) a7" "within (2 ^ 25) a8" "within (2 ^ 25) a9" "within (2 ^ 25) a10" "within (2 ^ 25) a11"
      "within (2 ^ 25) b0" "within (2 ^ 25) b1" "within (2 ^ 25) b2" "within (2 ^ 25) b3" "within (2 ^ 25) b4" "within (2 ^ 25) b5"
      "within (2 ^ 25) b6" "within (2 ^ 25) b7" "within (2 ^ 25) b8" "within (2 ^ 25) b9" "within (2 ^ 25) b10" "within (2 ^ 25) b11"
      using w by (simp_all add: a b)
    show ?thesis
      unfolding sc_mul_sums_def Let_def a b nth12 list.pred_inject(2)
      by (intro conjI list.pred_inject(1), (rule within_mono, (rule within_add within_diff within_uminus within_mult f)+, simp)+)
  qed
qed

lemma sc_muladd_sums_value:
  assumes "length a = 12" "length b = 12" "length c = 12"
    and w: "list_all (within (2 ^ 25)) a" "list_all (within (2 ^ 25)) b" "list_all (within (2 ^ 25)) c"
  shows "length (sc_muladd_sums a b c) = 23" "list_all (within (2 ^ 54)) (sc_muladd_sums a b c)"
    "sc_val (sc_muladd_sums a b c) = sc_val c + sc_val a * sc_val b"
proof -
  obtain a0 a1 a2 a3 a4 a5 a6 a7 a8 a9 a10 a11 where a: "a = [a0, a1, a2, a3, a4, a5, a6, a7, a8, a9, a10, a11]"
    using list12 [OF assms(1)] .
  obtain b0 b1 b2 b3 b4 b5 b6 b7 b8 b9 b10 b11 where b: "b = [b0, b1, b2, b3, b4, b5, b6, b7, b8, b9, b10, b11]"
    using list12 [OF assms(2)] .
  obtain c0 c1 c2 c3 c4 c5 c6 c7 c8 c9 c10 c11 where c: "c = [c0, c1, c2, c3, c4, c5, c6, c7, c8, c9, c10, c11]"
    using list12 [OF assms(3)] .
  show "length (sc_muladd_sums a b c) = 23" by (simp add: sc_muladd_sums_def Let_def)
  have "horner_sum id B (sc_muladd_sums a b c) = horner_sum id B c + horner_sum id B a * horner_sum id B b" for B :: int
    unfolding sc_muladd_sums_def Let_def a b c by (simp only: nth12 horner_sum_simps id_apply) algebra
  then show "sc_val (sc_muladd_sums a b c) = sc_val c + sc_val a * sc_val b" by (simp only: sc_val_def)
  show "list_all (within (2 ^ 54)) (sc_muladd_sums a b c)"
  proof -
    have f: "within (2 ^ 25) a0" "within (2 ^ 25) a1" "within (2 ^ 25) a2" "within (2 ^ 25) a3" "within (2 ^ 25) a4" "within (2 ^ 25) a5"
      "within (2 ^ 25) a6" "within (2 ^ 25) a7" "within (2 ^ 25) a8" "within (2 ^ 25) a9" "within (2 ^ 25) a10" "within (2 ^ 25) a11"
      "within (2 ^ 25) b0" "within (2 ^ 25) b1" "within (2 ^ 25) b2" "within (2 ^ 25) b3" "within (2 ^ 25) b4" "within (2 ^ 25) b5"
      "within (2 ^ 25) b6" "within (2 ^ 25) b7" "within (2 ^ 25) b8" "within (2 ^ 25) b9" "within (2 ^ 25) b10" "within (2 ^ 25) b11"
      "within (2 ^ 25) c0" "within (2 ^ 25) c1" "within (2 ^ 25) c2" "within (2 ^ 25) c3" "within (2 ^ 25) c4" "within (2 ^ 25) c5"
      "within (2 ^ 25) c6" "within (2 ^ 25) c7" "within (2 ^ 25) c8" "within (2 ^ 25) c9" "within (2 ^ 25) c10" "within (2 ^ 25) c11"
      using w by (simp_all add: a b c)
    show ?thesis
      unfolding sc_muladd_sums_def Let_def a b c nth12 list.pred_inject(2)
      by (intro conjI list.pred_inject(1), (rule within_mono, (rule within_add within_diff within_uminus within_mult f)+, simp)+)
  qed
qed

lemma sc_mulsub_sums_value:
  assumes "length a = 12" "length b = 12" "length c = 12"
    and w: "list_all (within (2 ^ 25)) a" "list_all (within (2 ^ 25)) b" "list_all (within (2 ^ 25)) c"
  shows "length (sc_mulsub_sums a b c) = 23" "list_all (within (2 ^ 54)) (sc_mulsub_sums a b c)"
    "sc_val (sc_mulsub_sums a b c) = sc_val c - sc_val a * sc_val b"
proof -
  obtain a0 a1 a2 a3 a4 a5 a6 a7 a8 a9 a10 a11 where a: "a = [a0, a1, a2, a3, a4, a5, a6, a7, a8, a9, a10, a11]"
    using list12 [OF assms(1)] .
  obtain b0 b1 b2 b3 b4 b5 b6 b7 b8 b9 b10 b11 where b: "b = [b0, b1, b2, b3, b4, b5, b6, b7, b8, b9, b10, b11]"
    using list12 [OF assms(2)] .
  obtain c0 c1 c2 c3 c4 c5 c6 c7 c8 c9 c10 c11 where c: "c = [c0, c1, c2, c3, c4, c5, c6, c7, c8, c9, c10, c11]"
    using list12 [OF assms(3)] .
  show "length (sc_mulsub_sums a b c) = 23" by (simp add: sc_mulsub_sums_def Let_def)
  have "horner_sum id B (sc_mulsub_sums a b c) = horner_sum id B c - horner_sum id B a * horner_sum id B b" for B :: int
    unfolding sc_mulsub_sums_def Let_def a b c by (simp only: nth12 horner_sum_simps id_apply) algebra
  then show "sc_val (sc_mulsub_sums a b c) = sc_val c - sc_val a * sc_val b" by (simp only: sc_val_def)
  show "list_all (within (2 ^ 54)) (sc_mulsub_sums a b c)"
  proof -
    have f: "within (2 ^ 25) a0" "within (2 ^ 25) a1" "within (2 ^ 25) a2" "within (2 ^ 25) a3" "within (2 ^ 25) a4" "within (2 ^ 25) a5"
      "within (2 ^ 25) a6" "within (2 ^ 25) a7" "within (2 ^ 25) a8" "within (2 ^ 25) a9" "within (2 ^ 25) a10" "within (2 ^ 25) a11"
      "within (2 ^ 25) b0" "within (2 ^ 25) b1" "within (2 ^ 25) b2" "within (2 ^ 25) b3" "within (2 ^ 25) b4" "within (2 ^ 25) b5"
      "within (2 ^ 25) b6" "within (2 ^ 25) b7" "within (2 ^ 25) b8" "within (2 ^ 25) b9" "within (2 ^ 25) b10" "within (2 ^ 25) b11"
      "within (2 ^ 25) c0" "within (2 ^ 25) c1" "within (2 ^ 25) c2" "within (2 ^ 25) c3" "within (2 ^ 25) c4" "within (2 ^ 25) c5"
      "within (2 ^ 25) c6" "within (2 ^ 25) c7" "within (2 ^ 25) c8" "within (2 ^ 25) c9" "within (2 ^ 25) c10" "within (2 ^ 25) c11"
      using w by (simp_all add: a b c)
    show ?thesis
      unfolding sc_mulsub_sums_def Let_def a b c nth12 list.pred_inject(2)
      by (intro conjI list.pred_inject(1), (rule within_mono, (rule within_add within_diff within_uminus within_mult f)+, simp)+)
  qed
qed

lemma fits_wide:
  assumes "length xs = 23" "list_all (within (2 ^ 54)) xs"
  shows "fits wide_bounds (map i64 xs @ [0])" "sc_val (map i64 xs @ [0]) = sc_val xs"
proof -
  have e: "map i64 xs = xs" by (rule map_i64_exact [OF assms(2)])
  show "fits wide_bounds (map i64 xs @ [0])"
    unfolding e wide_bounds_def fits_def
    using fits_within [OF assms(2)] assms(1) by (intro list_all2_appendI) (simp_all add: fits_def in_iv_def)
  show "sc_val (map i64 xs @ [0]) = sc_val xs" unfolding e by (simp add: sc_val_def horner_sum_append)
qed

lemma fits_tail:
  assumes "length xs = 12" "list_all (within (2 ^ 54)) xs"
  shows "fits tail_bounds (map i64 xs @ [0])" "sc_val (map i64 xs @ [0]) = sc_val xs"
proof -
  have e: "map i64 xs = xs" by (rule map_i64_exact [OF assms(2)])
  have "list_all (within (2 ^ 56)) xs" using assms(2) by (auto elim!: list.pred_mono_strong within_mono)
  then show "fits tail_bounds (map i64 xs @ [0])"
    unfolding e tail_bounds_def fits_def
    using fits_within [of "2 ^ 56" xs] assms(1) by (intro list_all2_appendI) (simp_all add: fits_def in_iv_def)
  show "sc_val (map i64 xs @ [0]) = sc_val xs" unfolding e by (simp add: sc_val_def horner_sum_append)
qed

lemma sc_reduce_value: "length s = 64 \<Longrightarrow> sc_reduce s = le_bytes 32 (le_val s mod sc_l)"
proof -
  assume l: "length s = 64"
  have "bnd_le (replicate 23 (0, 2 ^ 21 - 1) @ [(0, 2 ^ 29 - 1)]) head_bounds" by code_simp
  then have "fits head_bounds (sc_load64 s)" by (rule fits_le [OF sc_load64_value(3) [OF l]])
  then show ?thesis by (simp add: sc_reduce_def sc_finish_head sc_load64_value(1) [OF l])
qed

lemma sc_mul_value:
  assumes "length a = 32" "length b = 32"
  shows "sc_mul a b = le_bytes 32 (le_val a * le_val b mod sc_l)"
proof -
  note v = sc_mul_sums_value [OF sc_load_value(2) [OF assms(1)] sc_load_value(2) [OF assms(2)]
      sc_load_within [OF assms(1)] sc_load_within [OF assms(2)]]
  show ?thesis
    using sc_finish_wide [OF fits_wide(1) [OF v(1,2)]] fits_wide(2) [OF v(1,2)] v(3) assms
    by (simp add: sc_mul_def sc_mul_limbs_def sc_load_value(1))
qed

lemma sc_muladd_value:
  assumes "length a = 32" "length b = 32" "length c = 32"
  shows "sc_muladd a b c = le_bytes 32 ((le_val c + le_val a * le_val b) mod sc_l)"
proof -
  note v = sc_muladd_sums_value [OF sc_load_value(2) [OF assms(1)] sc_load_value(2) [OF assms(2)]
      sc_load_value(2) [OF assms(3)]
      sc_load_within [OF assms(1)] sc_load_within [OF assms(2)] sc_load_within [OF assms(3)]]
  show ?thesis
    using sc_finish_wide [OF fits_wide(1) [OF v(1,2)]] fits_wide(2) [OF v(1,2)] v(3) assms
    by (simp add: sc_muladd_def sc_muladd_limbs_def sc_load_value(1))
qed

lemma sc_mulsub_value:
  assumes "length a = 32" "length b = 32" "length c = 32"
  shows "sc_mulsub a b c = le_bytes 32 ((le_val c - le_val a * le_val b) mod sc_l)"
proof -
  note v = sc_mulsub_sums_value [OF sc_load_value(2) [OF assms(1)] sc_load_value(2) [OF assms(2)]
      sc_load_value(2) [OF assms(3)]
      sc_load_within [OF assms(1)] sc_load_within [OF assms(2)] sc_load_within [OF assms(3)]]
  show ?thesis
    using sc_finish_wide [OF fits_wide(1) [OF v(1,2)]] fits_wide(2) [OF v(1,2)] v(3) assms
    by (simp add: sc_mulsub_def sc_mulsub_limbs_def sc_load_value(1))
qed

lemma sc_reduce32_value: "length s = 32 \<Longrightarrow> sc_reduce32 s = le_bytes 32 (le_val s mod sc_l)"
proof -
  assume l: "length s = 32"
  have w: "list_all (within (2 ^ 54)) (sc_load s)"
    using sc_load_within [OF l] by (auto elim!: list.pred_mono_strong within_mono)
  show ?thesis
    using sc_finish [OF fits_tail(1) [OF sc_load_value(2) [OF l] w]] fits_tail(2) [OF sc_load_value(2) [OF l] w]
    by (simp add: sc_reduce32_def map_i64_exact [OF w] sc_load_value(1) [OF l])
qed

text \<open>Limbwise sums and differences.\<close>

lemma map2_within:
  assumes "length xs = length ys" "list_all (within (2 ^ 25)) xs" "list_all (within (2 ^ 25)) ys"
  shows "list_all (within (2 ^ 54)) (map2 (+) xs ys)" "list_all (within (2 ^ 54)) (map2 (-) xs ys)"
  using assms by (induction rule: list_induct2) (auto simp: within_def)

lemma map2_value:
  assumes "length xs = length ys"
  shows "sc_val (map2 (+) xs ys) = sc_val xs + sc_val ys" "sc_val (map2 (-) xs ys) = sc_val xs - sc_val ys"
  using assms by (induction rule: list_induct2) (auto simp: sc_val_def algebra_simps)

lemma sc_add_value:
  assumes "length a = 32" "length b = 32"
  shows "sc_add a b = le_bytes 32 ((le_val a + le_val b) mod sc_l)"
    and "sc_sub a b = le_bytes 32 ((le_val a - le_val b) mod sc_l)"
proof -
  note l = sc_load_value(2) [OF assms(1)] sc_load_value(2) [OF assms(2)]
  have e: "length (sc_load a) = length (sc_load b)" using l by simp
  note w = map2_within [OF e sc_load_within [OF assms(1)] sc_load_within [OF assms(2)]]
  have m: "map2 (\<lambda>a b. i64 (a + b)) xs ys = map i64 (map2 (+) xs ys)"
    "map2 (\<lambda>a b. i64 (a - b)) xs ys = map i64 (map2 (-) xs ys)" for xs ys by auto
  show "sc_add a b = le_bytes 32 ((le_val a + le_val b) mod sc_l)"
    using sc_finish [OF fits_tail(1) [OF _ w(1)]] fits_tail(2) [OF _ w(1)] l assms
    by (simp add: sc_add_def m map2_value [OF e] sc_load_value(1) del: map_map)
  show "sc_sub a b = le_bytes 32 ((le_val a - le_val b) mod sc_l)"
    using sc_finish [OF fits_tail(1) [OF _ w(2)]] fits_tail(2) [OF _ w(2)] l assms
    by (simp add: sc_sub_def m map2_value [OF e] sc_load_value(1) del: map_map)
qed

section \<open>Checks\<close>

lemma signum_sgn: "within (2 ^ 62) a \<Longrightarrow> signum a = sgn a"
proof -
  assume w: "within (2 ^ 62) a"
  have i: "i64 (- a) = - a" using w by (intro i64_within) (auto intro: within_uminus)
  have d: "x div 2 ^ 63 = (if x < 0 then - 1 else 0)" if "within (2 ^ 62) x" for x
    using that int_div_pos_eq [of x "2 ^ 63" "- 1" "x + 2 ^ 63"] by (auto simp: within_def)
  have j: "i64 0 = 0" "i64 1 = 1" "i64 (- 1) = - 1" by (simp_all add: i64_id)
  show ?thesis
    unfolding signum_def i d [OF w] d [OF within_uminus [OF w]] by (auto simp: j sgn_if)
qed

text \<open>
  Comparing two numbers word by word: the signs of the differences, weighted by powers of two,
  have the sign of the difference of the numbers.
\<close>

lemma sgn_weighted:
  fixes cs ws :: "int list"
  assumes "length cs = length ws"
    and "list_all (\<lambda>c. 0 \<le> c \<and> c < 2 ^ 32) cs" "list_all (\<lambda>w. 0 \<le> w \<and> w < 2 ^ 32) ws"
  defines "d \<equiv> horner_sum id 2 (map2 (\<lambda>c w. sgn (c - w)) cs ws)"
  shows "sgn d = sgn (horner_sum id (2 ^ 32) cs - horner_sum id (2 ^ 32) ws)" "- (2 ^ length cs) < d" "d < 2 ^ length cs"
proof -
  have "sgn d = sgn (horner_sum id (2 ^ 32) cs - horner_sum id (2 ^ 32) ws) \<and> - (2 ^ length cs) < d \<and> d < 2 ^ length cs"
    unfolding d_def using assms(1-3)
  proof (induction rule: list_induct2)
    case (Cons c cs w ws)
    define t where "t = horner_sum id 2 (map2 (\<lambda>c w. sgn (c - w)) cs ws)"
    define v where "v = horner_sum id (2 ^ 32) cs - horner_sum id (2 ^ 32) ws"
    have t: "sgn t = sgn v" "- (2 ^ length cs) < t" "t < 2 ^ length cs"
      using Cons.IH Cons.prems by (simp_all add: t_def v_def id_def)
    have e: "horner_sum id 2 (map2 (\<lambda>c w. sgn (c - w)) (c # cs) (w # ws)) = sgn (c - w) + 2 * t"
      "horner_sum id (2 ^ 32) (c # cs) - horner_sum id (2 ^ 32) (w # ws) = (c - w) + 2 ^ 32 * v"
      by (simp_all add: t_def v_def algebra_simps)
    have b: "- (2 ^ 32) < c - w" "c - w < 2 ^ 32" using Cons.prems by simp_all
    have "sgn (sgn (c - w) + 2 * t) = sgn ((c - w) + 2 ^ 32 * v)"
      using t(1) b by (auto simp: sgn_if split: if_splits)
    moreover have "- (2 ^ length (c # cs)) < sgn (c - w) + 2 * t \<and> sgn (c - w) + 2 * t < 2 ^ length (c # cs)"
      using t(2,3) by (auto simp: sgn_if)
    ultimately show ?case unfolding e by simp
  qed simp
  then show "sgn d = sgn (horner_sum id (2 ^ 32) cs - horner_sum id (2 ^ 32) ws)" "- (2 ^ length cs) < d" "d < 2 ^ length cs"
    by simp_all
qed

definition l_words :: "int list" where
  "l_words = [1559614444, 1477600026, 2734136534, 350157278, 0, 0, 0, 268435456]"

lemma l_words_value: "horner_sum id (2 ^ 32) l_words = sc_l - 1"
  by (simp add: l_words_def sc_l_def)

definition words32 :: "bytes \<Rightarrow> int list" where
  "words32 s = map (\<lambda>k. sint (load_4 (drop (4 * k) s))) [0..<8]"

lemma load_4_word:
  assumes "4 * k + 4 \<le> length s"
  shows "sint (load_4 (drop (4 * k) s)) = le_val s div 2 ^ (32 * k) mod 2 ^ 32"
proof -
  have "uint (load_4 (drop (4 * k) s)) = le_val s div 2 ^ (32 * k) mod 2 ^ 32"
    using load_at(2) [OF assms] power_mult [of "2::int" 8 "4 * k"] by simp
  moreover have "le_val s div 2 ^ (32 * k) mod 2 ^ 32 < 2 ^ 63"
    using pos_mod_bound [of "2 ^ 32" "le_val s div 2 ^ (32 * k)"] by simp
  ultimately show ?thesis using sint_eq_uint64 by metis
qed

lemma horner_words: "horner_sum id (2 ^ 32) (map (\<lambda>k. v div 2 ^ (32 * k) mod 2 ^ 32) [0..<n]) = v mod 2 ^ (32 * n)"
  for v :: int
proof (induction n)
  case (Suc n)
  have "v mod 2 ^ (32 * Suc n) = 2 ^ (32 * n) * (v div 2 ^ (32 * n) mod 2 ^ 32) + v mod 2 ^ (32 * n)"
    using zmod_zmult2_eq [of "2 ^ 32" v "2 ^ (32 * n)"] by (simp add: power_add mult.commute)
  moreover have "(4294967296 :: int) ^ n = 2 ^ (32 * n)" using power_mult [of "2 :: int" 32 n] by simp
  ultimately show ?case using Suc by (simp add: horner_sum_append)
qed simp

lemma words32_value:
  assumes "length s = 32"
  shows "horner_sum id (2 ^ 32) (words32 s) = le_val s" "list_all (\<lambda>w. 0 \<le> w \<and> w < 2 ^ 32) (words32 s)"
proof -
  have e: "words32 s = map (\<lambda>k. le_val s div 2 ^ (32 * k) mod 2 ^ 32) [0..<8]"
    unfolding words32_def using assms by (intro map_cong refl load_4_word) simp
  show "horner_sum id (2 ^ 32) (words32 s) = le_val s"
    unfolding e horner_words using le_val_less [of s] assms by simp
  show "list_all (\<lambda>w. 0 \<le> w \<and> w < 2 ^ 32) (words32 s)"
    unfolding e list_all_iff by auto
qed

lemma sc_check_value:
  assumes "length s = 32"
  shows "sc_check s = (if le_val s < sc_l then 0 else - 1)"
proof -
  define d where "d = horner_sum id 2 (map2 (\<lambda>c w. sgn (c - w)) l_words (words32 s))"
  have u: "[0..<8] = [0, 1, 2, 3, 4, 5, 6, 7]" by code_simp
  have b: "\<forall>w\<in>set (words32 s). 0 \<le> w \<and> w < 2 ^ 32" using words32_value(2) [OF assms] by (simp add: list_all_iff)
  have n: "length l_words = length (words32 s)" by (simp add: l_words_def words32_def)
  have "list_all (\<lambda>c. 0 \<le> c \<and> c < 2 ^ 32) l_words" by (simp add: l_words_def)
  note w = sgn_weighted [OF n this words32_value(2) [OF assms], folded d_def, unfolded l_words_value words32_value(1) [OF assms]]
  have g: "signum (c - w) = sgn (c - w)" if "c \<in> set l_words" "w \<in> set (words32 s)" for c w
    using that b by (intro signum_sgn) (auto simp: l_words_def within_def)
  have s: "map2 (\<lambda>c w. sgn (c - w)) l_words (words32 s) = map2 (\<lambda>c w. signum (c - w)) l_words (words32 s)"
    by (intro map_cong refl) (auto dest: set_zip_leftD set_zip_rightD intro: g [symmetric])
  have "sc_check s = i32 (i64 d div 2 ^ 8)"
    unfolding d_def s by (simp add: sc_check_def Let_def l_words_def words32_def u algebra_simps)
  moreover have "i64 d = d" using w(2,3) by (intro i64_id) (simp_all add: l_words_def)
  moreover have "d div 2 ^ 8 = (if d < 0 then - 1 else 0)"
    using w(2,3) int_div_pos_eq [of d "2 ^ 8" "- 1" "d + 2 ^ 8"] by (auto simp: l_words_def)
  moreover have "d < 0 \<longleftrightarrow> \<not> le_val s < sc_l" using w(1) by (auto simp: sgn_if split: if_splits)
  ultimately show ?thesis by (simp add: i32_def)
qed

lemma sc_isnonzero_value:
  "length s = 32 \<Longrightarrow> sc_isnonzero s = (if le_val s = 0 then 0 else 1)"
  by (simp add: sc_isnonzero_def nonzero_bytes_value)

section \<open>The scalar ring\<close>

text \<open>
  What the clients of the scalar operations (signatures, ring signatures, commitments) rely on:
  every operation returns the canonical 32-byte encoding of its value modulo $\ell$.  From this
  the ring laws follow as equations between byte strings.
\<close>

definition scalar :: "bytes \<Rightarrow> bool" where
  "scalar s \<longleftrightarrow> length s = 32"

locale scalar_ring =
  fixes add sub mul :: "bytes \<Rightarrow> bytes \<Rightarrow> bytes" and muladd mulsub :: "bytes \<Rightarrow> bytes \<Rightarrow> bytes \<Rightarrow> bytes"
    and reduce :: "bytes \<Rightarrow> bytes"
  assumes add: "scalar a \<Longrightarrow> scalar b \<Longrightarrow> add a b = le_bytes 32 ((le_val a + le_val b) mod sc_l)"
    and sub: "scalar a \<Longrightarrow> scalar b \<Longrightarrow> sub a b = le_bytes 32 ((le_val a - le_val b) mod sc_l)"
    and mul: "scalar a \<Longrightarrow> scalar b \<Longrightarrow> mul a b = le_bytes 32 (le_val a * le_val b mod sc_l)"
    and muladd: "scalar a \<Longrightarrow> scalar b \<Longrightarrow> scalar c \<Longrightarrow>
      muladd a b c = le_bytes 32 ((le_val c + le_val a * le_val b) mod sc_l)"
    and mulsub: "scalar a \<Longrightarrow> scalar b \<Longrightarrow> scalar c \<Longrightarrow>
      mulsub a b c = le_bytes 32 ((le_val c - le_val a * le_val b) mod sc_l)"
    and reduce: "scalar a \<Longrightarrow> reduce a = le_bytes 32 (le_val a mod sc_l)"
begin

lemma scalar_le_bytes: "scalar (le_bytes 32 v)"
  by (simp add: scalar_def)

lemma val_mod: "le_val (le_bytes 32 (v mod sc_l)) = v mod sc_l"
proof -
  have "v mod sc_l < 256 ^ 32" "0 \<le> v mod sc_l"
    using pos_mod_bound [of sc_l v] pos_mod_sign [of sc_l v] by (simp_all add: sc_l_def)
  then show ?thesis by (simp add: le_val_le_bytes)
qed

lemmas ops = add sub mul muladd mulsub reduce scalar_le_bytes val_mod

lemma add_commute: "scalar a \<Longrightarrow> scalar b \<Longrightarrow> add a b = add b a"
  by (simp add: ops add.commute)

lemma mul_commute: "scalar a \<Longrightarrow> scalar b \<Longrightarrow> mul a b = mul b a"
  by (simp add: ops mult.commute)

lemma mul_assoc: "scalar a \<Longrightarrow> scalar b \<Longrightarrow> scalar c \<Longrightarrow> mul (mul a b) c = mul a (mul b c)"
  by (simp add: ops mod_mult_left_eq mod_mult_right_eq mult.assoc)

lemma distrib: "scalar a \<Longrightarrow> scalar b \<Longrightarrow> scalar c \<Longrightarrow> mul (add a b) c = add (mul a c) (mul b c)"
  by (simp add: ops mod_mult_left_eq mod_add_eq distrib_right)

lemma sub_add: "scalar a \<Longrightarrow> scalar b \<Longrightarrow> add (sub a b) b = reduce a"
  by (simp add: ops mod_add_left_eq)

lemma muladd_mulsub: "scalar a \<Longrightarrow> scalar b \<Longrightarrow> scalar c \<Longrightarrow> muladd a b (mulsub a b c) = reduce c"
  by (simp add: ops mod_add_left_eq)

lemma muladd_add_mul: "scalar a \<Longrightarrow> scalar b \<Longrightarrow> scalar c \<Longrightarrow> muladd a b c = add c (mul a b)"
  by (simp add: ops mod_add_right_eq)

end

interpretation sc: scalar_ring sc_add sc_sub sc_mul sc_muladd sc_mulsub sc_reduce32
  by unfold_locales
    (simp_all add: scalar_def sc_add_value sc_mul_value sc_muladd_value sc_mulsub_value sc_reduce32_value)

lemma sc_check_le_bytes: "sc_check (le_bytes 32 (v mod sc_l)) = 0"
  using sc.val_mod [of v] pos_mod_bound [of sc_l v] by (simp add: sc_check_value sc_l_def)

lemma sc_0_value: "le_val sc_0 = 0"
proof -
  have "le_val (replicate n 0) = 0" for n by (induction n) simp_all
  then show ?thesis by (simp only: sc_0_def)
qed

section \<open>Properties\<close>

text \<open>
  C1.  \<^verbatim>\<open>sc_reduce\<close> maps every 64-byte string to the canonical little-endian encoding of its value modulo
  $\ell = 2^{252} + 27742317777372353535851937790883648493$, with no overflow on the way; the
  result passes \<^verbatim>\<open>sc_check\<close>.
\<close>

theorem sc_reduce_correct:
  assumes "length s = 64"
  shows "sc_reduce s = le_bytes 32 (le_val s mod sc_l) \<and> sc_check (sc_reduce s) = 0"
  using sc_reduce_value [OF assms] by (simp add: sc_check_le_bytes)

theorem sc_reduce_correct_witness:
  "sc_reduce (replicate 64 255) = le_bytes 32 (le_val (replicate 64 255) mod sc_l) \<and>
   sc_check (sc_reduce (replicate 64 255)) = 0"
  by (rule sc_reduce_correct) simp

text \<open>
  C3.  \<^verbatim>\<open>sc_muladd\<close> and \<^verbatim>\<open>sc_mulsub\<close> compute $c + a b$ and $c - a b$ modulo $\ell$ for all 32-byte inputs,
  reduced or not, as canonical encodings.
\<close>

theorem sc_muladd_correct:
  assumes "length a = 32" "length b = 32" "length c = 32"
  shows "sc_muladd a b c = le_bytes 32 ((le_val c + le_val a * le_val b) mod sc_l) \<and>
    sc_mulsub a b c = le_bytes 32 ((le_val c - le_val a * le_val b) mod sc_l)"
  using sc_muladd_value [OF assms] sc_mulsub_value [OF assms] by simp

theorem sc_muladd_correct_witness:
  "sc_muladd (replicate 32 255) (replicate 32 254) (replicate 32 253) =
     le_bytes 32 ((le_val (replicate 32 253) + le_val (replicate 32 255) * le_val (replicate 32 254)) mod sc_l)"
  using sc_muladd_correct [of "replicate 32 255" "replicate 32 254" "replicate 32 253"] by simp

text \<open>
  \<^verbatim>\<open>sc_mul\<close>, \<^verbatim>\<open>sc_add\<close> and \<^verbatim>\<open>sc_sub\<close> compute the product, sum and difference modulo $\ell$ for all
  32-byte inputs, as canonical encodings.
\<close>

theorem sc_arith_correct:
  assumes "length a = 32" "length b = 32"
  shows "sc_mul a b = le_bytes 32 (le_val a * le_val b mod sc_l) \<and>
    sc_add a b = le_bytes 32 ((le_val a + le_val b) mod sc_l) \<and>
    sc_sub a b = le_bytes 32 ((le_val a - le_val b) mod sc_l)"
  using sc_mul_value [OF assms] sc_add_value [OF assms] by simp

theorem sc_arith_correct_witness:
  "sc_sub (replicate 32 0) (replicate 32 255) =
     le_bytes 32 ((le_val (replicate 32 0) - le_val (replicate 32 255)) mod sc_l)"
  using sc_arith_correct [of "replicate 32 0" "replicate 32 255"] by simp

text \<open>
  C27.  \<^verbatim>\<open>sc_check\<close> returns 0 exactly on the canonical scalars (values below $\ell$) and $-1$ on all other
  32-byte strings; \<^verbatim>\<open>sc_isnonzero\<close> returns 0 exactly on the zero scalar and 1 otherwise.
\<close>

theorem sc_checks_correct:
  assumes "length s = 32"
  shows "sc_check s = (if le_val s < sc_l then 0 else - 1) \<and>
    sc_isnonzero s = (if le_val s = 0 then 0 else 1)"
  using sc_check_value [OF assms] sc_isnonzero_value [OF assms] by simp

theorem sc_checks_correct_witness:
  "sc_check (le_bytes 32 sc_l) = - 1 \<and> sc_check (le_bytes 32 (sc_l - 1)) = 0 \<and> sc_isnonzero sc_0 = 0"
  using sc_checks_correct [of "le_bytes 32 sc_l"] sc_checks_correct [of "le_bytes 32 (sc_l - 1)"]
    sc_checks_correct [of sc_0] sc_0_value
  by (simp add: le_val_le_bytes sc_l_def sc_0_def)

text \<open>
  \<^verbatim>\<open>sc_reduce32\<close>, and \<^verbatim>\<open>sc_reduce32copy\<close> with it, computes the canonical representative, is the identity on strings that pass
  \<^verbatim>\<open>sc_check\<close>, and changes every string that does not.
\<close>

theorem sc_reduce32_canonical:
  assumes "length s = 32"
  shows "sc_reduce32 s = le_bytes 32 (le_val s mod sc_l) \<and> sc_check (sc_reduce32 s) = 0 \<and>
    (sc_reduce32 s = s \<longleftrightarrow> sc_check s = 0) \<and> sc_reduce32copy s = sc_reduce32 s"
proof -
  have r: "sc_reduce32 s = le_bytes 32 (le_val s mod sc_l)" by (rule sc_reduce32_value [OF assms])
  have "sc_reduce32 s = s" if "le_val s < sc_l"
    using that r le_bytes_le_val [OF assms] by simp
  moreover have "sc_check s = 0" if "sc_reduce32 s = s"
    using that r sc_check_le_bytes [of "le_val s"] by metis
  ultimately show ?thesis using r sc_check_le_bytes sc_check_value [OF assms]
    by (auto simp: sc_reduce32copy_def sc_reduce32_def split: if_splits)
qed

theorem sc_reduce32_canonical_witness:
  "sc_reduce32 (replicate 32 255) = le_bytes 32 (le_val (replicate 32 255) mod sc_l) \<and>
   sc_check (sc_reduce32 (replicate 32 255)) = 0"
  using sc_reduce32_canonical [OF length_replicate, of 255] by blast

text \<open>
  C24.  Undoing a response: adding $a b$ back with \<^verbatim>\<open>sc_muladd\<close> to the output of \<^verbatim>\<open>sc_mulsub\<close> gives the
  reduced $c$, and adding $b$ back with \<^verbatim>\<open>sc_add\<close> to the output of \<^verbatim>\<open>sc_sub\<close> the reduced $a$.  This is the
  scalar half of the verification equation of the signatures built on these calls.
\<close>

theorem sc_mulsub_roundtrip:
  assumes "length a = 32" "length b = 32" "length c = 32"
  shows "sc_muladd a b (sc_mulsub a b c) = sc_reduce32 c \<and> sc_add (sc_sub a b) b = sc_reduce32 a"
  using assms sc.muladd_mulsub [of a b c] sc.sub_add [of a b] by (simp add: scalar_def)

theorem sc_mulsub_roundtrip_witness:
  "sc_muladd (replicate 32 7) (replicate 32 9) (sc_mulsub (replicate 32 7) (replicate 32 9) (replicate 32 255))
     = sc_reduce32 (replicate 32 255)"
  using sc_mulsub_roundtrip [of "replicate 32 7" "replicate 32 9" "replicate 32 255"] by simp



end
