(* ===== verification/Fe_Bytes.thy ===== *)
theory Fe_Bytes
  imports Le_Bytes Fe_Arith
begin

text \<open>
  Field elements as bytes: \<^verbatim>\<open>fe_tobytes\<close>, \<^verbatim>\<open>fe_isnegative\<close> and \<^verbatim>\<open>fe_isnonzero\<close> of
  \<^verbatim>\<open>src/src/crypto/crypto-ops.c\<close>, and the reading part of \<^verbatim>\<open>ge_frombytes_vartime\<close> and
  \<^verbatim>\<open>ge_fromfe_frombytes_vartime\<close>.  \<open>fe_tobytes\<close> is the composition of the quotient estimate, the
  carries and the packing of the C function.
\<close>

section \<open>Writing a field element\<close>

definition fe_quotient :: "fe \<Rightarrow> int" where
  "fe_quotient h = (case h of Fe h0 h1 h2 h3 h4 h5 h6 h7 h8 h9 \<Rightarrow>
    let q = i32 (i32 (19 * h9) + 2 ^ 24) div 2 ^ 25;
        q = i32 (h0 + q) div 2 ^ 26;
        q = i32 (h1 + q) div 2 ^ 25;
        q = i32 (h2 + q) div 2 ^ 26;
        q = i32 (h3 + q) div 2 ^ 25;
        q = i32 (h4 + q) div 2 ^ 26;
        q = i32 (h5 + q) div 2 ^ 25;
        q = i32 (h6 + q) div 2 ^ 26;
        q = i32 (h7 + q) div 2 ^ 25;
        q = i32 (h8 + q) div 2 ^ 26
    in i32 (h9 + q) div 2 ^ 25)"

definition floor_carry :: "nat \<Rightarrow> int \<Rightarrow> int \<Rightarrow> int \<times> int" where
  "floor_carry n h h' = (let carry = h div 2 ^ n in (i32 (h' + carry), i32 (h - i32 (carry * 2 ^ n))))"

definition fe_freeze :: "fe \<Rightarrow> fe" where
  "fe_freeze h = (case h of Fe h0 h1 h2 h3 h4 h5 h6 h7 h8 h9 \<Rightarrow>
    let h0 = i32 (h0 + i32 (19 * fe_quotient h));
        (h1, h0) = floor_carry 26 h0 h1;
        (h2, h1) = floor_carry 25 h1 h2;
        (h3, h2) = floor_carry 26 h2 h3;
        (h4, h3) = floor_carry 25 h3 h4;
        (h5, h4) = floor_carry 26 h4 h5;
        (h6, h5) = floor_carry 25 h5 h6;
        (h7, h6) = floor_carry 26 h6 h7;
        (h8, h7) = floor_carry 25 h7 h8;
        (h9, h8) = floor_carry 26 h8 h9;
        carry9 = h9 div 2 ^ 25;
        h9 = i32 (h9 - i32 (carry9 * 2 ^ 25))
    in Fe h0 h1 h2 h3 h4 h5 h6 h7 h8 h9)"

definition fe_pack :: "fe \<Rightarrow> bytes" where
  "fe_pack h = (case h of Fe h0 h1 h2 h3 h4 h5 h6 h7 h8 h9 \<Rightarrow>
     [word_of_int (h0 div 2 ^ 0),
      word_of_int (h0 div 2 ^ 8),
      word_of_int (h0 div 2 ^ 16),
      word_of_int (h0 div 2 ^ 24 OR h1 * 2 ^ 2),
      word_of_int (h1 div 2 ^ 6),
      word_of_int (h1 div 2 ^ 14),
      word_of_int (h1 div 2 ^ 22 OR h2 * 2 ^ 3),
      word_of_int (h2 div 2 ^ 5),
      word_of_int (h2 div 2 ^ 13),
      word_of_int (h2 div 2 ^ 21 OR h3 * 2 ^ 5),
      word_of_int (h3 div 2 ^ 3),
      word_of_int (h3 div 2 ^ 11),
      word_of_int (h3 div 2 ^ 19 OR h4 * 2 ^ 6),
      word_of_int (h4 div 2 ^ 2),
      word_of_int (h4 div 2 ^ 10),
      word_of_int (h4 div 2 ^ 18),
      word_of_int (h5 div 2 ^ 0),
      word_of_int (h5 div 2 ^ 8),
      word_of_int (h5 div 2 ^ 16),
      word_of_int (h5 div 2 ^ 24 OR h6 * 2 ^ 1),
      word_of_int (h6 div 2 ^ 7),
      word_of_int (h6 div 2 ^ 15),
      word_of_int (h6 div 2 ^ 23 OR h7 * 2 ^ 3),
      word_of_int (h7 div 2 ^ 5),
      word_of_int (h7 div 2 ^ 13),
      word_of_int (h7 div 2 ^ 21 OR h8 * 2 ^ 4),
      word_of_int (h8 div 2 ^ 4),
      word_of_int (h8 div 2 ^ 12),
      word_of_int (h8 div 2 ^ 20 OR h9 * 2 ^ 6),
      word_of_int (h9 div 2 ^ 2),
      word_of_int (h9 div 2 ^ 10),
      word_of_int (h9 div 2 ^ 18)])"

definition fe_tobytes :: "fe \<Rightarrow> bytes" where
  "fe_tobytes h = fe_pack (fe_freeze h)"

definition fe_isnegative :: "fe \<Rightarrow> int" where
  "fe_isnegative f = uint (fe_tobytes f ! 0 AND 1)"

definition fe_isnonzero :: "fe \<Rightarrow> int" where
  "fe_isnonzero f = nonzero_bytes (fe_tobytes f)"

section \<open>Reading a field element\<close>

text \<open>
  The ten 64-bit limbs that \<^verbatim>\<open>ge_fromfe_frombytes_vartime\<close> and \<^verbatim>\<open>ge_frombytes_vartime\<close> load (the latter
  without the sign bit), the test for a number that is not reduced, and the ten carries.
\<close>

definition fe_load :: "bytes \<Rightarrow> fe" where
  "fe_load s = Fe (sint (load_4 s)) (sint (push_bit 6 (load_3 (drop 4 s)))) (sint (push_bit 5 (load_3 (drop 7 s))))
     (sint (push_bit 3 (load_3 (drop 10 s)))) (sint (push_bit 2 (load_3 (drop 13 s)))) (sint (load_4 (drop 16 s)))
     (sint (push_bit 7 (load_3 (drop 20 s)))) (sint (push_bit 5 (load_3 (drop 23 s))))
     (sint (push_bit 4 (load_3 (drop 26 s)))) (sint (push_bit 2 (load_3 (drop 29 s))))"

definition fe_load_masked :: "bytes \<Rightarrow> fe" where
  "fe_load_masked s = Fe (sint (load_4 s)) (sint (push_bit 6 (load_3 (drop 4 s)))) (sint (push_bit 5 (load_3 (drop 7 s))))
     (sint (push_bit 3 (load_3 (drop 10 s)))) (sint (push_bit 2 (load_3 (drop 13 s)))) (sint (load_4 (drop 16 s)))
     (sint (push_bit 7 (load_3 (drop 20 s)))) (sint (push_bit 5 (load_3 (drop 23 s))))
     (sint (push_bit 4 (load_3 (drop 26 s)))) (sint (push_bit 2 (load_3 (drop 29 s) AND 8388607)))"

definition fe_noncanonical :: "fe \<Rightarrow> bool" where
  "fe_noncanonical h \<longleftrightarrow> (case h of Fe h0 h1 h2 h3 h4 h5 h6 h7 h8 h9 \<Rightarrow>
     h9 = 33554428 \<and> h8 = 268435440 \<and> h7 = 536870880 \<and> h6 = 2147483520 \<and>
     h5 = 4294967295 \<and> h4 = 67108860 \<and> h3 = 134217720 \<and> h2 = 536870880 \<and>
     h1 = 1073741760 \<and> h0 \<ge> 4294967277)"

definition fe_load_carry :: "fe \<Rightarrow> fe" where
  "fe_load_carry h = (case h of Fe h0 h1 h2 h3 h4 h5 h6 h7 h8 h9 \<Rightarrow>
    let (h9, h0) = carry25_19 h9 h0;
        (h1, h2) = carry25 h1 h2;
        (h3, h4) = carry25 h3 h4;
        (h5, h6) = carry25 h5 h6;
        (h7, h8) = carry25 h7 h8;
        (h0, h1) = carry26 h0 h1;
        (h2, h3) = carry26 h2 h3;
        (h4, h5) = carry26 h4 h5;
        (h6, h7) = carry26 h6 h7;
        (h8, h9) = carry26 h8 h9
    in fe_store (Fe h0 h1 h2 h3 h4 h5 h6 h7 h8 h9))"

section \<open>The quotient\<close>

lemma nested_floor: "(b + a div 2 ^ m) div 2 ^ n = (a + 2 ^ m * b) div (2 ^ (m + n) :: int)"
  by (simp add: power_add zdiv_zmult2_eq)

lemma within_div: "within k x \<Longrightarrow> 0 \<le> k \<Longrightarrow> within (k div 2 ^ n + 1) (x div 2 ^ n)"
proof -
  assume w: "within k x" and k: "0 \<le> k"
  have "- k \<le> x" "x \<le> k" using w by (simp_all add: within_def)
  then have "(- k) div 2 ^ n \<le> x div 2 ^ n" "x div 2 ^ n \<le> k div 2 ^ n" by (simp_all add: zdiv_mono1)
  moreover have "- (k div 2 ^ n) - 1 \<le> (- k) div 2 ^ n"
    using zdiv_zminus1_eq_if [of "2 ^ n" k] by simp
  ultimately show ?thesis by (simp add: within_def)
qed

lemma q_step:
  assumes "within (2 ^ 27) h" "within (2 ^ 7) q" "25 \<le> n"
  shows "i32 (h + q) div 2 ^ n = (h + q) div 2 ^ n" "within (2 ^ 7) ((h + q) div 2 ^ n)"
proof -
  have w: "within (2 ^ 27 + 2 ^ 7) (h + q)" by (intro within_add assms)
  then show "i32 (h + q) div 2 ^ n = (h + q) div 2 ^ n" by (simp add: i32_within [OF w])
  have "(2::int) ^ 25 \<le> 2 ^ n" using assms(3) by (rule power_increasing) simp
  then have "(2 ^ 27 + 2 ^ 7 :: int) div 2 ^ n \<le> (2 ^ 27 + 2 ^ 7) div 2 ^ 25" by (intro zdiv_mono2) simp_all
  then show "within (2 ^ 7) ((h + q) div 2 ^ n)"
    using within_mono [OF within_div [OF w], of n "2 ^ 7"] by simp
qed

lemma fe_quotient_value:
  assumes "fe_within (2 ^ 27) (2 ^ 26) (Fe h0 h1 h2 h3 h4 h5 h6 h7 h8 h9)"
  shows "fe_quotient (Fe h0 h1 h2 h3 h4 h5 h6 h7 h8 h9) =
    (fe_val (Fe h0 h1 h2 h3 h4 h5 h6 h7 h8 h9) + (19 * h9 + 2 ^ 24) div 2 ^ 25) div 2 ^ 255"
    and "within (2 ^ 7) (fe_quotient (Fe h0 h1 h2 h3 h4 h5 h6 h7 h8 h9))"
proof -
  define q where "q = (19 * h9 + 2 ^ 24) div 2 ^ 25"
  have h: "within (2 ^ 27) h0" "within (2 ^ 27) h1" "within (2 ^ 27) h2" "within (2 ^ 27) h3" "within (2 ^ 27) h4"
    "within (2 ^ 27) h5" "within (2 ^ 27) h6" "within (2 ^ 27) h7" "within (2 ^ 27) h8" "within (2 ^ 27) h9"
    using assms by (simp_all add: within_def)
  have w9: "within (2 ^ 26) h9" using assms by simp
  have e: "i32 (i32 (19 * h9) + 2 ^ 24) = 19 * h9 + 2 ^ 24"
    using w9 by (simp add: within_def i32_id)
  have q: "within (2 ^ 7) q"
    using within_div [of "19 * 2 ^ 26 + 2 ^ 24" "19 * h9 + 2 ^ 24" 25] w9 by (simp add: q_def within_def)
  note s0 = q_step [OF h(1) q, of 26]
  note s1 = q_step [OF h(2) s0(2), of 25]
  note s2 = q_step [OF h(3) s1(2), of 26]
  note s3 = q_step [OF h(4) s2(2), of 25]
  note s4 = q_step [OF h(5) s3(2), of 26]
  note s5 = q_step [OF h(6) s4(2), of 25]
  note s6 = q_step [OF h(7) s5(2), of 26]
  note s7 = q_step [OF h(8) s6(2), of 25]
  note s8 = q_step [OF h(9) s7(2), of 26]
  note s9 = q_step [OF h(10) s8(2), of 25]
  have k: "25 \<le> (25 :: nat)" "25 \<le> (26 :: nat)" by simp_all
  have f: "fe_quotient (Fe h0 h1 h2 h3 h4 h5 h6 h7 h8 h9) =
    (h9 + (h8 + (h7 + (h6 + (h5 + (h4 + (h3 + (h2 + (h1 + (h0 + q) div 2 ^ 26) div 2 ^ 25) div 2 ^ 26) div 2 ^ 25)
      div 2 ^ 26) div 2 ^ 25) div 2 ^ 26) div 2 ^ 25) div 2 ^ 26) div 2 ^ 25"
    unfolding fe_quotient_def fe.case Let_def e q_def [symmetric]
    by (simp only: s0(1) s1(1) s2(1) s3(1) s4(1) s5(1) s6(1) s7(1) s8(1) s9(1) k)
  show "within (2 ^ 7) (fe_quotient (Fe h0 h1 h2 h3 h4 h5 h6 h7 h8 h9))"
    unfolding f by (rule s9(2)) (simp_all only: k)
  show "fe_quotient (Fe h0 h1 h2 h3 h4 h5 h6 h7 h8 h9) =
    (fe_val (Fe h0 h1 h2 h3 h4 h5 h6 h7 h8 h9) + (19 * h9 + 2 ^ 24) div 2 ^ 25) div 2 ^ 255"
    unfolding f nested_floor fe_val.simps q_def [symmetric] by (simp add: algebra_simps)
qed

text \<open>
  The claim in the comment before \<^verbatim>\<open>fe_tobytes\<close>: this quotient is the floor of the value over
  $2^{255} - 19$, so the difference is the canonical representative.
\<close>

lemma quotient_canonical:
  fixes h9 low :: int
  assumes "within (2 ^ 231) low" "within (2 ^ 26) h9"
  defines "X \<equiv> low + 2 ^ 230 * h9" and "a \<equiv> (19 * h9 + 2 ^ 24) div 2 ^ 25"
  defines "q \<equiv> (X + a) div 2 ^ 255"
  shows "0 \<le> X - p25519 * q" "X - p25519 * q < p25519"
proof -
  have a: "a * 2 ^ 25 \<le> 19 * h9 + 2 ^ 24" "19 * h9 + 2 ^ 24 < (a + 1) * 2 ^ 25"
    using mult_div_mod_eq [of "2 ^ 25" "19 * h9 + 2 ^ 24"] pos_mod_bound [of "2 ^ 25" "19 * h9 + 2 ^ 24"]
      pos_mod_sign [of "2 ^ 25" "19 * h9 + 2 ^ 24"] by (simp_all add: a_def)
  define m where "m = (X + a) mod 2 ^ 255"
  have m: "0 \<le> m" "m < 2 ^ 255" "X + a = 2 ^ 255 * q + m"
    using mult_div_mod_eq [of "2 ^ 255" "X + a"] by (simp_all add: m_def q_def)
  show "0 \<le> X - p25519 * q" "X - p25519 * q < p25519"
    using assms(1,2) a m X_def by (simp_all add: within_def p25519_def)
qed

lemma fe_low_bound:
  assumes "fe_within (2 ^ 27) (2 ^ 26) (Fe h0 h1 h2 h3 h4 h5 h6 h7 h8 h9)" "fe_bounded 350 (Fe h0 h1 h2 h3 h4 h5 h6 h7 h8 h9)"
  shows "within (2 ^ 231) (fe_val (Fe h0 h1 h2 h3 h4 h5 h6 h7 h8 h9) - 2 ^ 230 * h9)"
  using assms by (simp add: fe_bounded_def within_def)

section \<open>Freezing\<close>

lemma floor_carry_step:
  assumes "within (2 ^ 28) h" "within (2 ^ 27) h'" "n = 25 \<or> n = 26" "k = h' + h div 2 ^ n"
  shows "floor_carry n h h' = (k, h mod 2 ^ n)" "within (2 ^ 28) k"
proof -
  have c: "within 9 (h div 2 ^ n)"
    using within_mono [OF within_div [OF assms(1)], of n 9] assms(3) by auto
  show "within (2 ^ 28) k" using c assms(2,4) by (simp add: within_def)
  have "i32 (h' + h div 2 ^ n) = h' + h div 2 ^ n" using c assms(2) by (simp add: within_def i32_id)
  moreover have "i32 (h div 2 ^ n * 2 ^ n) = h div 2 ^ n * 2 ^ n"
    using c assms(3) by (auto simp: within_def intro!: i32_id)
  moreover have "h - h div 2 ^ n * 2 ^ n = h mod 2 ^ n" by (simp add: minus_div_mult_eq_mod)
  moreover have "i32 (h mod 2 ^ n) = h mod 2 ^ n"
    using assms(3) pos_mod_bound [of "2 ^ 25" h] pos_mod_bound [of "2 ^ 26" h] pos_mod_sign [of "2 ^ 25" h]
      pos_mod_sign [of "2 ^ 26" h] by (auto intro!: i32_id)
  ultimately show "floor_carry n h h' = (k, h mod 2 ^ n)"
    using assms(4) by (simp add: floor_carry_def Let_def)
qed

fun fe_digits :: "fe \<Rightarrow> bool" where
  "fe_digits (Fe h0 h1 h2 h3 h4 h5 h6 h7 h8 h9) \<longleftrightarrow>
     0 \<le> h0 \<and> h0 < 2 ^ 26 \<and> 0 \<le> h1 \<and> h1 < 2 ^ 25 \<and> 0 \<le> h2 \<and> h2 < 2 ^ 26 \<and> 0 \<le> h3 \<and> h3 < 2 ^ 25 \<and> 0 \<le> h4 \<and> h4 < 2 ^ 26 \<and> 0 \<le> h5 \<and> h5 < 2 ^ 25 \<and> 0 \<le> h6 \<and> h6 < 2 ^ 26 \<and> 0 \<le> h7 \<and> h7 < 2 ^ 25 \<and> 0 \<le> h8 \<and> h8 < 2 ^ 26 \<and> 0 \<le> h9 \<and> h9 < 2 ^ 25"

lemma fe_digits_range: "fe_digits h \<Longrightarrow> 0 \<le> fe_val h \<and> fe_val h < 2 ^ 255"
  by (cases h) simp

lemma carry_chain_sum:
  fixes v :: int
  assumes "v = 2 ^ 26 * c0 + d0"
    and "h1 + c0 = 2 ^ 25 * c1 + d1"
    and "h2 + c1 = 2 ^ 26 * c2 + d2"
    and "h3 + c2 = 2 ^ 25 * c3 + d3"
    and "h4 + c3 = 2 ^ 26 * c4 + d4"
    and "h5 + c4 = 2 ^ 25 * c5 + d5"
    and "h6 + c5 = 2 ^ 26 * c6 + d6"
    and "h7 + c6 = 2 ^ 25 * c7 + d7"
    and "h8 + c7 = 2 ^ 26 * c8 + d8"
    and "h9 + c8 = 2 ^ 25 * c9 + d9"
  shows "v + 2 ^ 26 * h1 + 2 ^ 51 * h2 + 2 ^ 77 * h3 + 2 ^ 102 * h4 + 2 ^ 128 * h5 + 2 ^ 153 * h6 + 2 ^ 179 * h7 + 2 ^ 204 * h8 + 2 ^ 230 * h9
    = d0 + 2 ^ 26 * d1 + 2 ^ 51 * d2 + 2 ^ 77 * d3 + 2 ^ 102 * d4 + 2 ^ 128 * d5 + 2 ^ 153 * d6 + 2 ^ 179 * d7 + 2 ^ 204 * d8 + 2 ^ 230 * d9 + 2 ^ 255 * c9"
proof -
  have "h1 = 2 ^ 25 * c1 + d1 - c0" "h2 = 2 ^ 26 * c2 + d2 - c1" "h3 = 2 ^ 25 * c3 + d3 - c2" "h4 = 2 ^ 26 * c4 + d4 - c3" "h5 = 2 ^ 25 * c5 + d5 - c4" "h6 = 2 ^ 26 * c6 + d6 - c5" "h7 = 2 ^ 25 * c7 + d7 - c6" "h8 = 2 ^ 26 * c8 + d8 - c7" "h9 = 2 ^ 25 * c9 + d9 - c8"
    using assms by simp_all
  then show ?thesis unfolding assms(1) by simp
qed

lemma div_mod_split: "k = h + c \<Longrightarrow> h + c = 2 ^ n * (k div 2 ^ n) + k mod 2 ^ n" for k :: int
  by simp

lemma fe_freeze_digits:
  assumes "fe_within (2 ^ 27) (2 ^ 26) (Fe h0 h1 h2 h3 h4 h5 h6 h7 h8 h9)"
  defines "h \<equiv> Fe h0 h1 h2 h3 h4 h5 h6 h7 h8 h9"
  shows "fe_digits (fe_freeze h)" "fe_val (fe_freeze h) = (fe_val h + 19 * fe_quotient h) mod 2 ^ 255"
proof -
  note q = fe_quotient_value(2) [OF assms(1), folded h_def]
  define k0 where "k0 = h0 + 19 * fe_quotient h"
  define k1 where "k1 = h1 + k0 div 2 ^ 26"
  define k2 where "k2 = h2 + k1 div 2 ^ 25"
  define k3 where "k3 = h3 + k2 div 2 ^ 26"
  define k4 where "k4 = h4 + k3 div 2 ^ 25"
  define k5 where "k5 = h5 + k4 div 2 ^ 26"
  define k6 where "k6 = h6 + k5 div 2 ^ 25"
  define k7 where "k7 = h7 + k6 div 2 ^ 26"
  define k8 where "k8 = h8 + k7 div 2 ^ 25"
  define k9 where "k9 = h9 + k8 div 2 ^ 26"
  have b: "within (2 ^ 27) h1" "within (2 ^ 27) h2" "within (2 ^ 27) h3" "within (2 ^ 27) h4" "within (2 ^ 27) h5"
    "within (2 ^ 27) h6" "within (2 ^ 27) h7" "within (2 ^ 27) h8" "within (2 ^ 27) h9"
    using assms(1) by (simp_all add: within_def)
  have k: "within (2 ^ 28) k0" "i32 (h0 + i32 (19 * fe_quotient h)) = k0"
    using assms(1) q by (simp_all add: within_def i32_id k0_def)
  note s0 = floor_carry_step [OF k(1) b(1) disjI2 [OF refl] k1_def]
  note s1 = floor_carry_step [OF s0(2) b(2) disjI1 [OF refl] k2_def]
  note s2 = floor_carry_step [OF s1(2) b(3) disjI2 [OF refl] k3_def]
  note s3 = floor_carry_step [OF s2(2) b(4) disjI1 [OF refl] k4_def]
  note s4 = floor_carry_step [OF s3(2) b(5) disjI2 [OF refl] k5_def]
  note s5 = floor_carry_step [OF s4(2) b(6) disjI1 [OF refl] k6_def]
  note s6 = floor_carry_step [OF s5(2) b(7) disjI2 [OF refl] k7_def]
  note s7 = floor_carry_step [OF s6(2) b(8) disjI1 [OF refl] k8_def]
  note s8 = floor_carry_step [OF s7(2) b(9) disjI2 [OF refl] k9_def]
  have "floor_carry 25 k9 0 = (k9 div 2 ^ 25, k9 mod 2 ^ 25)"
    by (rule floor_carry_step [OF s8(2)]) (simp_all add: within_def)
  then have s9: "i32 (k9 - i32 (k9 div 2 ^ 25 * 2 ^ 25)) = k9 mod 2 ^ 25" by (simp add: floor_carry_def Let_def)
  have f: "fe_freeze h = Fe (k0 mod 2 ^ 26) (k1 mod 2 ^ 25) (k2 mod 2 ^ 26) (k3 mod 2 ^ 25) (k4 mod 2 ^ 26) (k5 mod 2 ^ 25) (k6 mod 2 ^ 26) (k7 mod 2 ^ 25) (k8 mod 2 ^ 26) (k9 mod 2 ^ 25)"
    unfolding fe_freeze_def h_def fe.case unfolding h_def [symmetric] Let_def k(2) s0(1) s1(1) s2(1) s3(1) s4(1)
      s5(1) s6(1) s7(1) s8(1) prod.case s9 ..
  show d: "fe_digits (fe_freeze h)" by (simp add: f)
  have "fe_val h + 19 * fe_quotient h = fe_val (fe_freeze h) + 2 ^ 255 * (k9 div 2 ^ 25)"
    using carry_chain_sum [OF mult_div_mod_eq [symmetric] div_mod_split [OF k1_def] div_mod_split [OF k2_def] div_mod_split [OF k3_def] div_mod_split [OF k4_def] div_mod_split [OF k5_def]
      div_mod_split [OF k6_def] div_mod_split [OF k7_def] div_mod_split [OF k8_def] div_mod_split [OF k9_def]]
    unfolding f fe_val.simps k0_def unfolding h_def fe_val.simps by simp
  then show "fe_val (fe_freeze h) = (fe_val h + 19 * fe_quotient h) mod 2 ^ 255"
    using fe_digits_range [OF d] by (simp only: mod_mult_self2) simp
qed

section \<open>Packing\<close>

definition fe_widths :: "nat list" where
  "fe_widths = [26, 25, 26, 25, 26, 25, 26, 25, 26, 25]"

lemma fe_val_mixed:
  "fe_val (Fe h0 h1 h2 h3 h4 h5 h6 h7 h8 h9) = mixed fe_widths [h0, h1, h2, h3, h4, h5, h6, h7, h8, h9]"
  by (simp add: fe_widths_def)

lemma fe_pack_digits:
  assumes "fe_digits h"
  shows "fe_pack h = le_bytes 32 (fe_val h)"
proof -
  obtain h0 h1 h2 h3 h4 h5 h6 h7 h8 h9 where h: "h = Fe h0 h1 h2 h3 h4 h5 h6 h7 h8 h9" by (cases h)
  define ds where "ds = [h0, h1, h2, h3, h4, h5, h6, h7, h8, h9]"
  have "digits_below 10 fe_widths ds"
    using assms by (simp add: h digits_below_def ds_def fe_widths_def numeral_eq_Suc All_less_Suc2)
  then have b: "digits_below k fe_widths ds" if "k \<le> 10" for k using that by (auto simp: digits_below_def)
  have n: "length ds = 10" by (simp add: ds_def)
  have v: "fe_val h = mixed fe_widths ds" by (simp only: h fe_val_mixed ds_def)
  have d: "h0 = ds ! 0" "h1 = ds ! 1" "h2 = ds ! 2" "h3 = ds ! 3" "h4 = ds ! 4" "h5 = ds ! 5" "h6 = ds ! 6"
    "h7 = ds ! 7" "h8 = ds ! 8" "h9 = ds ! 9" by (simp_all add: ds_def)
  have low: "word_of_int (mixed fe_widths ds div 2 ^ m) = (word_of_int (ds ! k div 2 ^ a) :: byte)"
    if "m = sum_list (take k fe_widths) + a" "k < 10" "a + 8 \<le> fe_widths ! k \<or> k = 9" for m k a
    using that pack_low [OF b, of k a] pack_top [OF b, of 9 a] n by auto
  have cross: "word_of_int (mixed fe_widths ds div 2 ^ m) = (word_of_int (ds ! k div 2 ^ a OR ds ! k' * 2 ^ c) :: byte)"
    if "m = sum_list (take k fe_widths) + a" "k' = Suc k" "k < 9"
      "a \<le> fe_widths ! k \<and> 8 \<le> fe_widths ! k - a + fe_widths ! Suc k" "c = fe_widths ! k - a" for m k k' a c
    using that pack_cross [OF b, of k a] n by auto
  show ?thesis
    unfolding v unfolding h fe_pack_def fe.case bytes_at upt32 list.map d
    by (intro Cons_cong2 refl; ((rule low [symmetric], simp add: fe_widths_def, simp, simp add: fe_widths_def)
        | (rule cross [symmetric], simp add: fe_widths_def, simp, simp, simp add: fe_widths_def, simp add: fe_widths_def)))
qed

lemma fe_tobytes_value:
  assumes "fe_bounded 350 h"
  shows "fe_tobytes h = le_bytes 32 (fe_val h mod p25519)"
proof -
  obtain h0 h1 h2 h3 h4 h5 h6 h7 h8 h9 where h: "h = Fe h0 h1 h2 h3 h4 h5 h6 h7 h8 h9" by (cases h)
  have w: "fe_within (2 ^ 27) (2 ^ 26) (Fe h0 h1 h2 h3 h4 h5 h6 h7 h8 h9)"
    by (rule fe_within_mono [OF assms [unfolded h fe_bounded_def]]) simp_all
  have w9: "within (2 ^ 26) h9" using w by simp
  define low where "low = fe_val h - 2 ^ 230 * h9"
  have l: "within (2 ^ 231) low" using fe_low_bound [OF w] assms by (simp only: h low_def)
  have v: "fe_val h = low + 2 ^ 230 * h9" by (simp add: low_def)
  note q = fe_quotient_value(1) [OF w, folded h, unfolded v]
  note c = quotient_canonical [OF l w9, folded q, folded v]
  have e: "fe_val h + 19 * fe_quotient h = (fe_val h - p25519 * fe_quotient h) + 2 ^ 255 * fe_quotient h"
    by (simp add: p25519_def algebra_simps)
  have "fe_val h - p25519 * fe_quotient h < 2 ^ 255" using c(2) by (simp add: p25519_def)
  then have "(fe_val h + 19 * fe_quotient h) mod 2 ^ 255 = fe_val h - p25519 * fe_quotient h"
    unfolding e using c(1) by simp
  also have "\<dots> = (fe_val h - p25519 * fe_quotient h) mod p25519" using c by simp
  also have "\<dots> = (fe_val h + p25519 * (- fe_quotient h)) mod p25519" by simp
  also have "\<dots> = fe_val h mod p25519" by (rule mod_mult_self2)
  finally show ?thesis
    using fe_freeze_digits [OF w, folded h] by (simp add: fe_tobytes_def fe_pack_digits)
qed

lemma fe_isnegative_value:
  assumes "fe_bounded 350 f"
  shows "fe_isnegative f = fe_val f mod p25519 mod 2"
proof -
  have "uint (le_bytes 32 v ! 0 AND 1) = v mod 2" for v
    by (simp add: le_bytes_def and_one_eq uint_word_of_int uint_mod_distrib mod_mod_cancel)
  then show ?thesis by (simp add: fe_isnegative_def fe_tobytes_value [OF assms])
qed

lemma p25519_bounds: "0 < p25519" "p25519 < 256 ^ 32"
  by (simp_all add: p25519_def)

lemma le_val_field: "le_val (le_bytes 32 (v mod p25519)) = v mod p25519"
proof -
  have "v mod p25519 < 256 ^ 32" using pos_mod_bound [OF p25519_bounds(1)] p25519_bounds(2) by (rule less_trans)
  then show ?thesis using p25519_bounds(1) by (simp add: le_val_le_bytes)
qed

lemma fe_isnonzero_value:
  assumes "fe_bounded 350 f"
  shows "fe_isnonzero f = (if fe_val f mod p25519 = 0 then 0 else 1)"
  by (simp add: fe_isnonzero_def fe_tobytes_value [OF assms] nonzero_bytes_value le_val_field)

section \<open>Loads\<close>

lemma fe_load_carry_correct:
  assumes "fe_within (2 ^ 33) (2 ^ 33) h"
  shows "fe_bounded 101 (fe_load_carry h)" "fe_val (fe_load_carry h) mod p25519 = fe_val h mod p25519"
proof -
  obtain h0 h1 h2 h3 h4 h5 h6 h7 h8 h9 where h: "h = Fe h0 h1 h2 h3 h4 h5 h6 h7 h8 h9" by (cases h)
  have w: "within (2 ^ 33) h0" "within (2 ^ 33) h1" "within (2 ^ 33) h2" "within (2 ^ 33) h3" "within (2 ^ 33) h4" "within (2 ^ 33) h5" "within (2 ^ 33) h6" "within (2 ^ 33) h7" "within (2 ^ 33) h8" "within (2 ^ 33) h9"
    using assms by (simp_all add: h)
  obtain d9 e0 c where s0: "carry25_19 h9 h0 = (d9, e0)" "d9 = h9 - 2 ^ 25 * c" "e0 = h0 + 19 * c"
    and w0: "within (2 ^ 24) d9" "within (2 ^ 34) e0"
    by (rule carry25_19_step [OF w(10) w(1), where L = "2 ^ 34"]) simp_all
  obtain a1 e2 where s1: "carry25 h1 h2 = (a1, e2)" "a1 + 2 ^ 25 * e2 = h1 + 2 ^ 25 * h2"
    and w1: "within (2 ^ 24) a1" "within (2 ^ 34) e2"
    by (rule carry25_step [OF w(2) w(3), where L = "2 ^ 34"]) simp_all
  obtain a3 e4 where s2: "carry25 h3 h4 = (a3, e4)" "a3 + 2 ^ 25 * e4 = h3 + 2 ^ 25 * h4"
    and w2: "within (2 ^ 24) a3" "within (2 ^ 34) e4"
    by (rule carry25_step [OF w(4) w(5), where L = "2 ^ 34"]) simp_all
  obtain a5 e6 where s3: "carry25 h5 h6 = (a5, e6)" "a5 + 2 ^ 25 * e6 = h5 + 2 ^ 25 * h6"
    and w3: "within (2 ^ 24) a5" "within (2 ^ 34) e6"
    by (rule carry25_step [OF w(6) w(7), where L = "2 ^ 34"]) simp_all
  obtain a7 e8 where s4: "carry25 h7 h8 = (a7, e8)" "a7 + 2 ^ 25 * e8 = h7 + 2 ^ 25 * h8"
    and w4: "within (2 ^ 24) a7" "within (2 ^ 34) e8"
    by (rule carry25_step [OF w(8) w(9), where L = "2 ^ 34"]) simp_all
  obtain g0 g1 where s5: "carry26 e0 a1 = (g0, g1)" "g0 + 2 ^ 26 * g1 = e0 + 2 ^ 26 * a1"
    and w5: "within (2 ^ 25) g0" "within (101 * 2 ^ 24 div 100) g1"
    by (rule carry26_step [OF w0(2) w1(1), where L = "101 * 2 ^ 24 div 100"]) simp_all
  obtain g2 g3 where s6: "carry26 e2 a3 = (g2, g3)" "g2 + 2 ^ 26 * g3 = e2 + 2 ^ 26 * a3"
    and w6: "within (2 ^ 25) g2" "within (101 * 2 ^ 24 div 100) g3"
    by (rule carry26_step [OF w1(2) w2(1), where L = "101 * 2 ^ 24 div 100"]) simp_all
  obtain g4 g5 where s7: "carry26 e4 a5 = (g4, g5)" "g4 + 2 ^ 26 * g5 = e4 + 2 ^ 26 * a5"
    and w7: "within (2 ^ 25) g4" "within (101 * 2 ^ 24 div 100) g5"
    by (rule carry26_step [OF w2(2) w3(1), where L = "101 * 2 ^ 24 div 100"]) simp_all
  obtain g6 g7 where s8: "carry26 e6 a7 = (g6, g7)" "g6 + 2 ^ 26 * g7 = e6 + 2 ^ 26 * a7"
    and w8: "within (2 ^ 25) g6" "within (101 * 2 ^ 24 div 100) g7"
    by (rule carry26_step [OF w3(2) w4(1), where L = "101 * 2 ^ 24 div 100"]) simp_all
  obtain g8 g9 where s9: "carry26 e8 d9 = (g8, g9)" "g8 + 2 ^ 26 * g9 = e8 + 2 ^ 26 * d9"
    and w9: "within (2 ^ 25) g8" "within (101 * 2 ^ 24 div 100) g9"
    by (rule carry26_step [OF w4(2) w0(1), where L = "101 * 2 ^ 24 div 100"]) simp_all
  have r: "fe_load_carry h = Fe g0 g1 g2 g3 g4 g5 g6 g7 g8 g9"
    using w5 w6 w7 w8 w9
    by (simp add: h fe_load_carry_def fe_store_def s0(1) s1(1) s2(1) s3(1) s4(1) s5(1) s6(1) s7(1) s8(1) s9(1)
      i32_id within_def)
  show "fe_bounded 101 (fe_load_carry h)"
    using w5 w6 w7 w8 w9 by (simp add: r fe_bounded_def within_def)
  have "fe_val (Fe g0 g1 g2 g3 g4 g5 g6 g7 g8 g9) = fe_val (Fe h0 h1 h2 h3 h4 h5 h6 h7 h8 h9) + p25519 * (- c)"
    unfolding fe_val.simps p25519_def
    using s0(2,3) s1(2) s2(2) s3(2) s4(2) s5(2) s6(2) s7(2) s8(2) s9(2) by algebra
  then show "fe_val (fe_load_carry h) mod p25519 = fe_val h mod p25519" by (simp only: r) (simp only: h mod_mult_self2)
qed

text \<open>The ten blocks of a 32-byte string.\<close>

definition blocks :: "bytes \<Rightarrow> int list" where
  "blocks s = [le_val (take 4 s), le_val (take 3 (drop 4 s)), le_val (take 3 (drop 7 s)), le_val (take 3 (drop 10 s)),
     le_val (take 3 (drop 13 s)), le_val (take 4 (drop 16 s)), le_val (take 3 (drop 20 s)), le_val (take 3 (drop 23 s)),
     le_val (take 3 (drop 26 s)), le_val (take 3 (drop 29 s))]"

lemma blocks_value:
  assumes "length s = 32" "blocks s = [x0, x1, x2, x3, x4, x5, x6, x7, x8, x9]"
  shows "le_val s = x0 + 2 ^ 32 * x1 + 2 ^ 56 * x2 + 2 ^ 80 * x3 + 2 ^ 104 * x4 + 2 ^ 128 * x5 + 2 ^ 160 * x6
      + 2 ^ 184 * x7 + 2 ^ 208 * x8 + 2 ^ 232 * x9"
proof -
  have c: "le_val (drop k s) = le_val (take m (drop k s)) + 256 ^ m * le_val (drop (k + m) s)" if "k + m \<le> 32" for k m
    using le_val_split [of "drop k s" m] assms(1) that by (simp add: add.commute)
  have x: "le_val (take 4 (drop 0 s)) = x0" "le_val (take 3 (drop 4 s)) = x1" "le_val (take 3 (drop 7 s)) = x2"
    "le_val (take 3 (drop 10 s)) = x3" "le_val (take 3 (drop 13 s)) = x4" "le_val (take 4 (drop 16 s)) = x5"
    "le_val (take 3 (drop 20 s)) = x6" "le_val (take 3 (drop 23 s)) = x7" "le_val (take 3 (drop 26 s)) = x8"
    "le_val (take 3 (drop 29 s)) = x9" "le_val (drop (29 + 3) s) = 0" "le_val (drop 0 s) = le_val s"
    using assms by (simp_all add: blocks_def)
  have "le_val s = x0 + 256 ^ 4 * (x1 + 256 ^ 3 * (x2 + 256 ^ 3 * (x3 + 256 ^ 3 * (x4 + 256 ^ 3 * (x5 + 256 ^ 4 *
      (x6 + 256 ^ 3 * (x7 + 256 ^ 3 * (x8 + 256 ^ 3 * (x9 + 256 ^ 3 * 0)))))))))"
    using c [of 0 4] c [of 4 3] c [of 7 3] c [of 10 3] c [of 13 3] c [of 16 4] c [of 20 3] c [of 23 3]
      c [of 26 3] c [of 29 3] unfolding x by simp
  then show ?thesis by simp
qed

lemma block_range:
  "0 \<le> le_val (take m s)" "le_val (take m s) < 256 ^ m"
proof -
  have "(256 :: int) ^ length (take m s) \<le> 256 ^ m" by (rule power_increasing) simp_all
  with le_val_less [of "take m s"] show "le_val (take m s) < 256 ^ m" by (rule less_le_trans)
qed simp

lemma uint_push_bit64: "uint (w :: 64 word) < 2 ^ 24 \<Longrightarrow> n \<le> 7 \<Longrightarrow> sint (push_bit n w) = 2 ^ n * uint w"
proof -
  assume w: "uint w < 2 ^ 24" and n: "n \<le> 7"
  have "2 ^ n * uint w < 2 ^ 7 * 2 ^ 24"
    using w power_increasing [OF n, of "2::int"] by (intro mult_le_less_imp_less) simp_all
  then have "uint (push_bit n w) = 2 ^ n * uint w" "2 ^ n * uint w < 2 ^ 63"
    by (simp_all only: unsigned_push_bit_eq) (simp_all add: push_bit_eq_mult take_bit_int_eq_self mult.commute)
  then show ?thesis using sint_eq_uint64 by metis
qed

lemma loaded_block:
  "k + 3 \<le> length s \<Longrightarrow> n \<le> 7 \<Longrightarrow> sint (push_bit n (load_3 (drop k s))) = 2 ^ n * le_val (take 3 (drop k s))"
  "k + 4 \<le> length s \<Longrightarrow> sint (load_4 (drop k s)) = le_val (take 4 (drop k s))"
  "k + 3 \<le> length s \<Longrightarrow>
     sint (push_bit 2 (load_3 (drop k s) AND 8388607)) = 2 ^ 2 * (le_val (take 3 (drop k s)) mod 2 ^ 23)"
proof -
  note r = block_range [of 3 "drop k s"] block_range [of 4 "drop k s"]
  show "k + 4 \<le> length s \<Longrightarrow> sint (load_4 (drop k s)) = le_val (take 4 (drop k s))"
    using r by (simp add: sint_eq_uint64 load_4_val)
  show "k + 3 \<le> length s \<Longrightarrow> n \<le> 7 \<Longrightarrow> sint (push_bit n (load_3 (drop k s))) = 2 ^ n * le_val (take 3 (drop k s))"
    using r by (simp add: uint_push_bit64 load_3_val)
  assume k: "k + 3 \<le> length s"
  have "(8388607 :: 64 word) = mask 23" by (simp add: mask_eq_exp_minus_1)
  then have "load_3 (drop k s) AND 8388607 = take_bit 23 (load_3 (drop k s))" by (simp only: take_bit_eq_mask)
  then have "uint (load_3 (drop k s) AND 8388607) = uint (load_3 (drop k s)) mod 2 ^ 23"
    by (simp only: unsigned_take_bit_eq) (simp only: take_bit_eq_mod)
  then have "uint (load_3 (drop k s) AND 8388607) = le_val (take 3 (drop k s)) mod 2 ^ 23"
    using k by (simp add: load_3_val)
  moreover have "le_val (take 3 (drop k s)) mod 2 ^ 23 < 2 ^ 24"
    using pos_mod_bound [of "2 ^ 23" "le_val (take 3 (drop k s))"] by simp
  ultimately show "sint (push_bit 2 (load_3 (drop k s) AND 8388607)) = 2 ^ 2 * (le_val (take 3 (drop k s)) mod 2 ^ 23)"
    by (simp only: uint_push_bit64 [of "load_3 (drop k s) AND 8388607" 2])
qed

lemma fe_load_blocks:
  assumes "length s = 32" "blocks s = [x0, x1, x2, x3, x4, x5, x6, x7, x8, x9]"
  shows "fe_load s = Fe x0 (2 ^ 6 * x1) (2 ^ 5 * x2) (2 ^ 3 * x3) (2 ^ 2 * x4) x5 (2 ^ 7 * x6) (2 ^ 5 * x7)
      (2 ^ 4 * x8) (2 ^ 2 * x9)"
    and "fe_load_masked s = Fe x0 (2 ^ 6 * x1) (2 ^ 5 * x2) (2 ^ 3 * x3) (2 ^ 2 * x4) x5 (2 ^ 7 * x6) (2 ^ 5 * x7)
      (2 ^ 4 * x8) (2 ^ 2 * (x9 mod 2 ^ 23))"
    and "0 \<le> x0 \<and> x0 < 2 ^ 32 \<and> 0 \<le> x1 \<and> x1 < 2 ^ 24 \<and> 0 \<le> x2 \<and> x2 < 2 ^ 24 \<and> 0 \<le> x3 \<and> x3 < 2 ^ 24 \<and>
      0 \<le> x4 \<and> x4 < 2 ^ 24 \<and> 0 \<le> x5 \<and> x5 < 2 ^ 32 \<and> 0 \<le> x6 \<and> x6 < 2 ^ 24 \<and> 0 \<le> x7 \<and> x7 < 2 ^ 24 \<and>
      0 \<le> x8 \<and> x8 < 2 ^ 24 \<and> 0 \<le> x9 \<and> x9 < 2 ^ 24"
  using assms loaded_block(2) [of 0 s] loaded_block(3) [of 29 s] block_range [of 4 s] block_range [of 3 "drop 4 s"] block_range [of 3 "drop 7 s"]
    block_range [of 3 "drop 10 s"] block_range [of 3 "drop 13 s"] block_range [of 4 "drop 16 s"]
    block_range [of 3 "drop 20 s"] block_range [of 3 "drop 23 s"] block_range [of 3 "drop 26 s"]
    block_range [of 3 "drop 29 s"]
  by (simp_all add: fe_load_def fe_load_masked_def loaded_block blocks_def)

lemma blocksE:
  obtains x0 x1 x2 x3 x4 x5 x6 x7 x8 x9 where "blocks s = [x0, x1, x2, x3, x4, x5, x6, x7, x8, x9]"
  by (rule that) (rule blocks_def)

lemma fe_load_value:
  assumes "length s = 32"
  shows "fe_val (fe_load s) = le_val s" "fe_within (2 ^ 33) (2 ^ 33) (fe_load s)"
    "fe_val (fe_load_masked s) = le_val s mod 2 ^ 255" "fe_within (2 ^ 33) (2 ^ 33) (fe_load_masked s)"
    "fe_noncanonical (fe_load_masked s) \<longleftrightarrow> p25519 \<le> le_val s mod 2 ^ 255"
proof -
  obtain x0 x1 x2 x3 x4 x5 x6 x7 x8 x9 where x: "blocks s = [x0, x1, x2, x3, x4, x5, x6, x7, x8, x9]"
    by (rule blocksE)
  note l = fe_load_blocks [OF assms x]
  define y9 where "y9 = x9 mod 2 ^ 23"
  have y: "0 \<le> y9" "y9 < 2 ^ 23" "x9 = y9 + 2 ^ 23 * (x9 div 2 ^ 23)" by (simp_all add: y9_def)
  note v = blocks_value [OF assms x]
  show "fe_val (fe_load s) = le_val s" unfolding l(1) v by simp
  show "fe_within (2 ^ 33) (2 ^ 33) (fe_load s)" using l(3) unfolding l(1) by (simp add: within_def)
  show "fe_within (2 ^ 33) (2 ^ 33) (fe_load_masked s)"
    using l(3) y(1,2) unfolding l(2) y9_def [symmetric] by (simp add: within_def)
  define lo where "lo = x0 + 2 ^ 32 * x1 + 2 ^ 56 * x2 + 2 ^ 80 * x3 + 2 ^ 104 * x4 + 2 ^ 128 * x5 + 2 ^ 160 * x6
      + 2 ^ 184 * x7 + 2 ^ 208 * x8 + 2 ^ 232 * y9"
  have "0 \<le> lo" "lo < 2 ^ 255" using l(3) y(1,2) by (simp_all add: lo_def)
  moreover have "le_val s = lo + 2 ^ 255 * (x9 div 2 ^ 23)" using v y(3) by (simp add: lo_def)
  ultimately have m: "le_val s mod 2 ^ 255 = lo" by simp
  show "fe_val (fe_load_masked s) = le_val s mod 2 ^ 255"
    unfolding m l(2) y9_def [symmetric] by (simp add: lo_def)
  have "p25519 \<le> lo \<longleftrightarrow> y9 = 8388607 \<and> x8 = 16777215 \<and> x7 = 16777215 \<and> x6 = 16777215 \<and> x5 = 4294967295 \<and>
      x4 = 16777215 \<and> x3 = 16777215 \<and> x2 = 16777215 \<and> x1 = 16777215 \<and> x0 \<ge> 4294967277"
  proof
    assume "p25519 \<le> lo"
    then show "y9 = 8388607 \<and> x8 = 16777215 \<and> x7 = 16777215 \<and> x6 = 16777215 \<and> x5 = 4294967295 \<and>
      x4 = 16777215 \<and> x3 = 16777215 \<and> x2 = 16777215 \<and> x1 = 16777215 \<and> x0 \<ge> 4294967277"
      using l(3) y(1,2) unfolding lo_def p25519_def by (intro conjI) simp_all
  qed (simp add: lo_def p25519_def)
  then show "fe_noncanonical (fe_load_masked s) \<longleftrightarrow> p25519 \<le> le_val s mod 2 ^ 255"
    unfolding m l(2) y9_def [symmetric] by (auto simp: fe_noncanonical_def)
qed

section \<open>Properties\<close>

text \<open>
  C15.  \<^verbatim>\<open>fe_tobytes\<close> is canonical: for every input within its documented bound $1.1 \cdot 2^{26}$,
  $1.1 \cdot 2^{25}$ (alternating) it writes the 32 little-endian bytes of the one representative
  in $[0, 2^{255} - 19)$, with no 32-bit overflow on the way.
\<close>

theorem fe_tobytes_canonical:
  assumes "fe_bounded 220 h"
  shows "fe_tobytes h = le_bytes 32 (fe_val h mod p25519) \<and> le_val (fe_tobytes h) < p25519"
  using fe_tobytes_value [OF fe_bounded_mono [OF assms]] le_val_field [of "fe_val h"] pos_mod_bound [OF p25519_bounds(1)] by simp

theorem fe_tobytes_canonical_witness:
  "fe_tobytes (fe_neg fe_1) = le_bytes 32 (fe_val (fe_neg fe_1) mod p25519)"
proof -
  have "fe_bounded 220 (fe_neg fe_1)" by (simp add: fe_1_def fe_bounded_def within_def i32_def)
  from fe_tobytes_canonical [OF this] show ?thesis by blast
qed

text \<open>
  C16.  Reading back what was read: a 32-byte string, its sign bit cleared, is accepted by the
  reducedness test of \<^verbatim>\<open>ge_frombytes_vartime\<close> exactly when its value is below $2^{255} - 19$, and then
  \<^verbatim>\<open>fe_tobytes\<close> of the loaded element writes the string back.
\<close>

theorem fe_bytes_roundtrip:
  assumes "length s = 32"
  shows "(fe_noncanonical (fe_load_masked s) \<longleftrightarrow> p25519 \<le> le_val s mod 2 ^ 255) \<and>
    (\<not> fe_noncanonical (fe_load_masked s) \<longrightarrow>
      fe_tobytes (fe_load_carry (fe_load_masked s)) = le_bytes 32 (le_val s mod 2 ^ 255))"
proof -
  note l = fe_load_value(3-5) [OF assms]
  note c = fe_load_carry_correct [OF l(2)]
  have "fe_tobytes (fe_load_carry (fe_load_masked s)) = le_bytes 32 (le_val s mod 2 ^ 255 mod p25519)"
    using fe_tobytes_value [OF fe_bounded_mono [OF c(1)]] c(2) l(1) by simp
  then show ?thesis using l(3) by simp
qed

theorem fe_bytes_roundtrip_witness:
  "fe_noncanonical (fe_load_masked (le_bytes 32 p25519)) \<and>
   fe_tobytes (fe_load_carry (fe_load_masked (le_bytes 32 (2 ^ 255 + p25519 - 1)))) = le_bytes 32 (p25519 - 1)"
  using fe_bytes_roundtrip [of "le_bytes 32 p25519"] fe_bytes_roundtrip [of "le_bytes 32 (2 ^ 255 + p25519 - 1)"]
  by (simp add: le_val_le_bytes p25519_def)

text \<open>
  \<^verbatim>\<open>fe_isnegative\<close> is the parity of the canonical representative and \<^verbatim>\<open>fe_isnonzero\<close> is 0 exactly on
  multiples of $2^{255} - 19$, whatever limbs represent the element.
\<close>

theorem fe_tests_correct:
  assumes "fe_bounded 220 f"
  shows "fe_isnegative f = fe_val f mod p25519 mod 2 \<and>
    fe_isnonzero f = (if fe_val f mod p25519 = 0 then 0 else 1)"
  using fe_isnegative_value [OF fe_bounded_mono [OF assms]] fe_isnonzero_value [OF fe_bounded_mono [OF assms]] by simp

theorem fe_tests_correct_witness:
  "fe_isnegative (fe_neg fe_1) = 0 \<and> fe_isnonzero (fe_neg fe_1) = 1"
proof -
  have "fe_bounded 220 (fe_neg fe_1)" by (simp add: fe_1_def fe_bounded_def within_def i32_def)
  moreover have "fe_val (fe_neg fe_1) = - 1" by (simp add: fe_1_def i32_def)
  ultimately show ?thesis using fe_tests_correct [of "fe_neg fe_1"] by (simp add: p25519_def)
qed

end
