(* ===== verification/Fe_Pow.thy ===== *)
theory Fe_Pow
  imports Fe_Arith
begin

text \<open>
  The exponentiations of \<^verbatim>\<open>src/src/crypto/crypto-ops.c\<close>: \<^verbatim>\<open>fe_invert\<close> and \<^verbatim>\<open>fe_divpowm1\<close> with the addition
  chain \<^verbatim>\<open>fe_pow22523\<close> inside it.  A loop of \<open>n\<close> squarings is \<open>fe_sqn n\<close>.  The locale
  \<open>modular_mult\<close> is the interface of multiplication and squaring on which the chains rest.
\<close>

section \<open>Exponentiation\<close>

definition fe_sqn :: "nat \<Rightarrow> fe \<Rightarrow> fe" where
  "fe_sqn n f = (fe_sq ^^ n) f"

definition fe_invert :: "fe \<Rightarrow> fe" where
  "fe_invert z =
    (let t0 = fe_sq z;
         t1 = fe_sq t0;
         t1 = fe_sq t1;
         t1 = fe_mul z t1;
         t0 = fe_mul t0 t1;
         t2 = fe_sq t0;
         t1 = fe_mul t1 t2;
         t2 = fe_sq t1;
         t2 = fe_sqn 4 t2;
         t1 = fe_mul t2 t1;
         t2 = fe_sq t1;
         t2 = fe_sqn 9 t2;
         t2 = fe_mul t2 t1;
         t3 = fe_sq t2;
         t3 = fe_sqn 19 t3;
         t2 = fe_mul t3 t2;
         t2 = fe_sq t2;
         t2 = fe_sqn 9 t2;
         t1 = fe_mul t2 t1;
         t2 = fe_sq t1;
         t2 = fe_sqn 49 t2;
         t2 = fe_mul t2 t1;
         t3 = fe_sq t2;
         t3 = fe_sqn 99 t3;
         t2 = fe_mul t3 t2;
         t2 = fe_sq t2;
         t2 = fe_sqn 49 t2;
         t1 = fe_mul t2 t1;
         t1 = fe_sq t1;
         t1 = fe_sqn 4 t1
     in fe_mul t1 t0)"

definition fe_pow22523 :: "fe \<Rightarrow> fe" where
  "fe_pow22523 uv7 =
    (let t0 = fe_sq uv7;
         t1 = fe_sq t0;
         t1 = fe_sq t1;
         t1 = fe_mul uv7 t1;
         t0 = fe_mul t0 t1;
         t0 = fe_sq t0;
         t0 = fe_mul t1 t0;
         t1 = fe_sq t0;
         t1 = fe_sqn 4 t1;
         t0 = fe_mul t1 t0;
         t1 = fe_sq t0;
         t1 = fe_sqn 9 t1;
         t1 = fe_mul t1 t0;
         t2 = fe_sq t1;
         t2 = fe_sqn 19 t2;
         t1 = fe_mul t2 t1;
         t1 = fe_sqn 10 t1;
         t0 = fe_mul t1 t0;
         t1 = fe_sq t0;
         t1 = fe_sqn 49 t1;
         t1 = fe_mul t1 t0;
         t2 = fe_sq t1;
         t2 = fe_sqn 99 t2;
         t1 = fe_mul t2 t1;
         t1 = fe_sqn 50 t1;
         t0 = fe_mul t1 t0;
         t0 = fe_sq t0;
         t0 = fe_sq t0
     in fe_mul t0 uv7)"

definition fe_divpowm1 :: "fe \<Rightarrow> fe \<Rightarrow> fe" where
  "fe_divpowm1 u v =
    (let v3 = fe_sq v;
         v3 = fe_mul v3 v;
         uv7 = fe_sq v3;
         uv7 = fe_mul uv7 v;
         uv7 = fe_mul uv7 u;
         t0 = fe_pow22523 uv7;
         t0 = fe_mul t0 v3
     in fe_mul t0 u)"

section \<open>Residues through an interface of multiplication\<close>

text \<open>
  \<open>represents ok val m x f\<close>: the element \<open>f\<close> meets the size bound \<open>ok\<close> and stands for the residue
  of \<open>x\<close>.  The addition chains of \<^verbatim>\<open>fe_invert\<close> and \<^verbatim>\<open>fe_pow22523\<close> and the formulas on curve points
  are followed with one rule per call.
\<close>

definition represents :: "('a \<Rightarrow> bool) \<Rightarrow> ('a \<Rightarrow> int) \<Rightarrow> int \<Rightarrow> int \<Rightarrow> 'a \<Rightarrow> bool" where
  "represents ok val m x f \<longleftrightarrow> ok f \<and> val f mod m = x mod m"

locale modular_mult =
  fixes mul :: "'a \<Rightarrow> 'a \<Rightarrow> 'a" and sq :: "'a \<Rightarrow> 'a" and val :: "'a \<Rightarrow> int" and m :: int
    and ok :: "'a \<Rightarrow> bool" and small :: "'a \<Rightarrow> bool"
  assumes small_ok: "small f \<Longrightarrow> ok f"
    and mul_small: "ok f \<Longrightarrow> ok g \<Longrightarrow> small (mul f g)"
    and mul_val: "ok f \<Longrightarrow> ok g \<Longrightarrow> val (mul f g) mod m = val f * val g mod m"
    and sq_small: "ok f \<Longrightarrow> small (sq f)"
    and sq_val: "ok f \<Longrightarrow> val (sq f) mod m = val f * val f mod m"
begin

lemma rep_ok: "represents small val m x f \<Longrightarrow> represents ok val m x f"
  by (simp add: represents_def small_ok)

lemma rep_mul:
  assumes "represents ok val m x f" "represents ok val m y g"
  shows "represents small val m (x * y) (mul f g)"
proof -
  have "val f * val g mod m = x * y mod m"
    using assms by (intro mod_mult_cong) (simp_all add: represents_def)
  then show ?thesis using assms by (simp add: represents_def mul_small mul_val)
qed

lemma rep_sq:
  assumes "represents ok val m x f"
  shows "represents small val m (x * x) (sq f)"
proof -
  have "val f * val f mod m = x * x mod m"
    using assms by (intro mod_mult_cong) (simp_all add: represents_def)
  then show ?thesis using assms by (simp add: represents_def sq_small sq_val)
qed

lemma pow_mul:
  "represents ok val m (z ^ a) f \<Longrightarrow> represents ok val m (z ^ b) g \<Longrightarrow>
   represents small val m (z ^ (a + b)) (mul f g)"
  unfolding power_add by (rule rep_mul)

lemma pow_sq: "represents ok val m (z ^ a) f \<Longrightarrow> represents small val m (z ^ (2 * a)) (sq f)"
  unfolding mult_2 power_add by (rule rep_sq)

lemma pow_sqn:
  "represents ok val m (z ^ a) f \<Longrightarrow> represents small val m (z ^ (2 ^ Suc n * a)) ((sq ^^ Suc n) f)"
proof (induction n)
  case (Suc n)
  from pow_sq [OF rep_ok [OF Suc.IH [OF Suc.prems]]] show ?case by (simp add: mult.assoc)
qed (simp add: pow_sq)

lemma pow_Let:
  "represents small val m (z ^ a) v \<Longrightarrow> a = a' \<Longrightarrow>
   (\<And>t. represents ok val m (z ^ a') t \<Longrightarrow> represents small val m w (f t)) \<Longrightarrow>
   represents small val m w (let t = v in f t)"
  by (simp add: Let_def rep_ok)

end

interpretation fe_ops: modular_mult fe_mul fe_sq fe_val p25519 "fe_bounded 330" "fe_bounded 101"
  by unfold_locales (simp_all add: fe_bounded_mono fe_mul_value fe_sq_value)

abbreviation fe_is :: "int \<Rightarrow> int \<Rightarrow> fe \<Rightarrow> bool" where
  "fe_is k \<equiv> represents (fe_bounded k) fe_val p25519"

lemma fe_is_self: "fe_bounded k f \<Longrightarrow> fe_is k (fe_val f) f"
  by (simp add: represents_def)

lemma fe_is_mono: "fe_is j x f \<Longrightarrow> j \<le> k \<Longrightarrow> fe_is k x f"
  by (auto simp: represents_def fe_bounded_mono)

lemma fe_is_cong: "fe_is k x f \<Longrightarrow> x mod p25519 = y mod p25519 \<Longrightarrow> fe_is k y f"
  by (simp add: represents_def)

lemma fe_is_add: "fe_is j x f \<Longrightarrow> fe_is k y g \<Longrightarrow> j + k \<le> 6000 \<Longrightarrow> fe_is (j + k) (x + y) (fe_add f g)"
  and fe_is_sub: "fe_is j x f \<Longrightarrow> fe_is k y g \<Longrightarrow> j + k \<le> 6000 \<Longrightarrow> fe_is (j + k) (x - y) (fe_sub f g)"
  unfolding represents_def using fe_add_bounded [of j f k g] by (auto intro: mod_add_cong mod_diff_cong)

lemma fe_is_neg: "fe_is k x f \<Longrightarrow> k \<le> 6000 \<Longrightarrow> fe_is k (- x) (fe_neg f)"
  unfolding represents_def using fe_neg_bounded [of k f] by (metis mod_minus_eq)

lemma fe_is_sq2: "fe_is 330 x f \<Longrightarrow> fe_is 101 (2 * (x * x)) (fe_sq2 f)"
  unfolding represents_def using fe_sq2_value [of f] by (auto intro: mod_mult_cong)

lemma fe_is_1: "fe_is 1 1 fe_1" and fe_is_0: "fe_is 0 0 fe_0"
  by (simp_all add: represents_def)

section \<open>The addition chains\<close>

lemma pow_fe_sqn: "fe_is 330 (z ^ a) f \<Longrightarrow> 0 < n \<Longrightarrow> fe_is 101 (z ^ (2 ^ n * a)) (fe_sqn n f)"
  using fe_ops.pow_sqn [of z a f "n - 1"] by (simp add: fe_sqn_def)

lemmas pow_rules = fe_ops.pow_Let fe_ops.pow_mul fe_ops.pow_sq pow_fe_sqn

lemma fe_invert_pow:
  assumes "fe_is 330 (x ^ 1) z"
  shows "fe_is 101 (x ^ (2 ^ 255 - 21)) (fe_invert z)"
proof -
  have "\<exists>n. fe_is 101 (x ^ n) (fe_invert z) \<and> n = 2 ^ 255 - 21"
    unfolding fe_invert_def by (rule exI, rule conjI, (rule pow_rules assms | assumption | simp)+)
  then show ?thesis by blast
qed

lemma fe_pow22523_pow:
  assumes "fe_is 330 (x ^ 1) z"
  shows "fe_is 101 (x ^ (2 ^ 252 - 3)) (fe_pow22523 z)"
proof -
  have "\<exists>n. fe_is 101 (x ^ n) (fe_pow22523 z) \<and> n = 2 ^ 252 - 3"
    unfolding fe_pow22523_def by (rule exI, rule conjI, (rule pow_rules assms | assumption | simp)+)
  then show ?thesis by blast
qed

lemma fe_divpowm1_is:
  assumes u: "fe_is 330 x u" and v: "fe_is 330 y v"
  shows "fe_is 101 ((x * y ^ 7) ^ (2 ^ 252 - 3) * y ^ 3 * x) (fe_divpowm1 u v)"
proof -
  note m = fe_is_mono [of 101 _ _ 330]
  define v3 where "v3 = fe_mul (fe_sq v) v"
  define uv7 where "uv7 = fe_mul (fe_mul (fe_sq v3) v) u"
  have v3: "fe_is 330 (y ^ 3) v3"
    using fe_ops.rep_mul [OF m [OF fe_ops.rep_sq [OF v]] v] by (simp add: v3_def power3_eq_cube m)
  have p: "y ^ 3 * y ^ 3 * y * x = (x * y ^ 7) ^ 1" by algebra
  have "fe_is 101 (y ^ 3 * y ^ 3 * y * x) uv7"
    unfolding uv7_def by (intro fe_ops.rep_mul m fe_ops.rep_sq v3 u v) simp_all
  then have uv7: "fe_is 330 ((x * y ^ 7) ^ 1) uv7" unfolding p by (rule m) simp
  have e: "fe_divpowm1 u v = fe_mul (fe_mul (fe_pow22523 uv7) v3) u"
    by (simp add: fe_divpowm1_def Let_def v3_def uv7_def)
  show ?thesis
    unfolding e using fe_ops.rep_mul [OF m [OF fe_ops.rep_mul [OF m [OF fe_pow22523_pow [OF uv7]] v3]] u] by simp
qed

section \<open>Properties\<close>

text \<open>
  C28.  \<^verbatim>\<open>fe_invert\<close> raises to the power $p - 2$ for $p = 2^{255} - 19$ and \<^verbatim>\<open>fe_divpowm1\<close> computes
  $u v^3 (u v^7)^{(p - 5) / 8}$, modulo $p$, for every input within the bound that \<^verbatim>\<open>fe_mul\<close>
  documents; the results are within the output bound of \<^verbatim>\<open>fe_mul\<close>.
\<close>

theorem fe_powers_correct:
  assumes "fe_bounded 330 u" "fe_bounded 330 v"
  shows "fe_bounded 101 (fe_invert v) \<and> fe_bounded 101 (fe_divpowm1 u v) \<and>
    fe_val (fe_invert v) mod p25519 = fe_val v ^ nat (p25519 - 2) mod p25519 \<and>
    fe_val (fe_divpowm1 u v) mod p25519 =
      (fe_val u * fe_val v ^ 7) ^ nat ((p25519 - 5) div 8) * fe_val v ^ 3 * fe_val u mod p25519"
proof -
  have e: "nat (p25519 - 2) = 2 ^ 255 - 21" "nat ((p25519 - 5) div 8) = 2 ^ 252 - 3" by (simp_all add: p25519_def)
  have "fe_is 330 (fe_val v ^ 1) v" using fe_is_self [OF assms(2)] by simp
  from fe_invert_pow [OF this] fe_divpowm1_is [OF fe_is_self [OF assms(1)] fe_is_self [OF assms(2)]]
  show ?thesis unfolding e represents_def by blast
qed

theorem fe_powers_correct_witness:
  "fe_val (fe_invert fe_big) mod p25519 = fe_val fe_big ^ nat (p25519 - 2) mod p25519"
proof -
  have "fe_bounded 330 fe_big" by (simp add: fe_big_def fe_bounded_def within_def)
  from fe_powers_correct [OF this this] show ?thesis by blast
qed

end
