(* ===== verification/Ge_Arith.thy ===== *)
theory Ge_Arith
  imports Fe_Pow
begin

text \<open>
  Curve points of \<^verbatim>\<open>src/src/crypto/crypto-ops.c\<close> in their five representations, and the operations that
  add, subtract, double and convert them.  Each operation is shown to compute the extended twisted
  Edwards formulas on residues modulo $2^{255} - 19$, with every intermediate limb within the bounds
  the field operations ask for, and the formulas are shown to stay on the curve.
\<close>

section \<open>Representations of a point\<close>

record ge_p2 =
  X2 :: fe
  Y2 :: fe
  Z2 :: fe

record ge_p3 =
  X3 :: fe
  Y3 :: fe
  Z3 :: fe
  T3 :: fe

record ge_p1p1 =
  X1 :: fe
  Y1 :: fe
  Z1 :: fe
  T1 :: fe

record ge_precomp =
  yplusx :: fe
  yminusx :: fe
  xy2d :: fe

record ge_cached =
  YplusX :: fe
  YminusX :: fe
  Zc :: fe
  T2d :: fe

section \<open>Constants\<close>

definition fe_d :: fe where
  "fe_d = Fe (- 10913610) 13857413 (- 15372611) 6949391 114729 (- 8787816) (- 6275908) (- 3247719) (- 18696448) (- 12055116)"

definition fe_sqrtm1 :: fe where
  "fe_sqrtm1 = Fe (- 32595792) (- 7943725) 9377950 3500415 12389472 (- 272473) (- 25146209) (- 2005654) 326686 11406482"

definition fe_d2 :: fe where
  "fe_d2 = Fe (- 21827239) (- 5839606) (- 30745221) 13898782 229458 15978800 (- 12551817) (- 6495438) 29715968 9444199"

section \<open>Operations\<close>

definition ge_add :: "ge_p3 \<Rightarrow> ge_cached \<Rightarrow> ge_p1p1" where
  "ge_add p q =
    (let rX = fe_add (Y3 p) (X3 p);
         rY = fe_sub (Y3 p) (X3 p);
         rZ = fe_mul rX (YplusX q);
         rY = fe_mul rY (YminusX q);
         rT = fe_mul (T2d q) (T3 p);
         rX = fe_mul (Z3 p) (Zc q);
         t0 = fe_add rX rX;
         rX = fe_sub rZ rY;
         rY = fe_add rZ rY;
         rZ = fe_add t0 rT;
         rT = fe_sub t0 rT
     in \<lparr>X1 = rX, Y1 = rY, Z1 = rZ, T1 = rT\<rparr>)"

definition ge_sub :: "ge_p3 \<Rightarrow> ge_cached \<Rightarrow> ge_p1p1" where
  "ge_sub p q =
    (let rX = fe_add (Y3 p) (X3 p);
         rY = fe_sub (Y3 p) (X3 p);
         rZ = fe_mul rX (YminusX q);
         rY = fe_mul rY (YplusX q);
         rT = fe_mul (T2d q) (T3 p);
         rX = fe_mul (Z3 p) (Zc q);
         t0 = fe_add rX rX;
         rX = fe_sub rZ rY;
         rY = fe_add rZ rY;
         rZ = fe_sub t0 rT;
         rT = fe_add t0 rT
     in \<lparr>X1 = rX, Y1 = rY, Z1 = rZ, T1 = rT\<rparr>)"

text \<open>
  In \<^verbatim>\<open>ge_sub\<close> and \<^verbatim>\<open>ge_msub\<close> the last two lines read the old \<^verbatim>\<open>r->T\<close>: \<^verbatim>\<open>r->Z\<close> is written first and does
  not change it.
\<close>

definition ge_madd :: "ge_p3 \<Rightarrow> ge_precomp \<Rightarrow> ge_p1p1" where
  "ge_madd p q =
    (let rX = fe_add (Y3 p) (X3 p);
         rY = fe_sub (Y3 p) (X3 p);
         rZ = fe_mul rX (yplusx q);
         rY = fe_mul rY (yminusx q);
         rT = fe_mul (xy2d q) (T3 p);
         t0 = fe_add (Z3 p) (Z3 p);
         rX = fe_sub rZ rY;
         rY = fe_add rZ rY;
         rZ = fe_add t0 rT;
         rT = fe_sub t0 rT
     in \<lparr>X1 = rX, Y1 = rY, Z1 = rZ, T1 = rT\<rparr>)"

definition ge_msub :: "ge_p3 \<Rightarrow> ge_precomp \<Rightarrow> ge_p1p1" where
  "ge_msub p q =
    (let rX = fe_add (Y3 p) (X3 p);
         rY = fe_sub (Y3 p) (X3 p);
         rZ = fe_mul rX (yminusx q);
         rY = fe_mul rY (yplusx q);
         rT = fe_mul (xy2d q) (T3 p);
         t0 = fe_add (Z3 p) (Z3 p);
         rX = fe_sub rZ rY;
         rY = fe_add rZ rY;
         rZ = fe_sub t0 rT;
         rT = fe_add t0 rT
     in \<lparr>X1 = rX, Y1 = rY, Z1 = rZ, T1 = rT\<rparr>)"

definition ge_p1p1_to_p2 :: "ge_p1p1 \<Rightarrow> ge_p2" where
  "ge_p1p1_to_p2 p =
     \<lparr>X2 = fe_mul (X1 p) (T1 p), Y2 = fe_mul (Y1 p) (Z1 p), Z2 = fe_mul (Z1 p) (T1 p)\<rparr>"

definition ge_p1p1_to_p3 :: "ge_p1p1 \<Rightarrow> ge_p3" where
  "ge_p1p1_to_p3 p =
     \<lparr>X3 = fe_mul (X1 p) (T1 p), Y3 = fe_mul (Y1 p) (Z1 p), Z3 = fe_mul (Z1 p) (T1 p), T3 = fe_mul (X1 p) (Y1 p)\<rparr>"

definition ge_p2_0 :: ge_p2 where
  "ge_p2_0 = \<lparr>X2 = fe_0, Y2 = fe_1, Z2 = fe_1\<rparr>"

definition ge_p2_dbl :: "ge_p2 \<Rightarrow> ge_p1p1" where
  "ge_p2_dbl p =
    (let rX = fe_sq (X2 p);
         rZ = fe_sq (Y2 p);
         rT = fe_sq2 (Z2 p);
         rY = fe_add (X2 p) (Y2 p);
         t0 = fe_sq rY;
         rY = fe_add rZ rX;
         rZ = fe_sub rZ rX;
         rX = fe_sub t0 rY;
         rT = fe_sub rT rZ
     in \<lparr>X1 = rX, Y1 = rY, Z1 = rZ, T1 = rT\<rparr>)"

definition ge_p3_0 :: ge_p3 where
  "ge_p3_0 = \<lparr>X3 = fe_0, Y3 = fe_1, Z3 = fe_1, T3 = fe_0\<rparr>"

definition ge_p3_to_p2 :: "ge_p3 \<Rightarrow> ge_p2" where
  "ge_p3_to_p2 p = \<lparr>X2 = fe_copy (X3 p), Y2 = fe_copy (Y3 p), Z2 = fe_copy (Z3 p)\<rparr>"

definition ge_p3_dbl :: "ge_p3 \<Rightarrow> ge_p1p1" where
  "ge_p3_dbl p = ge_p2_dbl (ge_p3_to_p2 p)"

definition ge_p3_to_cached :: "ge_p3 \<Rightarrow> ge_cached" where
  "ge_p3_to_cached p =
     \<lparr>YplusX = fe_add (Y3 p) (X3 p), YminusX = fe_sub (Y3 p) (X3 p), Zc = fe_copy (Z3 p), T2d = fe_mul (T3 p) fe_d2\<rparr>"

definition ge_precomp_0 :: ge_precomp where
  "ge_precomp_0 = \<lparr>yplusx = fe_1, yminusx = fe_1, xy2d = fe_0\<rparr>"

definition ge_cached_0 :: ge_cached where
  "ge_cached_0 = \<lparr>YplusX = fe_1, YminusX = fe_1, Zc = fe_1, T2d = fe_0\<rparr>"

definition ge_mul8 :: "ge_p2 \<Rightarrow> ge_p1p1" where
  "ge_mul8 t =
    (let r = ge_p2_dbl t;
         u = ge_p1p1_to_p2 r;
         r = ge_p2_dbl u;
         u = ge_p1p1_to_p2 r
     in ge_p2_dbl u)"

section \<open>The formulas\<close>

text \<open>
  A point in extended coordinates as four integers $(X, Y, Z, T)$, standing for
  $x = X / Z$, $y = Y / Z$ with $X Y = Z T$ modulo $2^{255} - 19$.  \<open>add_c\<close> and \<open>dbl_c\<close> are the
  unified addition and the doubling of $-x^2 + y^2 = 1 + d x^2 y^2$ in completed coordinates
  ($x = X / Z$, $y = Y / T$) and \<open>extend\<close> brings these back to extended ones.
\<close>

type_synonym ext = "int \<times> int \<times> int \<times> int"

definition curve_d :: int where
  "curve_d = fe_val fe_d"

fun add_c :: "ext \<Rightarrow> ext \<Rightarrow> ext" where
  "add_c (X, Y, Z, T) (X', Y', Z', T') =
     (2 * (X * Y' + Y * X'), 2 * (Y * Y' + X * X'), 2 * (Z * Z' + curve_d * T * T'), 2 * (Z * Z' - curve_d * T * T'))"

fun dbl_c :: "ext \<Rightarrow> ext" where
  "dbl_c (X, Y, Z, T) = (2 * X * Y, Y ^ 2 + X ^ 2, Y ^ 2 - X ^ 2, 2 * Z ^ 2 - (Y ^ 2 - X ^ 2))"

fun extend :: "ext \<Rightarrow> ext" where
  "extend (X, Y, Z, T) = (X * T, Y * Z, Z * T, X * Y)"

fun neg_pt :: "ext \<Rightarrow> ext" where
  "neg_pt (X, Y, Z, T) = (- X, Y, Z, - T)"

definition pt_0 :: ext where
  "pt_0 = (0, 1, 1, 0)"

definition add_pt :: "ext \<Rightarrow> ext \<Rightarrow> ext" where
  "add_pt P Q = extend (add_c P Q)"

definition dbl_pt :: "ext \<Rightarrow> ext" where
  "dbl_pt P = extend (dbl_c P)"

section \<open>Which limbs stand for which point\<close>

fun is_p3 :: "ext \<Rightarrow> ge_p3 \<Rightarrow> bool" where
  "is_p3 (X, Y, Z, T) p \<longleftrightarrow> fe_is 110 X (X3 p) \<and> fe_is 110 Y (Y3 p) \<and> fe_is 110 Z (Z3 p) \<and> fe_is 110 T (T3 p)"

fun is_p2 :: "ext \<Rightarrow> ge_p2 \<Rightarrow> bool" where
  "is_p2 (X, Y, Z, T) p \<longleftrightarrow> fe_is 110 X (X2 p) \<and> fe_is 110 Y (Y2 p) \<and> fe_is 110 Z (Z2 p)"

fun is_p1p1 :: "ext \<Rightarrow> ge_p1p1 \<Rightarrow> bool" where
  "is_p1p1 (X, Y, Z, T) p \<longleftrightarrow> fe_is 330 X (X1 p) \<and> fe_is 330 Y (Y1 p) \<and> fe_is 330 Z (Z1 p) \<and> fe_is 330 T (T1 p)"

fun is_cached :: "ext \<Rightarrow> ge_cached \<Rightarrow> bool" where
  "is_cached (X, Y, Z, T) q \<longleftrightarrow> fe_is 220 (Y + X) (YplusX q) \<and> fe_is 220 (Y - X) (YminusX q) \<and>
     fe_is 110 Z (Zc q) \<and> fe_is 110 (2 * curve_d * T) (T2d q)"

fun is_precomp :: "ext \<Rightarrow> ge_precomp \<Rightarrow> bool" where
  "is_precomp (X, Y, Z, T) q \<longleftrightarrow> fe_is 110 (Y + X) (yplusx q) \<and> fe_is 110 (Y - X) (yminusx q) \<and>
     Z = 1 \<and> fe_is 110 (2 * curve_d * T) (xy2d q)"

section \<open>One rule per call\<close>

lemma is_mul: "fe_is j x f \<Longrightarrow> fe_is k y g \<Longrightarrow> j \<le> 330 \<Longrightarrow> k \<le> 330 \<Longrightarrow> fe_is 101 (x * y) (fe_mul f g)"
  by (rule fe_ops.rep_mul; erule fe_is_mono)

lemma is_sq: "fe_is j x f \<Longrightarrow> j \<le> 330 \<Longrightarrow> fe_is 101 (x * x) (fe_sq f)"
  by (rule fe_ops.rep_sq; erule fe_is_mono)

lemma is_sq2: "fe_is j x f \<Longrightarrow> j \<le> 330 \<Longrightarrow> fe_is 101 (2 * (x * x)) (fe_sq2 f)"
  by (rule fe_is_sq2; erule fe_is_mono)

lemma is_copy: "fe_is j x f \<Longrightarrow> fe_is j x (fe_copy f)"
  by simp

lemmas fe_rules = is_mul is_sq is_sq2 is_copy fe_is_add fe_is_sub fe_is_neg

text \<open>A component of a result: bound and value may be given in another form.\<close>

lemma is_as: "fe_is j x f \<Longrightarrow> j \<le> k \<Longrightarrow> x = y \<Longrightarrow> fe_is k y f"
  using fe_is_mono by blast

lemma d2_is: "fe_is 110 (2 * curve_d) fe_d2"
  by (simp add: represents_def fe_d2_def fe_d_def curve_d_def fe_bounded_def within_def p25519_def)

lemma d_is: "fe_is 110 curve_d fe_d"
  by (simp add: represents_def fe_d_def curve_d_def fe_bounded_def within_def)

lemma ge_add_is:
  assumes "is_p3 P p" "is_cached Q q"
  shows "is_p1p1 (add_c P Q) (ge_add p q)" "is_p1p1 (add_c P (neg_pt Q)) (ge_sub p q)"
proof -
  obtain X Y Z T X' Y' Z' T' where e: "P = (X, Y, Z, T)" "Q = (X', Y', Z', T')" by (metis prod.collapse)
  have p: "fe_is 110 X (X3 p)" "fe_is 110 Y (Y3 p)" "fe_is 110 Z (Z3 p)" "fe_is 110 T (T3 p)"
    and q: "fe_is 220 (Y' + X') (YplusX q)" "fe_is 220 (Y' - X') (YminusX q)" "fe_is 110 Z' (Zc q)"
      "fe_is 110 (2 * curve_d * T') (T2d q)"
    using assms by (simp_all add: e)
  show "is_p1p1 (add_c P Q) (ge_add p q)"
    unfolding e add_c.simps is_p1p1.simps ge_add_def Let_def ge_p1p1.simps
    by (intro conjI, (rule fe_rules p q | rule is_as | (simp; fail) | algebra)+)
  show "is_p1p1 (add_c P (neg_pt Q)) (ge_sub p q)"
    unfolding e neg_pt.simps add_c.simps is_p1p1.simps ge_sub_def Let_def ge_p1p1.simps
    by (intro conjI, (rule fe_rules p q | rule is_as | (simp; fail) | algebra)+)
qed

lemma ge_madd_is:
  assumes "is_p3 P p" "is_precomp Q q"
  shows "is_p1p1 (add_c P Q) (ge_madd p q)" "is_p1p1 (add_c P (neg_pt Q)) (ge_msub p q)"
proof -
  obtain X Y Z T X' Y' Z' T' where e: "P = (X, Y, Z, T)" "Q = (X', Y', Z', T')" by (metis prod.collapse)
  have p: "fe_is 110 X (X3 p)" "fe_is 110 Y (Y3 p)" "fe_is 110 Z (Z3 p)" "fe_is 110 T (T3 p)"
    and q: "fe_is 110 (Y' + X') (yplusx q)" "fe_is 110 (Y' - X') (yminusx q)" "fe_is 110 (2 * curve_d * T') (xy2d q)"
    and z: "Z' = 1"
    using assms by (simp_all add: e)
  show "is_p1p1 (add_c P Q) (ge_madd p q)"
    unfolding e z add_c.simps is_p1p1.simps ge_madd_def Let_def ge_p1p1.simps
    by (intro conjI, (rule fe_rules p q | rule is_as | (simp; fail) | algebra)+)
  show "is_p1p1 (add_c P (neg_pt Q)) (ge_msub p q)"
    unfolding e z neg_pt.simps add_c.simps is_p1p1.simps ge_msub_def Let_def ge_p1p1.simps
    by (intro conjI, (rule fe_rules p q | rule is_as | (simp; fail) | algebra)+)
qed

lemma ge_p1p1_is:
  assumes "is_p1p1 P p"
  shows "is_p3 (extend P) (ge_p1p1_to_p3 p)" "is_p2 (extend P) (ge_p1p1_to_p2 p)"
proof -
  obtain X Y Z T where e: "P = (X, Y, Z, T)" by (metis prod.collapse)
  have p: "fe_is 330 X (X1 p)" "fe_is 330 Y (Y1 p)" "fe_is 330 Z (Z1 p)" "fe_is 330 T (T1 p)"
    using assms by (simp_all add: e)
  show "is_p3 (extend P) (ge_p1p1_to_p3 p)" "is_p2 (extend P) (ge_p1p1_to_p2 p)"
    unfolding e extend.simps is_p3.simps is_p2.simps ge_p1p1_to_p3_def ge_p1p1_to_p2_def ge_p3.simps ge_p2.simps
    by (intro conjI, (rule fe_rules p | rule is_as | (simp; fail))+)+
qed

text \<open>Doubling also takes the wider \<^verbatim>\<open>Y\<close> and \<^verbatim>\<open>Z\<close> that come from a single addition.\<close>

lemma ge_p2_dbl_wide:
  assumes p: "fe_is 110 X (X2 p)" "fe_is 220 Y (Y2 p)" "fe_is 220 Z (Z2 p)"
  shows "is_p1p1 (dbl_c (X, Y, Z, T)) (ge_p2_dbl p)"
  unfolding dbl_c.simps is_p1p1.simps ge_p2_dbl_def Let_def ge_p1p1.simps
  by (intro conjI, (rule fe_rules p | rule is_as | (simp; fail) | algebra)+)

lemma ge_p2_dbl_is: "is_p2 P p \<Longrightarrow> is_p1p1 (dbl_c P) (ge_p2_dbl p)"
proof -
  assume h: "is_p2 P p"
  obtain X Y Z T where e: "P = (X, Y, Z, T)" by (metis prod.collapse)
  show ?thesis unfolding e by (rule ge_p2_dbl_wide) (use h in \<open>auto simp: e elim: fe_is_mono\<close>)
qed

lemma ge_p3_to_is:
  assumes "is_p3 P p"
  shows "is_p2 P (ge_p3_to_p2 p)" "is_cached P (ge_p3_to_cached p)"
proof -
  obtain X Y Z T where e: "P = (X, Y, Z, T)" by (metis prod.collapse)
  have p: "fe_is 110 X (X3 p)" "fe_is 110 Y (Y3 p)" "fe_is 110 Z (Z3 p)" "fe_is 110 T (T3 p)"
    using assms by (simp_all add: e)
  then show "is_p2 P (ge_p3_to_p2 p)" by (simp add: e ge_p3_to_p2_def)
  show "is_cached P (ge_p3_to_cached p)"
    unfolding e is_cached.simps ge_p3_to_cached_def ge_cached.simps
    by (intro conjI, (rule fe_rules p d2_is | rule is_as | (simp; fail))+)
qed

lemma ge_p3_dbl_is: "is_p3 P p \<Longrightarrow> is_p1p1 (dbl_c P) (ge_p3_dbl p)"
  unfolding ge_p3_dbl_def by (intro ge_p2_dbl_is ge_p3_to_is)

lemma ge_0_is: "is_p2 pt_0 ge_p2_0" "is_p3 pt_0 ge_p3_0" "is_precomp pt_0 ge_precomp_0" "is_cached pt_0 ge_cached_0"
  by (simp_all add: pt_0_def ge_p2_0_def ge_p3_0_def ge_precomp_0_def ge_cached_0_def represents_def)

text \<open>The two-step forms used by every loop: an operation followed by its conversion.\<close>

lemma ge_steps:
  "is_p3 P p \<Longrightarrow> is_cached Q q \<Longrightarrow> is_p3 (add_pt P Q) (ge_p1p1_to_p3 (ge_add p q))"
  "is_p3 P p \<Longrightarrow> is_cached Q q \<Longrightarrow> is_p2 (add_pt P Q) (ge_p1p1_to_p2 (ge_add p q))"
  "is_p3 P p \<Longrightarrow> is_precomp Q r \<Longrightarrow> is_p3 (add_pt P Q) (ge_p1p1_to_p3 (ge_madd p r))"
  "is_p2 P s \<Longrightarrow> is_p2 (dbl_pt P) (ge_p1p1_to_p2 (ge_p2_dbl s))"
  "is_p2 P s \<Longrightarrow> is_p3 (dbl_pt P) (ge_p1p1_to_p3 (ge_p2_dbl s))"
  "is_p3 P p \<Longrightarrow> is_p2 (dbl_pt P) (ge_p1p1_to_p2 (ge_p3_dbl p))"
  "is_p3 P p \<Longrightarrow> is_p3 (dbl_pt P) (ge_p1p1_to_p3 (ge_p3_dbl p))"
  "is_p3 P p \<Longrightarrow> is_cached Q q \<Longrightarrow> is_p3 (add_pt P (neg_pt Q)) (ge_p1p1_to_p3 (ge_sub p q))"
  "is_p3 P p \<Longrightarrow> is_precomp Q r \<Longrightarrow> is_p3 (add_pt P (neg_pt Q)) (ge_p1p1_to_p3 (ge_msub p r))"
  unfolding add_pt_def dbl_pt_def
  by (intro ge_p1p1_is ge_add_is ge_madd_is ge_p2_dbl_is ge_p3_dbl_is; assumption)+

lemma ge_mul8_is: "is_p2 P t \<Longrightarrow> is_p1p1 (dbl_c (dbl_pt (dbl_pt P))) (ge_mul8 t)"
  unfolding ge_mul8_def Let_def by (intro ge_p2_dbl_is ge_steps)

section \<open>The curve\<close>

text \<open>
  The curve in extended coordinates: $X Y = Z T$ and $Y^2 - X^2 = Z^2 + d T^2$ modulo
  $p = 2^{255} - 19$.  Addition and doubling stay on the curve; the defect of the result is a
  combination of the defects \<open>e\<close>, \<open>f\<close> of the operands.
\<close>

fun on_curve :: "ext \<Rightarrow> bool" where
  "on_curve (X, Y, Z, T) \<longleftrightarrow> p25519 dvd X * Y - Z * T \<and> p25519 dvd (Y ^ 2 - X ^ 2) - (Z ^ 2 + curve_d * T ^ 2)"

text \<open>Congruences between large numerals, certified by the quotient.\<close>

lemmas nums = arith_simps of_nat_numeral mult_numeral_1 power_numeral Num.pow.simps Num.sqr.simps

lemma congI: "a + 19 * q = b + 2 ^ 255 * q \<Longrightarrow> a mod p25519 = b mod p25519"
proof -
  assume "a + 19 * q = b + 2 ^ 255 * q"
  then have "a = b + p25519 * q" by (simp add: p25519_def algebra_simps)
  then show ?thesis by simp
qed

lemma dvd_certI: "a = (2 ^ 255) * q - 19 * q \<Longrightarrow> p25519 dvd a"
  by (simp add: p25519_def)

lemma curve_constants:
  "curve_d * 121666 mod p25519 = - 121665 mod p25519"
  "fe_val fe_sqrtm1 * fe_val fe_sqrtm1 mod p25519 = - 1 mod p25519"
  "fe_bounded 110 fe_sqrtm1"
  by (simp_all add: curve_d_def fe_d_def fe_sqrtm1_def p25519_def fe_bounded_def within_def)

lemma add_defect:
  fixes d x1 y1 z1 t1 x2 y2 z2 t2 e1 e2 f1 f2 A B C D :: int
  assumes e: "e1 = (y1 ^ 2 - x1 ^ 2) - (z1 ^ 2 + d * t1 ^ 2)" "e2 = (y2 ^ 2 - x2 ^ 2) - (z2 ^ 2 + d * t2 ^ 2)"
    and f: "f1 = x1 * y1 - z1 * t1" "f2 = x2 * y2 - z2 * t2"
    and A: "A = x1 * y2 + y1 * x2" "B = y1 * y2 + x1 * x2" "C = z1 * z2 + d * t1 * t2" "D = z1 * z2 - d * t1 * t2"
  shows "(B * C) ^ 2 - (A * D) ^ 2 - ((C * D) ^ 2 + d * (A * B) ^ 2) =
    e1 * ((z1 ^ 2 * z2 ^ 2 + d ^ 2 * t1 ^ 2 * t2 ^ 2) * (y2 ^ 2 - x2 ^ 2)
          - d * (z2 * t2) ^ 2 * ((y1 ^ 2 - x1 ^ 2) + (z1 ^ 2 + d * t1 ^ 2)))
    + e2 * ((z1 ^ 2 * z2 ^ 2 + d ^ 2 * t1 ^ 2 * t2 ^ 2) * (z1 ^ 2 + d * t1 ^ 2)
          - d * (z1 * t1) ^ 2 * ((y2 ^ 2 - x2 ^ 2) + (z2 ^ 2 + d * t2 ^ 2)))
    + (f1 * (x2 * y2) + z1 * t1 * f2) * (8 * d * z1 * z2 * t1 * t2 - 2 * d * (x1 ^ 2 + y1 ^ 2) * (x2 ^ 2 + y2 ^ 2)
          - 8 * d * (x1 * y1 * (x2 * y2) + z1 * t1 * (z2 * t2)))
    - d * f1 * (x1 * y1 + z1 * t1) * (y2 ^ 2 - x2 ^ 2) ^ 2
    - d * f2 * (x2 * y2 + z2 * t2) * (y1 ^ 2 - x1 ^ 2) ^ 2"
  unfolding assms by algebra

lemma dbl_defect:
  fixes d X Y Z T e f A B C D :: int
  assumes "e = (Y ^ 2 - X ^ 2) - (Z ^ 2 + d * T ^ 2)" and "f = X * Y - Z * T"
    and "A = 2 * X * Y" and "B = Y ^ 2 + X ^ 2" and "C = Y ^ 2 - X ^ 2" and "D = 2 * Z ^ 2 - (Y ^ 2 - X ^ 2)"
  shows "(B * C) ^ 2 - (A * D) ^ 2 - ((C * D) ^ 2 + d * (A * B) ^ 2) =
    4 * B ^ 2 * (e * Z ^ 2 - d * f * (X * Y + Z * T))"
  unfolding assms by algebra

lemma dvd_combination:
  fixes p :: int
  assumes "p dvd e1" "p dvd e2" "p dvd f1" "p dvd f2"
  shows "p dvd e1 * a + e2 * b + (f1 * c + g * f2) * h - d * f1 * i * j - d * f2 * k * l"
  using assms by (intro dvd_add dvd_diff dvd_mult2 dvd_mult)

lemma on_curve_scaled:
  assumes "p25519 dvd (B * C) ^ 2 - (A * D) ^ 2 - ((C * D) ^ 2 + curve_d * (A * B) ^ 2)"
  shows "on_curve (k * (A * D), k * (B * C), k * (C * D), k * (A * B))"
proof -
  have "k * (A * D) * (k * (B * C)) - k * (C * D) * (k * (A * B)) = 0" by algebra
  moreover have "(k * (B * C)) ^ 2 - (k * (A * D)) ^ 2 - ((k * (C * D)) ^ 2 + curve_d * (k * (A * B)) ^ 2) =
    k ^ 2 * ((B * C) ^ 2 - (A * D) ^ 2 - ((C * D) ^ 2 + curve_d * (A * B) ^ 2))" by algebra
  ultimately show ?thesis using assms by (simp only: on_curve.simps dvd_0_right dvd_mult)
qed

lemma on_curve_add:
  assumes "on_curve P" "on_curve Q"
  shows "on_curve (add_pt P Q)"
proof -
  obtain X Y Z T X' Y' Z' T' where e: "P = (X, Y, Z, T)" "Q = (X', Y', Z', T')" by (metis prod.collapse)
  have h: "p25519 dvd X * Y - Z * T" "p25519 dvd (Y ^ 2 - X ^ 2) - (Z ^ 2 + curve_d * T ^ 2)"
    "p25519 dvd X' * Y' - Z' * T'" "p25519 dvd (Y' ^ 2 - X' ^ 2) - (Z' ^ 2 + curve_d * T' ^ 2)"
    using assms by (simp_all add: e)
  define A B C D where A: "A = X * Y' + Y * X'" "B = Y * Y' + X * X'" "C = Z * Z' + curve_d * T * T'" "D = Z * Z' - curve_d * T * T'"
  have "p25519 dvd (B * C) ^ 2 - (A * D) ^ 2 - ((C * D) ^ 2 + curve_d * (A * B) ^ 2)"
    unfolding add_defect [OF refl refl refl refl A] by (rule dvd_combination) (rule h)+
  moreover have "add_pt P Q = (4 * (A * D), 4 * (B * C), 4 * (C * D), 4 * (A * B))"
    unfolding e add_pt_def add_c.simps extend.simps A [symmetric] by simp
  ultimately show ?thesis by (simp only: on_curve_scaled)
qed

lemma on_curve_dbl:
  assumes "on_curve P"
  shows "on_curve (dbl_pt P)"
proof -
  obtain X Y Z T where e: "P = (X, Y, Z, T)" by (metis prod.collapse)
  have h: "p25519 dvd X * Y - Z * T" "p25519 dvd (Y ^ 2 - X ^ 2) - (Z ^ 2 + curve_d * T ^ 2)"
    using assms by (simp_all add: e)
  define A B C D where A: "A = 2 * X * Y" "B = Y ^ 2 + X ^ 2" "C = Y ^ 2 - X ^ 2" "D = 2 * Z ^ 2 - (Y ^ 2 - X ^ 2)"
  have "p25519 dvd e * Z ^ 2 - curve_d * f * (X * Y + Z * T)" if "p25519 dvd e" "p25519 dvd f" for e f
    using that by (intro dvd_diff dvd_mult2 dvd_mult)
  then have "p25519 dvd (B * C) ^ 2 - (A * D) ^ 2 - ((C * D) ^ 2 + curve_d * (A * B) ^ 2)"
    unfolding dbl_defect [OF refl refl A, of curve_d T] using h by (intro dvd_mult)
  from on_curve_scaled [OF this, of 1] have "on_curve (A * D, B * C, C * D, A * B)" by (simp only: mult_1)
  then show ?thesis unfolding e dbl_pt_def dbl_c.simps extend.simps A .
qed

lemma on_curve_neg:
  assumes "on_curve P"
  shows "on_curve (neg_pt P)"
proof -
  obtain X Y Z T where e: "P = (X, Y, Z, T)" by (metis prod.collapse)
  have "p25519 dvd - (X * Y - Z * T)" using assms by (simp only: e on_curve.simps dvd_minus_iff)
  moreover have "- (X * Y - Z * T) = - X * Y - Z * - T" by simp
  ultimately show ?thesis using assms by (simp only: e on_curve.simps neg_pt.simps power2_minus)
qed

lemma on_curve_0: "on_curve pt_0"
  by (simp add: pt_0_def)

section \<open>The group operations\<close>

text \<open>
  C14.  The group operations keep to the curve: applied to limbs that stand for points of the curve,
  within the documented bounds, \<^verbatim>\<open>ge_add\<close>, \<^verbatim>\<open>ge_sub\<close>, \<^verbatim>\<open>ge_madd\<close>, \<^verbatim>\<open>ge_msub\<close> and the doublings, followed by
  the conversion to \<^verbatim>\<open>ge_p3\<close>, return limbs within those bounds that stand for the sum, the difference
  or the double given by the formulas of the curve, and these are points of the curve again.
\<close>

theorem ge_operations_on_curve:
  assumes "is_p3 P p" "is_cached Q q" "is_precomp R r" "is_p2 S s"
    and "on_curve P" "on_curve Q" "on_curve R" "on_curve S"
  shows "(is_p3 (add_pt P Q) (ge_p1p1_to_p3 (ge_add p q)) \<and> on_curve (add_pt P Q)) \<and>
     (is_p3 (add_pt P (neg_pt Q)) (ge_p1p1_to_p3 (ge_sub p q)) \<and> on_curve (add_pt P (neg_pt Q))) \<and>
     (is_p3 (add_pt P R) (ge_p1p1_to_p3 (ge_madd p r)) \<and> on_curve (add_pt P R)) \<and>
     (is_p3 (add_pt P (neg_pt R)) (ge_p1p1_to_p3 (ge_msub p r)) \<and> on_curve (add_pt P (neg_pt R))) \<and>
     (is_p3 (dbl_pt P) (ge_p1p1_to_p3 (ge_p3_dbl p)) \<and> on_curve (dbl_pt P)) \<and>
     (is_p3 (dbl_pt S) (ge_p1p1_to_p3 (ge_p2_dbl s)) \<and> on_curve (dbl_pt S))"
  using assms by (simp only: ge_steps on_curve_add on_curve_dbl on_curve_neg simp_thms)

theorem ge_operations_on_curve_witness:
  "is_p3 (add_pt pt_0 pt_0) (ge_p1p1_to_p3 (ge_add ge_p3_0 ge_cached_0)) \<and> on_curve (add_pt pt_0 pt_0)"
  using ge_operations_on_curve [OF ge_0_is(2,4,3,1) on_curve_0 on_curve_0 on_curve_0 on_curve_0] by blast

end
