(* ===== verification/Ge_Bytes.thy ===== *)
theory Ge_Bytes
  imports Fe_Bytes Ge_Arith "HOL-Library.Monad_Syntax"
begin


text \<open>
  The byte encoding of a curve point: \<^verbatim>\<open>ge_tobytes\<close>, \<^verbatim>\<open>ge_p3_tobytes\<close> and \<^verbatim>\<open>ge_frombytes_vartime\<close> of
  \<^verbatim>\<open>src/src/crypto/crypto-ops.c\<close>.  What the decoder accepts is on the curve and is encoded back to
  the string that was read.
\<close>

section \<open>Operations\<close>

definition flip_sign :: "bytes \<Rightarrow> fe \<Rightarrow> bytes" where
  "flip_sign s x = s[31 := s ! 31 XOR word_of_int (fe_isnegative x * 2 ^ 7)]"

definition ge_tobytes :: "ge_p2 \<Rightarrow> bytes" where
  "ge_tobytes h =
    (let recip = fe_invert (Z2 h);
         x = fe_mul (X2 h) recip;
         y = fe_mul (Y2 h) recip
     in flip_sign (fe_tobytes y) x)"

definition ge_p3_tobytes :: "ge_p3 \<Rightarrow> bytes" where
  "ge_p3_tobytes h =
    (let recip = fe_invert (Z3 h);
         x = fe_mul (X3 h) recip;
         y = fe_mul (Y3 h) recip
     in flip_sign (fe_tobytes y) x)"

text \<open>
  \<^verbatim>\<open>ge_frombytes_vartime\<close> returns 0 and the point, or $-1$; the model returns the point or \<^const>\<open>None\<close>.
  \<open>recover_x\<close> is its part that takes the square root of $u / v$, \<open>fix_sign\<close> the one that chooses between
  the two roots.
\<close>

definition recover_x :: "fe \<Rightarrow> fe \<Rightarrow> fe option" where
  "recover_x u v =
    (let hX = fe_divpowm1 u v;
         vxx = fe_sq hX;
         vxx = fe_mul vxx v;
         check = fe_sub vxx u
     in if fe_isnonzero check \<noteq> 0 then
          (let check = fe_add vxx u
           in if fe_isnonzero check \<noteq> 0 then None else Some (fe_mul hX fe_sqrtm1))
        else Some hX)"

definition fix_sign :: "byte \<Rightarrow> fe \<Rightarrow> fe option" where
  "fix_sign s31 hX =
    (if fe_isnegative hX \<noteq> uint (drop_bit 7 s31) then
       (if fe_isnonzero hX = 0 then None else Some (fe_neg hX))
     else Some hX)"

definition ge_frombytes_vartime :: "bytes \<Rightarrow> ge_p3 option" where
  "ge_frombytes_vartime s =
    (let h = fe_load_masked s
     in if fe_noncanonical h then None
     else
      let hY = fe_load_carry h;
          hZ = fe_1;
          u = fe_sq hY;
          v = fe_mul u fe_d;
          u = fe_sub u hZ;
          v = fe_add v hZ
      in do {
        hX \<leftarrow> recover_x u v;
        hX \<leftarrow> fix_sign (s ! 31) hX;
        Some \<lparr>X3 = hX, Y3 = hY, Z3 = hZ, T3 = fe_mul hX hY\<rparr>
      })"

section \<open>Writing a point\<close>

text \<open>The encoding of an affine point: the representative of $y$, with the parity of $x$ as its sign bit.\<close>

definition encode_pt :: "int \<Rightarrow> int \<Rightarrow> bytes" where
  "encode_pt x y = le_bytes 32 (y mod p25519 + 2 ^ 255 * (x mod p25519 mod 2))"

lemma xor_shift_add:
  fixes a b :: int
  assumes "0 \<le> a" "a < 2 ^ n"
  shows "a XOR (b * 2 ^ n) = a + b * 2 ^ n"
proof -
  have "take_bit n a AND push_bit n b = 0" by (rule bit_eqI) (auto simp: bit_simps)
  moreover have "take_bit n a = a" using assms by (simp add: take_bit_int_eq_self)
  ultimately have "a AND b * 2 ^ n = 0" by (simp only: push_bit_eq_mult)
  then show ?thesis using or_shift_add [OF assms] by (simp only: disjunctive_xor_eq_or)
qed

lemma low_byte_add_multiple:
  "N = 256 ^ i * (k * 256) \<Longrightarrow> (word_of_int ((v + N * b) div 256 ^ i) :: byte) = word_of_int (v div 256 ^ i)"
proof -
  assume "N = 256 ^ i * (k * 256)"
  then have "(v + N * b) div 256 ^ i = v div 256 ^ i + 256 * (k * b)"
    by (simp only: mult.assoc div_mult_self2 power_not_zero zero_neq_numeral not_False_eq_True
          mult.left_commute [of k 256])
  moreover have "(256 :: byte) = 0" by simp
  ultimately show ?thesis by (simp only: of_int_add of_int_mult of_int_numeral mult_zero_left add_0_right)
qed

lemma top_byte:
  fixes v b :: int
  assumes "0 \<le> v" "v < 2 ^ 255"
  shows "(word_of_int (v div 256 ^ 31) :: byte) XOR word_of_int (b * 2 ^ 7) = word_of_int ((v + 2 ^ 255 * b) div 256 ^ 31)"
proof -
  define t where "t = v div 256 ^ 31"
  have t: "0 \<le> t" "t < 2 ^ 7" using assms by (simp_all add: t_def)
  have "(v + 2 ^ 255 * b) div 256 ^ 31 = t + b * 2 ^ 7" by (simp add: t_def)
  then show ?thesis using xor_shift_add [OF t, of b] by (simp only: t_def of_int_xor_eq [symmetric])
qed

lemma flip_sign_value:
  assumes "fe_bounded 350 x"
  shows "flip_sign (le_bytes 32 (y mod p25519)) x = encode_pt (fe_val x) y"
proof (rule nth_equalityI)
  fix i assume "i < length (flip_sign (le_bytes 32 (y mod p25519)) x)"
  then have i: "i < 32" by (simp add: flip_sign_def)
  define b where "b = fe_val x mod p25519 mod 2"
  have y: "0 \<le> y mod p25519" "y mod p25519 < 2 ^ 255"
    using pos_mod_sign [OF p25519_bounds(1)] pos_mod_bound [OF p25519_bounds(1), of y] by (auto simp: p25519_def)
  show "flip_sign (le_bytes 32 (y mod p25519)) x ! i = encode_pt (fe_val x) y ! i"
  proof (cases "i = 31")
    case True
    then show ?thesis using top_byte [OF y, of b]
      by (simp add: flip_sign_def encode_pt_def fe_isnegative_value [OF assms] le_bytes_def b_def)
  next
    case False
    then have "(2 :: int) ^ 255 = 256 ^ i * (2 ^ (247 - 8 * i) * 256)"
      using i power_add [of "2::int" "8 * i" "255 - 8 * i"] power_add [of "2::int" "247 - 8 * i" 8]
      by (simp add: power_mult)
    then show ?thesis using low_byte_add_multiple [of "2 ^ 255" i _ "y mod p25519" b] i False
      by (simp only: flip_sign_def encode_pt_def b_def) (simp add: le_bytes_def)
  qed
qed (simp add: flip_sign_def encode_pt_def)

text \<open>The affine point that a projective one stands for, with $Z^{p - 2}$ as the inverse of $Z$.\<close>

fun encode_ext :: "ext \<Rightarrow> bytes" where
  "encode_ext (X, Y, Z, T) = encode_pt (X * Z ^ nat (p25519 - 2)) (Y * Z ^ nat (p25519 - 2))"

lemma encode_pt_cong: "x mod p25519 = x' mod p25519 \<Longrightarrow> y mod p25519 = y' mod p25519 \<Longrightarrow> encode_pt x y = encode_pt x' y'"
  by (simp add: encode_pt_def)

lemma flip_sign_is:
  assumes "fe_is 101 x f" "fe_is 101 y g"
  shows "flip_sign (fe_tobytes g) f = encode_pt x y"
proof -
  have "fe_bounded 350 f" "fe_bounded 350 g" using assms fe_bounded_mono [of 101 _ 350] by (auto simp: represents_def)
  then have "flip_sign (fe_tobytes g) f = encode_pt (fe_val f) (fe_val g)"
    by (simp only: fe_tobytes_value flip_sign_value)
  also have "\<dots> = encode_pt x y" using assms by (intro encode_pt_cong) (simp_all add: represents_def)
  finally show ?thesis .
qed

lemma fe_invert_is:
  assumes "fe_is k z f" "k \<le> 330"
  shows "fe_is 101 (z ^ nat (p25519 - 2)) (fe_invert f)"
proof -
  have "nat (p25519 - 2) = 2 ^ 255 - 21" by (simp add: p25519_def)
  with fe_invert_pow [of z f] fe_is_mono [OF assms] show ?thesis by (simp only: power_one_right)
qed

lemma ge_tobytes_is:
  "is_p2 P h \<Longrightarrow> ge_tobytes h = encode_ext P"
  "is_p3 P h' \<Longrightarrow> ge_p3_tobytes h' = encode_ext P"
  by (cases P; auto simp: ge_tobytes_def ge_p3_tobytes_def Let_def intro!: flip_sign_is is_mul fe_invert_is)+

section \<open>Reading a point\<close>

lemma nonzero_is: "fe_is k x f \<Longrightarrow> k \<le> 350 \<Longrightarrow> fe_isnonzero f = (if p25519 dvd x then 0 else 1)"
  using fe_isnonzero_value [of f] fe_bounded_mono [of k f 350] by (simp add: represents_def dvd_eq_mod_eq_0)

lemma negative_is: "fe_is k x f \<Longrightarrow> k \<le> 350 \<Longrightarrow> fe_isnegative f = x mod p25519 mod 2"
  using fe_isnegative_value [of f] fe_bounded_mono [of k f 350] by (simp add: represents_def)

lemma sqrtm1_is: "fe_is 110 (fe_val fe_sqrtm1) fe_sqrtm1"
  by (rule fe_is_self) (rule curve_constants)

lemma recover_x_sound:
  assumes u: "fe_is 110 x u" and v: "fe_is 110 y v" and r: "recover_x u v = Some r"
  shows "\<exists>z. fe_is 101 z r \<and> p25519 dvd z * z * y - x"
proof -
  obtain w where w: "fe_is 101 w (fe_divpowm1 u v)"
    using fe_divpowm1_is [OF fe_is_mono [OF u] fe_is_mono [OF v]] by auto
  define vxx where "vxx = fe_mul (fe_sq (fe_divpowm1 u v)) v"
  have vxx: "fe_is 101 (w * w * y) vxx"
    unfolding vxx_def by (intro is_mul [of 101 _ _ 110] is_sq [of 101] w v) simp_all
  have c: "fe_is 211 (w * w * y - x) (fe_sub vxx u)" "fe_is 211 (w * w * y + x) (fe_add vxx u)"
    using fe_is_sub [OF vxx u] fe_is_add [OF vxx u] by simp_all
  show ?thesis
  proof (cases "p25519 dvd w * w * y - x")
    case True
    then have "r = fe_divpowm1 u v"
      using r nonzero_is [OF c(1)] by (simp add: recover_x_def Let_def vxx_def)
    then show ?thesis using True w by blast
  next
    case False
    then have *: "p25519 dvd w * w * y + x" "r = fe_mul (fe_divpowm1 u v) fe_sqrtm1"
      using r nonzero_is [OF c(1)] nonzero_is [OF c(2)] by (simp_all add: recover_x_def Let_def vxx_def split: if_splits)
    define i where "i = fe_val fe_sqrtm1"
    have "p25519 dvd i * i - (- 1)" unfolding mod_eq_dvd_iff [symmetric] i_def by (rule curve_constants)
    then have "p25519 dvd (w * w * y) * (i * i - (- 1)) - (w * w * y + x)" using *(1) by (rule dvd_diff [OF dvd_mult])
    moreover have "(w * w * y) * (i * i - (- 1)) - (w * w * y + x) = (w * i) * (w * i) * y - x" by algebra
    moreover have "fe_is 101 (w * i) r"
      unfolding *(2) i_def by (rule is_mul [OF w sqrtm1_is]) simp_all
    ultimately show ?thesis by metis
  qed
qed

lemma neg_parity:
  assumes "\<not> p25519 dvd x"
  shows "- x mod p25519 mod 2 = 1 - x mod p25519 mod 2"
proof -
  have "- x mod p25519 = p25519 - x mod p25519"
    using assms by (simp add: zmod_zminus1_eq_if dvd_eq_mod_eq_0)
  moreover have "p25519 = 2 * ((p25519 - 1) div 2) + 1" by (simp add: p25519_def)
  moreover have "a mod 2 = 1 - c mod 2" if "a = q - c" "q = 2 * k + 1" for a c q k :: int using that by presburger
  ultimately show ?thesis by blast
qed

lemma fix_sign_sound:
  assumes x: "fe_is 101 x f" and r: "fix_sign c f = Some g"
  shows "\<exists>z. fe_is 101 z g \<and> (z = x \<or> z = - x) \<and> z mod p25519 mod 2 = uint (drop_bit 7 c)"
proof -
  have n: "fe_isnegative f = x mod p25519 mod 2" by (rule negative_is [OF x]) simp
  have "uint (drop_bit 7 c) = uint c div 2 ^ 7"
    using uint_lt2p [of c] by (simp only: unsigned_drop_bit_eq) (simp add: take_bit_int_eq_self drop_bit_eq_div)
  moreover have "uint c < 2 ^ 8" "0 \<le> uint c" using uint_lt2p [of c] by simp_all
  ultimately have b: "uint (drop_bit 7 c) = 0 \<or> uint (drop_bit 7 c) = 1" by auto
  show ?thesis
  proof (cases "fe_isnegative f = uint (drop_bit 7 c)")
    case True
    then show ?thesis using r n x by (auto simp: fix_sign_def)
  next
    case False
    then have g: "g = fe_neg f" "\<not> p25519 dvd x"
      using r nonzero_is [OF x] by (simp_all add: fix_sign_def split: if_splits)
    have "- x mod p25519 mod 2 = uint (drop_bit 7 c)" using neg_parity [OF g(2)] False n b by auto
    then show ?thesis using fe_is_neg [OF x] g(1) by auto
  qed
qed

text \<open>A decoded point: affine, on the curve, with the coordinate and the sign that were read.\<close>

lemma sign_bit:
  assumes "length s = 32"
  shows "uint (drop_bit 7 (s ! 31)) = le_val s div 2 ^ 255"
proof -
  have "uint (s ! 31) = le_val s div 256 ^ 31 mod 256" using uint_nth [of 31 s] assms by simp
  moreover have "le_val s < 256 ^ 32" using le_val_less [of s] assms by simp
  moreover have "uint (drop_bit 7 (s ! 31)) = uint (s ! 31) div 2 ^ 7"
    using uint_lt2p [of "s ! 31"] by (simp only: unsigned_drop_bit_eq) (simp add: take_bit_int_eq_self drop_bit_eq_div)
  moreover have "le_val s div 256 ^ 31 mod 256 = le_val s div 256 ^ 31"
    using calculation(2) by (intro mod_pos_pos_trivial) (simp_all add: pos_imp_zdiv_nonneg_iff)
  ultimately show ?thesis by (simp add: zdiv_zmult2_eq [symmetric])
qed

lemma load_is: "length s = 32 \<Longrightarrow> fe_is 101 (le_val s mod 2 ^ 255) (fe_load_carry (fe_load_masked s))"
  using fe_load_carry_correct [OF fe_load_value(4) [of s]] by (simp add: represents_def fe_load_value(3))

lemma curve_uv:
  assumes "fe_is 101 y f"
  shows "fe_is 110 (y * y - 1) (fe_sub (fe_sq f) fe_1)"
    and "fe_is 110 (y * y * curve_d + 1) (fe_add (fe_mul (fe_sq f) fe_d) fe_1)"
  by (rule fe_is_mono [OF fe_is_sub [OF is_sq [OF assms] fe_is_1]]; simp)
     (rule fe_is_mono [OF fe_is_add [OF is_mul [OF is_sq [OF assms] d_is] fe_is_1]]; simp)

lemma ge_frombytes_sound:
  assumes s: "length s = 32" and h: "ge_frombytes_vartime s = Some h"
  shows "le_val s mod 2 ^ 255 < p25519"
    and "\<exists>x. is_p3 (x, le_val s mod 2 ^ 255, 1, x * (le_val s mod 2 ^ 255)) h \<and>
      on_curve (x, le_val s mod 2 ^ 255, 1, x * (le_val s mod 2 ^ 255)) \<and> x mod p25519 mod 2 = le_val s div 2 ^ 255"
proof -
  define y where "y = le_val s mod 2 ^ 255"
  note l = fe_load_value(3-5) [OF s]
  define hY where "hY = fe_load_carry (fe_load_masked s)"
  define u where "u = fe_sub (fe_sq hY) fe_1"
  define v where "v = fe_add (fe_mul (fe_sq hY) fe_d) fe_1"
  have Y: "fe_is 101 y hY"
    unfolding hY_def y_def by (rule load_is [OF s])
  note u = curve_uv(1) [OF Y, folded u_def]
  note v = curve_uv(2) [OF Y, folded v_def]
  from h obtain r g where r: "recover_x u v = Some r" "fix_sign (s ! 31) r = Some g"
    and p: "\<not> fe_noncanonical (fe_load_masked s)" "h = \<lparr>X3 = g, Y3 = hY, Z3 = fe_1, T3 = fe_mul g hY\<rparr>"
    by (auto simp: ge_frombytes_vartime_def Let_def u_def v_def hY_def split: if_splits bind_splits)
  show "le_val s mod 2 ^ 255 < p25519" using p(1) l(3) by simp
  from recover_x_sound [OF u v r(1)] obtain w where w: "fe_is 101 w r" "p25519 dvd w * w * (y * y * curve_d + 1) - (y * y - 1)"
    by blast
  from fix_sign_sound [OF w(1) r(2)] obtain x where
    x: "fe_is 101 x g" "x = w \<or> x = - w" "x mod p25519 mod 2 = uint (drop_bit 7 (s ! 31))" by blast
  have "y\<^sup>2 - x\<^sup>2 - (1\<^sup>2 + curve_d * (x * y)\<^sup>2) = - (w * w * (y * y * curve_d + 1) - (y * y - 1))"
    using x(2) by (elim disjE) (simp_all add: power2_eq_square algebra_simps)
  then have "p25519 dvd y\<^sup>2 - x\<^sup>2 - (1\<^sup>2 + curve_d * (x * y)\<^sup>2)" using w(2) by (simp only: dvd_minus_iff)
  then have "on_curve (x, y, 1, x * y)" by simp
  moreover have "is_p3 (x, y, 1, x * y) h"
    unfolding p(2) is_p3.simps ge_p3.simps
    by (intro conjI fe_is_mono [OF x(1)] fe_is_mono [OF Y] fe_is_mono [OF fe_is_1] fe_is_mono [OF is_mul [OF x(1) Y]]) simp_all
  ultimately show "\<exists>x. is_p3 (x, le_val s mod 2 ^ 255, 1, x * (le_val s mod 2 ^ 255)) h \<and>
      on_curve (x, le_val s mod 2 ^ 255, 1, x * (le_val s mod 2 ^ 255)) \<and> x mod p25519 mod 2 = le_val s div 2 ^ 255"
    using x(3) sign_bit [OF s] by (auto simp: y_def)
qed

section \<open>What is accepted\<close>

text \<open>
  The candidate $x y^3 (x y^7)^{(p - 5) / 8}$ for a root of $x / y$, and when it or its product with
  $\sqrt{-1}$ is one.
\<close>

definition root_candidate :: "int \<Rightarrow> int \<Rightarrow> int" where
  "root_candidate x y = (x * y ^ 7) ^ (2 ^ 252 - 3) * y ^ 3 * x"

definition has_root :: "int \<Rightarrow> int \<Rightarrow> bool" where
  "has_root x y \<longleftrightarrow> (let w = root_candidate x y in p25519 dvd w * w * y - x \<or> p25519 dvd w * w * y + x)"

lemma sqrtm1_unit: "p25519 dvd w * fe_val fe_sqrtm1 \<longleftrightarrow> p25519 dvd w"
proof
  let ?i = "fe_val fe_sqrtm1"
  assume w: "p25519 dvd w * ?i"
  have i: "p25519 dvd ?i * ?i - (- 1)" unfolding mod_eq_dvd_iff [symmetric] by (rule curve_constants)
  have "p25519 dvd w * (?i * ?i - (- 1)) - w * ?i * ?i" by (rule dvd_diff [OF dvd_mult [OF i] dvd_mult2 [OF w]])
  moreover have "w * (?i * ?i - (- 1)) - w * ?i * ?i = w" by (simp add: algebra_simps)
  ultimately show "p25519 dvd w" by simp
qed simp

lemma recover_x_accepts:
  assumes u: "fe_is 110 x u" and v: "fe_is 110 y v"
  shows "recover_x u v \<noteq> None \<longleftrightarrow> has_root x y"
    and "recover_x u v = Some r \<Longrightarrow> fe_isnonzero r = (if p25519 dvd root_candidate x y then 0 else 1)"
proof -
  define w where "w = root_candidate x y"
  have w: "fe_is 101 w (fe_divpowm1 u v)"
    unfolding w_def root_candidate_def by (rule fe_divpowm1_is [OF fe_is_mono [OF u] fe_is_mono [OF v]]) simp_all
  define vxx where "vxx = fe_mul (fe_sq (fe_divpowm1 u v)) v"
  have vxx: "fe_is 101 (w * w * y) vxx"
    unfolding vxx_def by (intro is_mul [of 101 _ _ 110] is_sq [of 101] w v) simp_all
  have c: "fe_is 211 (w * w * y - x) (fe_sub vxx u)" "fe_is 211 (w * w * y + x) (fe_add vxx u)"
    using fe_is_sub [OF vxx u] fe_is_add [OF vxx u] by simp_all
  have r: "recover_x u v = (if p25519 dvd w * w * y - x then Some (fe_divpowm1 u v)
    else if p25519 dvd w * w * y + x then Some (fe_mul (fe_divpowm1 u v) fe_sqrtm1) else None)"
    using nonzero_is [OF c(1)] nonzero_is [OF c(2)] by (simp add: recover_x_def Let_def vxx_def)
  show "recover_x u v \<noteq> None \<longleftrightarrow> has_root x y" unfolding r by (simp add: has_root_def w_def)
  have "fe_isnonzero (fe_divpowm1 u v) = (if p25519 dvd w then 0 else 1)" by (rule nonzero_is [OF w]) simp
  moreover have "fe_isnonzero (fe_mul (fe_divpowm1 u v) fe_sqrtm1) = (if p25519 dvd w * fe_val fe_sqrtm1 then 0 else 1)"
    by (rule nonzero_is [OF is_mul [OF w sqrtm1_is]]) simp_all
  ultimately show "recover_x u v = Some r \<Longrightarrow> fe_isnonzero r = (if p25519 dvd root_candidate x y then 0 else 1)"
    unfolding r w_def [symmetric] by (auto simp: sqrtm1_unit split: if_splits)
qed

lemma fix_sign_accepts:
  assumes "fe_is 101 x f"
  shows "fix_sign c f \<noteq> None \<longleftrightarrow> (fe_isnonzero f = 0 \<longrightarrow> uint (drop_bit 7 c) = 0)"
proof -
  have "fe_isnegative f = 0" if "fe_isnonzero f = 0"
  proof -
    have "p25519 dvd x" using that nonzero_is [OF assms] by presburger
    then have "x mod p25519 = 0" by (rule dvd_imp_mod_0)
    moreover have "fe_isnegative f = x mod p25519 mod 2" by (rule negative_is [OF assms]) simp
    ultimately show ?thesis by (simp only: mod_0)
  qed
  then show ?thesis by (auto simp: fix_sign_def)
qed

lemma ge_frombytes_accepts:
  assumes s: "length s = 32"
  defines "y \<equiv> le_val s mod 2 ^ 255"
  shows "ge_frombytes_vartime s \<noteq> None \<longleftrightarrow> y < p25519 \<and> has_root (y * y - 1) (y * y * curve_d + 1) \<and>
    (p25519 dvd root_candidate (y * y - 1) (y * y * curve_d + 1) \<longrightarrow> le_val s < 2 ^ 255)"
proof -
  note l = fe_load_value(3-5) [OF s]
  define hY where "hY = fe_load_carry (fe_load_masked s)"
  define u where "u = fe_sub (fe_sq hY) fe_1"
  define v where "v = fe_add (fe_mul (fe_sq hY) fe_d) fe_1"
  have Y: "fe_is 101 y hY"
    unfolding hY_def y_def by (rule load_is [OF s])
  note u = curve_uv(1) [OF Y, folded u_def]
  note v = curve_uv(2) [OF Y, folded v_def]
  note a = recover_x_accepts [OF u v]
  have f: "ge_frombytes_vartime s \<noteq> None \<longleftrightarrow>
    \<not> fe_noncanonical (fe_load_masked s) \<and> (\<exists>r. recover_x u v = Some r \<and> fix_sign (s ! 31) r \<noteq> None)"
    by (auto simp: ge_frombytes_vartime_def Let_def u_def v_def hY_def split: bind_splits)
  have g: "fix_sign (s ! 31) r \<noteq> None \<longleftrightarrow>
      (p25519 dvd root_candidate (y * y - 1) (y * y * curve_d + 1) \<longrightarrow> le_val s < 2 ^ 255)"
    if r: "recover_x u v = Some r" for r
  proof -
    obtain x where "fe_is 101 x r" using recover_x_sound [OF u v r] by blast
    moreover have "le_val s div 2 ^ 255 = 0 \<longleftrightarrow> le_val s < 2 ^ 255" by (auto simp: zdiv_eq_0_iff)
    ultimately show ?thesis using fix_sign_accepts [of x r "s ! 31"] a(2) [OF r] sign_bit [OF s] by (simp split: if_splits)
  qed
  have "\<not> fe_noncanonical (fe_load_masked s) \<longleftrightarrow> y < p25519" using l(3) by (simp add: y_def not_le)
  then show ?thesis unfolding f using a(1) g by auto
qed

section \<open>Properties\<close>

text \<open>
  C10.  Decoding and encoding a point: whatever 32-byte string \<^verbatim>\<open>ge_frombytes_vartime\<close> accepts,
  \<^verbatim>\<open>ge_p3_tobytes\<close> and \<^verbatim>\<open>ge_tobytes\<close> write back unchanged, so every point has one accepted encoding; and
  the decoded point satisfies the curve equation, is affine, and has the coordinate that was read.
\<close>

theorem ge_frombytes_roundtrip:
  assumes "length s = 32" "ge_frombytes_vartime s = Some h"
  shows "ge_p3_tobytes h = s \<and> ge_tobytes (ge_p3_to_p2 h) = s \<and>
    (\<exists>x y. is_p3 (x, y, 1, x * y) h \<and> on_curve (x, y, 1, x * y) \<and> y = le_val s mod 2 ^ 255)"
proof -
  obtain x where x: "is_p3 (x, le_val s mod 2 ^ 255, 1, x * (le_val s mod 2 ^ 255)) h"
      "on_curve (x, le_val s mod 2 ^ 255, 1, x * (le_val s mod 2 ^ 255))" "x mod p25519 mod 2 = le_val s div 2 ^ 255"
    and y: "le_val s mod 2 ^ 255 < p25519"
    using ge_frombytes_sound [OF assms] by blast
  have "encode_ext (x, le_val s mod 2 ^ 255, 1, x * (le_val s mod 2 ^ 255)) = s"
    using x(3) y le_bytes_le_val [OF assms(1)] div_mult_mod_eq [of "le_val s" "2 ^ 255"]
    by (simp add: encode_pt_def add.commute mult.commute)
  then show ?thesis using ge_tobytes_is(2) [OF x(1)] ge_tobytes_is(1) [OF ge_p3_to_is(1) [OF x(1)]] x(1,2) by auto
qed

text \<open>The string of 32 zero bytes is the point $(\sqrt{-1}, 0)$ of order 4.\<close>

lemma root_candidate_simps: "root_candidate 0 v = 0" "root_candidate (- 1) 1 = 1"
proof -
  have "(- 1 :: int) ^ n = - 1" if "odd n" for n using that by simp
  moreover have "odd (2 ^ 252 - 3 :: nat)" by simp
  ultimately show "root_candidate (- 1) 1 = 1" unfolding root_candidate_def power_one mult_1_right by (metis minus_mult_minus mult_1)
qed (simp add: root_candidate_def)

lemma zero_string_accepted: "ge_frombytes_vartime (replicate 32 0) \<noteq> None"
proof -
  have "le_val (replicate 32 0) = 0" by (simp add: le_val_def eval_nat_numeral)
  then show ?thesis
    using ge_frombytes_accepts [OF length_replicate [of 32 0]]
    by (simp add: has_root_def root_candidate_simps p25519_def)
qed

theorem ge_frombytes_roundtrip_witness:
  "\<exists>h. ge_frombytes_vartime (replicate 32 0) = Some h \<and> ge_p3_tobytes h = replicate 32 0"
proof -
  obtain h where "ge_frombytes_vartime (replicate 32 0) = Some h" using zero_string_accepted by blast
  with ge_frombytes_roundtrip [OF length_replicate this] show ?thesis by blast
qed

text \<open>
  C29.  What \<^verbatim>\<open>ge_frombytes_vartime\<close> rejects: exactly the strings whose $y$ is not below $2^{255} - 19$,
  those for which neither candidate squares to $(y^2 - 1) / (d y^2 + 1)$, and the negative zero.
\<close>

theorem ge_frombytes_errors:
  assumes "length s = 32"
  shows "ge_frombytes_vartime s = None \<longleftrightarrow>
    (let y = le_val s mod 2 ^ 255; u = y * y - 1; v = y * y * curve_d + 1
     in p25519 \<le> y \<or> \<not> has_root u v \<or> p25519 dvd root_candidate u v \<and> 2 ^ 255 \<le> le_val s)"
  using ge_frombytes_accepts [OF assms] unfolding Let_def by (meson not_le)

theorem ge_frombytes_errors_witness:
  "ge_frombytes_vartime (le_bytes 32 (2 ^ 255 + 1)) = None \<and> ge_frombytes_vartime (le_bytes 32 p25519) = None"
proof
  have "le_val (le_bytes 32 (2 ^ 255 + 1)) = 2 ^ 255 + 1" "le_val (le_bytes 32 p25519) mod 2 ^ 255 = p25519"
    by (simp_all add: le_val_le_bytes p25519_def)
  then show "ge_frombytes_vartime (le_bytes 32 (2 ^ 255 + 1)) = None" "ge_frombytes_vartime (le_bytes 32 p25519) = None"
    by (simp_all only: ge_frombytes_errors length_le_bytes Let_def order_refl simp_thms) (simp add: root_candidate_simps)
qed

end
