(* ===== verification/Sc_Recode.thy ===== *)
theory Sc_Recode
  imports Le_Bytes
begin

text \<open>
  The recodings of a 32-byte scalar into signed digits in \<^verbatim>\<open>src/src/crypto/crypto-ops.c\<close>: \<^verbatim>\<open>slide\<close>, whose
  256 binary digits are zero or odd and at most 15 in size, and the two radix-16 recodings of
  \<^verbatim>\<open>ge_scalarmult_base\<close> and \<^verbatim>\<open>ge_scalarmult\<close>.  All three keep the value of a scalar below $2^{255}$; above
  it \<^verbatim>\<open>slide\<close> drops a carry.
\<close>

section \<open>Operations\<close>

subsection \<open>Sliding windows\<close>

text \<open>\<^verbatim>\<open>signed char r[256]\<close> is a list of 256 integers; every store converts to 8 bits.\<close>

definition slide_bits :: "bytes \<Rightarrow> int list" where
  "slide_bits a = map (\<lambda>i. uint (1 AND drop_bit (i mod 8) (a ! (i div 8)))) [0..<256]"

text \<open>The innermost loop over \<^verbatim>\<open>k\<close>, which adds 1 at position \<^verbatim>\<open>i + b\<close>.\<close>

function slide_carry :: "nat \<Rightarrow> int list \<Rightarrow> int list" where
  "slide_carry k r =
    (if k < 256 then
       if r ! k = 0 then r[k := 1]
       else slide_carry (k + 1) (r[k := 0])
     else r)"
  by auto
termination by (relation "measure (\<lambda>(k, r). 256 - k)") auto

text \<open>The loop over \<^verbatim>\<open>b\<close>.\<close>

function slide_window :: "nat \<Rightarrow> nat \<Rightarrow> int list \<Rightarrow> int list" where
  "slide_window i b r =
    (if b \<le> 6 \<and> i + b < 256 then
       if r ! (i + b) \<noteq> 0 then
         if r ! i + r ! (i + b) * 2 ^ b \<le> 15 then
           slide_window i (b + 1) (r[i := i8 (r ! i + r ! (i + b) * 2 ^ b), i + b := 0])
         else if r ! i - r ! (i + b) * 2 ^ b \<ge> - 15 then
           slide_window i (b + 1) (slide_carry (i + b) (r[i := i8 (r ! i - r ! (i + b) * 2 ^ b)]))
         else r
       else slide_window i (b + 1) r
     else r)"
  by auto
termination by (relation "measure (\<lambda>(i, b, r). 7 - b)") auto

declare slide_carry.simps [simp del] slide_window.simps [simp del]

definition slide_from :: "nat \<Rightarrow> int list \<Rightarrow> int list" where
  "slide_from i r = (if r ! i \<noteq> 0 then slide_window i 1 r else r)"

definition slide :: "bytes \<Rightarrow> int list" where
  "slide a = fold slide_from [0..<256] (slide_bits a)"

subsection \<open>Radix 16\<close>

text \<open>
  The recoding of \<^verbatim>\<open>ge_scalarmult_base\<close>: the 64 nibbles, and then one carry from each to the next.
\<close>

definition nibbles :: "bytes \<Rightarrow> int list" where
  "nibbles a = concat (map (\<lambda>b. [uint (b AND 15), uint (drop_bit 4 b AND 15)]) a)"

fun carry_nibbles :: "int \<Rightarrow> int list \<Rightarrow> int list" where
  "carry_nibbles carry [] = []"
| "carry_nibbles carry [e] = [i8 (e + carry)]"
| "carry_nibbles carry (e # es) =
    (let e = i8 (e + carry);
         carry = i8 (e + 8);
         carry = carry div 2 ^ 4;
         e = i8 (e - carry * 2 ^ 4)
     in e # carry_nibbles carry es)"

definition recode_base :: "bytes \<Rightarrow> int list" where
  "recode_base a = carry_nibbles 0 (nibbles a)"

text \<open>
  The recoding of \<^verbatim>\<open>ge_scalarmult\<close> and \<^verbatim>\<open>ge_scalarmult_p3\<close>, two digits from each byte, the last byte
  apart.
\<close>

fun recode_bytes :: "int \<Rightarrow> bytes \<Rightarrow> int list" where
  "recode_bytes carry [] = []"
| "recode_bytes carry [a] =
    (let carry = carry + uint a;
         carry2 = (carry + 8) div 2 ^ 4
     in [i8 (carry - carry2 * 2 ^ 4), i8 carry2])"
| "recode_bytes carry (a # as) =
    (let carry = carry + uint a;
         carry2 = (carry + 8) div 2 ^ 4;
         e0 = i8 (carry - carry2 * 2 ^ 4);
         carry = (carry2 + 8) div 2 ^ 4;
         e1 = i8 (carry2 - carry * 2 ^ 4)
     in e0 # e1 # recode_bytes carry as)"

definition recode :: "bytes \<Rightarrow> int list" where
  "recode a = recode_bytes 0 a"

section \<open>Values of digit strings\<close>

primrec radix :: "int \<Rightarrow> int list \<Rightarrow> int" where
  "radix B [] = 0"
| "radix B (e # es) = e + B * radix B es"

lemma radix_append: "radix B (xs @ ys) = radix B xs + B ^ length xs * radix B ys"
  by (induction xs) (simp_all add: algebra_simps)

lemma radix_foldl: "foldl (\<lambda>v e. B * v + e) 0 (rev es) = radix B es"
  by (induction es) (simp_all add: foldl_append)

lemma radix_update: "i < length xs \<Longrightarrow> radix B (xs[i := x]) = radix B xs + (x - xs ! i) * B ^ i"
proof (induction xs arbitrary: i)
  case (Cons y ys)
  show ?case
  proof (cases i)
    case (Suc j)
    with Cons.prems show ?thesis by (simp add: Cons.IH algebra_simps)
  qed (simp add: algebra_simps)
qed simp

section \<open>The radix-16 recodings\<close>

lemma i8_exact: "- 128 \<le> x \<Longrightarrow> x < 128 \<Longrightarrow> i8 x = x"
  by (simp add: i8_def signed_take_bit_int_eq_self)

lemma nibble_values: "uint (b AND 15) = uint b mod 16" "uint (drop_bit 4 b AND 15) = uint b div 16"
  for b :: byte
proof -
  have "(15 :: byte) = mask 4" by (simp add: mask_eq_exp_minus_1)
  then have m: "uint (w AND 15) = uint w mod 16" for w :: byte
    by (simp only: take_bit_eq_mask [symmetric] unsigned_take_bit_eq) (simp add: take_bit_eq_mod)
  have "uint (drop_bit 4 b) = uint b div 16"
    using uint_lt2p [of b] by (simp only: unsigned_drop_bit_eq) (simp add: take_bit_int_eq_self drop_bit_eq_div)
  moreover have "0 \<le> uint b div 16" "uint b div 16 < 16"
    using uint_lt2p [of b] by (simp_all add: pos_imp_zdiv_nonneg_iff)
  ultimately show "uint (b AND 15) = uint b mod 16" "uint (drop_bit 4 b AND 15) = uint b div 16"
    using m by (simp_all add: mod_pos_pos_trivial)
qed

lemma nibbles_simps:
  "nibbles [] = []" "nibbles (b # bs) = (uint b mod 16) # (uint b div 16) # nibbles bs"
  unfolding nibbles_def nibble_values(2) unfolding nibble_values(1) by simp_all

lemma nibbles_value:
  "radix 16 (nibbles a) = le_val a" "list_all (\<lambda>e. 0 \<le> e \<and> e \<le> 15) (nibbles a)" "length (nibbles a) = 2 * length a"
proof -
  show "radix 16 (nibbles a) = le_val a"
    by (induction a) (simp_all add: nibbles_simps)
  have "uint b div 16 \<le> 15 \<and> 0 \<le> uint b div 16 \<and> uint b mod 16 \<le> 15" for b :: byte
    using uint_lt2p [of b] by (simp add: pos_imp_zdiv_nonneg_iff) presburger
  then show "list_all (\<lambda>e. 0 \<le> e \<and> e \<le> 15) (nibbles a)" by (induction a) (simp_all add: nibbles_simps)
  show "length (nibbles a) = 2 * length a" by (induction a) (simp_all add: nibbles_simps)
qed

text \<open>What a recoding promises: the value is kept, and the digits are small.\<close>

definition recodes :: "int \<Rightarrow> nat \<Rightarrow> int list \<Rightarrow> bool" where
  "recodes v n es \<longleftrightarrow> radix 16 es = v \<and> list_all (\<lambda>e. - 8 \<le> e \<and> e \<le> 8) es \<and> length es = n"

lemma recodes_Cons: "recodes v n es \<Longrightarrow> - 8 \<le> e \<Longrightarrow> e \<le> 8 \<Longrightarrow> w = e + 16 * v \<Longrightarrow> recodes w (Suc n) (e # es)"
  by (simp add: recodes_def)

lemma balanced_digit:
  assumes "0 \<le> x" "x \<le> 16"
  shows "0 \<le> (x + 8) div 2 ^ 4" "(x + 8) div 2 ^ 4 \<le> 1" "- 8 \<le> x - (x + 8) div 2 ^ 4 * 2 ^ 4" "x - (x + 8) div 2 ^ 4 * 2 ^ 4 \<le> 7"
    "i8 x = x" "i8 (x + 8) = x + 8" "i8 (x - (x + 8) div 2 ^ 4 * 2 ^ 4) = x - (x + 8) div 2 ^ 4 * 2 ^ 4"
  using assms by (auto intro!: i8_exact)

lemma carry_nibbles_recodes:
  assumes "list_all (\<lambda>e. 0 \<le> e \<and> e \<le> 15) es" "es \<noteq> []" "last es \<le> 7" "0 \<le> c" "c \<le> 1"
  shows "recodes (c + radix 16 es) (length es) (carry_nibbles c es)"
  using assms
proof (induction c es rule: carry_nibbles.induct)
  case (3 c e f es)
  have e: "0 \<le> e + c" "e + c \<le> 16" using 3(2,5,6) by auto
  note b = balanced_digit [OF e]
  define d where "d = (e + c + 8) div 2 ^ 4"
  have s: "carry_nibbles c (e # f # es) = (e + c - d * 2 ^ 4) # carry_nibbles d (f # es)"
    using b(5-7) by (simp add: Let_def d_def)
  have "recodes (d + radix 16 (f # es)) (length (f # es)) (carry_nibbles d (f # es))"
    using 3(1) [OF refl refl refl refl] 3(2-4) b(1,2) unfolding b(5-7) d_def by simp
  from recodes_Cons [OF this b(3) [folded d_def], of "c + radix 16 (e # f # es)"] show ?case
    unfolding s using b(4) by (simp add: d_def)
qed (auto simp: recodes_def i8_exact)

lemma recode_bytes_recodes:
  assumes "as \<noteq> []" "last as \<le> 127" "0 \<le> c" "c \<le> 1"
  shows "recodes (c + le_val as) (2 * length as) (recode_bytes c as)"
  using assms
proof (induction c as rule: recode_bytes.induct)
  case (2 c a)
  have "uint a \<le> 127" using 2(2) by (simp add: word_le_def)
  moreover define e where "e = c + uint a"
  ultimately have e: "0 \<le> e" "e \<le> 128" using 2(3,4) by simp_all
  define e2 where "e2 = (e + 8) div 2 ^ 4"
  have "0 \<le> e2" "e2 \<le> 8" "- 8 \<le> e - e2 * 2 ^ 4" "e - e2 * 2 ^ 4 \<le> 8" using e by (auto simp: e2_def)
  moreover have "recode_bytes c [a] = [i8 (e - e2 * 2 ^ 4), i8 e2]" by (simp add: Let_def e_def e2_def)
  ultimately show ?case by (simp add: recodes_def i8_exact) (simp add: e_def)
next
  case (3 c a b as)
  define e where "e = c + uint a"
  define e2 where "e2 = (e + 8) div 2 ^ 4"
  have e: "0 \<le> e" "e \<le> 256" using 3(4,5) uint_lt2p [of a] by (auto simp: e_def)
  then have e2: "0 \<le> e2" "e2 \<le> 16" "- 8 \<le> e - e2 * 2 ^ 4" "e - e2 * 2 ^ 4 \<le> 8" by (auto simp: e2_def)
  have i: "i8 (e - e2 * 2 ^ 4) = e - e2 * 2 ^ 4" using e2(3,4) by (intro i8_exact) auto
  note b = balanced_digit [OF e2(1,2)]
  define d where "d = (e2 + 8) div 2 ^ 4"
  have s: "recode_bytes c (a # b # as) = (e - e2 * 2 ^ 4) # (e2 - d * 2 ^ 4) # recode_bytes d (b # as)"
    using i b(7) by (simp add: Let_def e_def e2_def d_def)
  have "recodes (d + le_val (b # as)) (2 * length (b # as)) (recode_bytes d (b # as))"
    using 3(1) [OF refl refl refl refl refl] 3(2-3) b(1,2) unfolding d_def e2_def e_def by simp
  from recodes_Cons [OF recodes_Cons [OF this b(3) [folded d_def]] e2(3,4)] show ?case
    unfolding s using b(4) by (simp add: d_def e_def)
qed simp

section \<open>Sliding windows\<close>

text \<open>
  The digits from position \<open>n\<close> on are still bits, those below are final; a final digit is zero or odd
  and at most 15 in size, and the final digits amount to less than $2^n$.
\<close>

abbreviation low :: "int list \<Rightarrow> nat \<Rightarrow> int" where
  "low r n \<equiv> radix 2 (take n r)"

definition final_digit :: "int \<Rightarrow> bool" where
  "final_digit e \<longleftrightarrow> e = 0 \<or> odd e \<and> \<bar>e\<bar> \<le> 15"

definition bits_from :: "nat \<Rightarrow> int list \<Rightarrow> bool" where
  "bits_from n r \<longleftrightarrow> (\<forall>j. n \<le> j \<longrightarrow> j < length r \<longrightarrow> r ! j = 0 \<or> r ! j = 1)"

definition zeros_in :: "nat \<Rightarrow> nat \<Rightarrow> int list \<Rightarrow> bool" where
  "zeros_in m n r \<longleftrightarrow> (\<forall>j. m \<le> j \<longrightarrow> j < n \<longrightarrow> r ! j = 0)"

definition finals_below :: "nat \<Rightarrow> int list \<Rightarrow> bool" where
  "finals_below n r \<longleftrightarrow> (\<forall>j<n. final_digit (r ! j))"

lemmas slide_preds = bits_from_def zeros_in_def finals_below_def

lemma low_Suc: "i < length r \<Longrightarrow> low r (Suc i) = low r i + r ! i * 2 ^ i"
  by (simp add: take_Suc_conv_app_nth radix_append)

lemma low_zeros: "zeros_in m (m + k) r \<Longrightarrow> m + k \<le> length r \<Longrightarrow> low r (m + k) = low r m"
proof (induction k)
  case (Suc k)
  then have "zeros_in m (m + k) r" "r ! (m + k) = 0" by (simp_all add: zeros_in_def)
  with Suc show ?case by (simp add: low_Suc)
qed simp

lemma low_window:
  assumes "zeros_in (i + 1) (i + 1 + k) r" "i + 1 + k \<le> length r"
  shows "low r (i + 1 + k) = low r i + r ! i * 2 ^ i"
  using low_zeros [OF assms] assms(2) by (simp add: low_Suc)

lemma radix_split: "radix 2 r = low r n + 2 ^ min n (length r) * radix 2 (drop n r)"
  using radix_append [of 2 "take n r" "drop n r"] by (simp add: min.commute)

lemma radix_ones: "radix 2 (replicate n 1) = 2 ^ n - 1"
  by (induction n) simp_all

lemma slide_carry_spec:
  assumes "length r = 256" "k < 256" "bits_from k r" "\<exists>j<256. k \<le> j \<and> r ! j = 0"
  shows "length (slide_carry k r) = 256 \<and> radix 2 (slide_carry k r) = radix 2 r + 2 ^ k \<and>
    bits_from k (slide_carry k r) \<and> (\<forall>j<k. slide_carry k r ! j = r ! j) \<and> (r ! k = 1 \<longrightarrow> slide_carry k r ! k = 0)"
  using assms
proof (induction k r rule: slide_carry.induct)
  case (1 k r)
  show ?case
  proof (cases "r ! k = 0")
    case True
    then have "slide_carry k r = r[k := 1]" using 1 by (simp add: slide_carry.simps)
    then show ?thesis using 1 True by (auto simp: radix_update bits_from_def nth_list_update)
  next
    case False
    then have s: "slide_carry k r = slide_carry (k + 1) (r[k := 0])" using 1 by (simp add: slide_carry.simps [of k])
    have one: "r ! k = 1" using False 1 by (auto simp: bits_from_def)
    obtain j where j: "j < 256" "k \<le> j" "r ! j = 0" using 1 by blast
    then have "k \<noteq> j" using False by blast
    with j have "k + 1 < 256" "\<exists>j<256. k + 1 \<le> j \<and> r[k := 0] ! j = 0" by (auto intro!: exI [of _ j])
    with 1(1) [OF 1(3) False] 1(2,4)
    have "length (slide_carry k r) = 256 \<and> radix 2 (slide_carry k r) = radix 2 (r[k := 0]) + 2 ^ (k + 1) \<and>
      bits_from (k + 1) (slide_carry k r) \<and> (\<forall>j<k + 1. slide_carry k r ! j = r[k := 0] ! j)"
      unfolding s by (simp add: bits_from_def nth_list_update)
    then show ?thesis using 1(2,3) one
      by (auto simp: radix_update bits_from_def nth_list_update less_Suc_eq_le) (metis le_antisym not_less_eq_eq)
  qed
qed

text \<open>The state inside the window that starts at \<open>i\<close>, before position \<open>i + b\<close> is looked at.\<close>

definition in_window :: "int \<Rightarrow> nat \<Rightarrow> nat \<Rightarrow> int list \<Rightarrow> bool" where
  "in_window v i b r \<longleftrightarrow> length r = 256 \<and> radix 2 r = v \<and> 1 \<le> b \<and> i + b \<le> 256 \<and>
     bits_from (i + b) r \<and> zeros_in (i + 1) (i + b) r \<and> finals_below i r \<and>
     \<bar>low r i\<bar> < 2 ^ i \<and> odd (r ! i) \<and> \<bar>r ! i\<bar> \<le> 15 \<and> \<bar>r ! i\<bar> < 2 ^ b"

text \<open>The state between two windows, before position \<open>i\<close> is looked at.\<close>

definition between_windows :: "int \<Rightarrow> nat \<Rightarrow> int list \<Rightarrow> bool" where
  "between_windows v i r \<longleftrightarrow> length r = 256 \<and> radix 2 r = v \<and>
     (\<exists>n. i \<le> n \<and> n \<le> 256 \<and> bits_from n r \<and> zeros_in i n r \<and> finals_below i r \<and> \<bar>low r n\<bar> < 2 ^ n)"

lemma window_low:
  assumes "in_window v i b r"
  shows "low r (i + b) = low r i + r ! i * 2 ^ i" "\<bar>low r (i + b)\<bar> < 2 ^ (i + b)"
proof -
  obtain k where k: "b = 1 + k" using assms by (metis in_window_def le_iff_add)
  show l: "low r (i + b) = low r i + r ! i * 2 ^ i"
    using low_window [of i k r] assms by (simp add: in_window_def k)
  have "\<bar>r ! i\<bar> \<le> 2 ^ b - 1" using assms by (auto simp: in_window_def)
  then have "\<bar>r ! i * 2 ^ i\<bar> \<le> (2 ^ b - 1) * 2 ^ i" unfolding abs_mult by (intro mult_mono) simp_all
  moreover have "\<bar>low r i\<bar> < 2 ^ i" using assms by (simp add: in_window_def)
  moreover have "(2 ^ b - 1) * 2 ^ i = 2 ^ (i + b) - (2 ^ i :: int)" by (simp add: power_add algebra_simps)
  ultimately show "\<bar>low r (i + b)\<bar> < 2 ^ (i + b)" unfolding l by linarith
qed

lemma window_done:
  assumes "in_window v i b r"
  shows "between_windows v (i + 1) r"
proof -
  have "finals_below (i + 1) r"
    using assms by (auto simp: in_window_def finals_below_def final_digit_def less_Suc_eq)
  then show ?thesis using assms window_low(2) [OF assms] unfolding in_window_def between_windows_def
    by (auto intro!: exI [of _ "i + b"])
qed

lemma window_carry_fits:
  assumes w: "in_window v i b r" and v: "v < 2 ^ 255" and b: "i + b < 256" and pos: "0 < r ! i"
  shows "\<exists>j<256. i + b \<le> j \<and> r ! j = 0"
proof (rule ccontr)
  assume "\<not> ?thesis"
  then have "r ! j = 1" if "i + b \<le> j" "j < 256" for j
    using that w by (auto simp: in_window_def bits_from_def)
  then have "drop (i + b) r = replicate (256 - (i + b)) 1"
    using w by (intro nth_equalityI) (auto simp: in_window_def)
  moreover have "length r = 256" "radix 2 r = v" using w by (simp_all add: in_window_def)
  ultimately have "v = low r (i + b) + 2 ^ (i + b) * (2 ^ (256 - (i + b)) - 1)"
    using radix_split [of r "i + b"] b by (simp add: radix_ones)
  also have "\<dots> = low r (i + b) + (2 ^ 256 - 2 ^ (i + b))"
    using b power_add [of "2::int" "i + b" "256 - (i + b)"] by (simp add: algebra_simps)
  finally have e: "v = low r (i + b) + (2 ^ 256 - 2 ^ (i + b))" .
  have "1 * 2 ^ i \<le> r ! i * 2 ^ i" using pos by (intro mult_right_mono) simp_all
  moreover have "\<bar>low r i\<bar> < 2 ^ i" using w by (simp add: in_window_def)
  ultimately have "0 < low r (i + b)" unfolding window_low(1) [OF w] by linarith
  moreover have "(2 :: int) ^ (i + b) \<le> 2 ^ 255" using b by (intro power_increasing) simp_all
  ultimately show False using e v by simp
qed

lemma window_skip: "in_window v i b r \<Longrightarrow> r ! (i + b) = 0 \<Longrightarrow> i + b < 256 \<Longrightarrow> in_window v i (b + 1) r"
  by (auto simp: in_window_def slide_preds less_Suc_eq)

lemma window_add:
  assumes w: "in_window v i b r" and n: "i + b < 256" "r ! (i + b) = 1" and d: "r ! i + 2 ^ b \<le> 15"
  shows "in_window v i (b + 1) (r[i := r ! i + 2 ^ b, i + b := 0])"
proof -
  have "radix 2 (r[i := r ! i + 2 ^ b, i + b := 0]) = v"
    using w n by (simp add: in_window_def radix_update power_add nth_list_update)
  moreover have "odd (r ! i + 2 ^ b)" "\<bar>r ! i + 2 ^ b\<bar> \<le> 15" "\<bar>r ! i + 2 ^ b\<bar> < 2 ^ (b + 1)"
    using w d by (auto simp: in_window_def)
  ultimately show ?thesis using w n unfolding in_window_def
    by (auto simp: slide_preds nth_list_update less_Suc_eq)
qed

lemma window_sub:
  assumes w: "in_window v i b r" and v: "v < 2 ^ 255" and n: "i + b < 256" "r ! (i + b) = 1"
    and d: "\<not> r ! i + 2 ^ b \<le> 15" "- 15 \<le> r ! i - 2 ^ b"
  shows "in_window v i (b + 1) (slide_carry (i + b) (r[i := r ! i - 2 ^ b]))"
proof -
  define s where "s = r[i := r ! i - 2 ^ b]"
  have b: "1 \<le> b" using w by (simp add: in_window_def)
  have "0 < r ! i" using d by linarith
  then have z: "\<exists>j<256. i + b \<le> j \<and> s ! j = 0"
    using window_carry_fits [OF w v n(1)] b by (auto simp: s_def nth_list_update)
  have "bits_from (i + b) s" "length s = 256" using w b by (auto simp: s_def in_window_def bits_from_def nth_list_update)
  from slide_carry_spec [OF this(2) n(1) this(1) z]
  have c: "length (slide_carry (i + b) s) = 256" "radix 2 (slide_carry (i + b) s) = radix 2 s + 2 ^ (i + b)"
    "bits_from (i + b) (slide_carry (i + b) s)" "\<forall>j<i + b. slide_carry (i + b) s ! j = s ! j" "slide_carry (i + b) s ! (i + b) = 0"
    using n b by (auto simp: s_def nth_list_update)
  have "radix 2 s + 2 ^ (i + b) = v" using w n by (simp add: s_def in_window_def radix_update power_add)
  moreover have "odd (r ! i - 2 ^ b)" "\<bar>r ! i - 2 ^ b\<bar> \<le> 15" "\<bar>r ! i - 2 ^ b\<bar> < 2 ^ (b + 1)"
    using w d by (auto simp: in_window_def)
  moreover have "take i (slide_carry (i + b) s) = take i r"
    using c(1,4) w by (intro nth_equalityI) (auto simp: in_window_def s_def)
  moreover have "slide_carry (i + b) s ! i = r ! i - 2 ^ b" using c(4) b w n by (auto simp: s_def in_window_def)
  moreover have "slide_carry (i + b) s ! j = r ! j" if "j < i + b" "j \<noteq> i" for j
    using c(4) that by (simp add: s_def)
  ultimately show ?thesis using w n c unfolding in_window_def s_def [symmetric]
    by (auto simp: slide_preds less_Suc_eq)
qed

lemma slide_window_spec:
  assumes "in_window v i b r" "v < 2 ^ 255"
  shows "between_windows v (i + 1) (slide_window i b r)"
  using assms
proof (induction i b r rule: slide_window.induct)
  case (1 i b r)
  note w = 1(4) and v = 1(5)
  show ?case
  proof (cases "b \<le> 6 \<and> i + b < 256")
    case False
    then show ?thesis using window_done [OF w] by (simp only: slide_window.simps [of i b] if_False)
  next
    case True
    then have n: "i + b < 256" and b: "b \<le> 6" "1 \<le> b" using w by (simp_all add: in_window_def)
    have s: "\<bar>r ! i\<bar> \<le> 15" using w by (simp add: in_window_def)
    have "r ! (i + b) = 0 \<or> r ! (i + b) = 1" using w n by (auto simp: in_window_def bits_from_def)
    then consider (zero) "r ! (i + b) = 0" | (add) "r ! (i + b) = 1" "r ! i + 2 ^ b \<le> 15"
      | (sub) "r ! (i + b) = 1" "\<not> r ! i + 2 ^ b \<le> 15" "- 15 \<le> r ! i - 2 ^ b"
      | (stop) "r ! (i + b) = 1" "\<not> r ! i + 2 ^ b \<le> 15" "\<not> - 15 \<le> r ! i - 2 ^ b"
      by blast
    then show ?thesis
    proof cases
      case zero
      then show ?thesis using 1(3) [OF True] window_skip [OF w zero n] v True by (simp add: slide_window.simps [of i b])
    next
      case add
      moreover have "0 < (2 :: int) ^ b" by simp
      ultimately have "i8 (r ! i + 2 ^ b) = r ! i + 2 ^ b" using s by (intro i8_exact) linarith+
      then show ?thesis using 1(1) [OF True] window_add [OF w n add] v True add
        by (simp add: slide_window.simps [of i b])
    next
      case sub
      moreover have "0 < (2 :: int) ^ b" by simp
      ultimately have "i8 (r ! i - 2 ^ b) = r ! i - 2 ^ b" using s by (intro i8_exact) linarith+
      then show ?thesis using 1(2) [OF True] window_sub [OF w v n sub] v True sub
        by (simp add: slide_window.simps [of i b])
    next
      case stop
      then show ?thesis using window_done [OF w] True by (simp add: slide_window.simps [of i b])
    qed
  qed
qed

lemma slide_from_spec:
  assumes "between_windows v i r" "v < 2 ^ 255" "i < 256"
  shows "between_windows v (i + 1) (slide_from i r)"
proof -
  obtain n where l: "length r = 256" "radix 2 r = v"
    and n: "i \<le> n" "n \<le> 256" "bits_from n r" "zeros_in i n r" "finals_below i r" "\<bar>low r n\<bar> < 2 ^ n"
    using assms(1) by (auto simp: between_windows_def)
  show ?thesis
  proof (cases "r ! i = 0")
    case True
    then have f: "finals_below (i + 1) r" using n(5) by (auto simp: finals_below_def final_digit_def less_Suc_eq)
    show ?thesis
    proof (cases "n = i")
      case True
      then have "low r (i + 1) = low r n" using \<open>r ! i = 0\<close> l assms(3) by (simp add: low_Suc)
      then have "\<bar>low r (i + 1)\<bar> < 2 ^ (i + 1)" using n(6) True by simp
      moreover have "bits_from (i + 1) r" using n(3) True by (auto simp: bits_from_def)
      ultimately show ?thesis using l f assms(3) \<open>r ! i = 0\<close>
        by (auto simp: slide_from_def between_windows_def zeros_in_def intro!: exI [of _ "i + 1"])
    next
      case False
      then show ?thesis using l n f \<open>r ! i = 0\<close>
        by (auto simp: slide_from_def between_windows_def zeros_in_def intro!: exI [of _ n])
    qed
  next
    case False
    then have "n = i" using n(1,4) by (metis zeros_in_def le_eq_less_or_eq)
    moreover have "r ! i = 1" using False n(3) l assms(3) \<open>n = i\<close> by (auto simp: bits_from_def)
    ultimately have "in_window v i 1 r" using l n assms(3) by (auto simp: in_window_def slide_preds)
    then show ?thesis using slide_window_spec assms(2) False by (simp add: slide_from_def)
  qed
qed

lemma slide_fold_spec:
  "between_windows v 0 r \<Longrightarrow> v < 2 ^ 255 \<Longrightarrow> n \<le> 256 \<Longrightarrow> between_windows v n (fold slide_from [0..<n] r)"
proof (induction n)
  case (Suc n)
  then show ?case using slide_from_spec [of v n] by simp
qed simp

lemma radix_bits: "radix 2 (map (\<lambda>i. v div 2 ^ i mod 2) [0..<n]) = v mod 2 ^ n"
proof (induction n)
  case (Suc n)
  then show ?case by (simp add: radix_append power_Suc2 zmod_zmult2_eq del: power_Suc)
qed simp

lemma slide_bits_value:
  assumes "length a = 32"
  shows "slide_bits a = map (\<lambda>i. le_val a div 2 ^ i mod 2) [0..<256]"
proof -
  have "uint (1 AND drop_bit (i mod 8) (a ! (i div 8))) = le_val a div 2 ^ i mod 2" if "i < 256" for i
  proof -
    have "uint (1 AND drop_bit (i mod 8) (a ! (i div 8))) = uint (a ! (i div 8)) div 2 ^ (i mod 8) mod 2"
      using uint_lt2p [of "a ! (i div 8)"] by (simp only: and_one_eq uint_mod_distrib unsigned_drop_bit_eq and.commute [of 1]) (simp add: take_bit_int_eq_self drop_bit_eq_div)
    also have "\<dots> = le_val a div 256 ^ (i div 8) mod 256 div 2 ^ (i mod 8) mod 2"
      using that assms by (simp add: uint_nth)
    also have "\<dots> = le_val a div 2 ^ i mod 2"
      using slice [of "i mod 8" 1 1 "le_val a" "i div 8"] by simp
    finally show ?thesis .
  qed
  then show ?thesis by (simp add: slide_bits_def)
qed

lemma slide_spec:
  assumes "length a = 32" "le_val a < 2 ^ 255"
  shows "length (slide a) = 256" "radix 2 (slide a) = le_val a" "list_all final_digit (slide a)"
proof -
  have "bits_from 0 (slide_bits a)" by (auto simp: bits_from_def slide_bits_value [OF assms(1)])
  moreover have "radix 2 (slide_bits a) = le_val a"
    using assms(2) by (simp add: slide_bits_value [OF assms(1)] radix_bits)
  ultimately have "between_windows (le_val a) 0 (slide_bits a)"
    by (auto simp: between_windows_def slide_preds slide_bits_def intro!: exI [of _ 0])
  from slide_fold_spec [OF this assms(2), of 256] have "between_windows (le_val a) 256 (slide a)"
    by (simp add: slide_def)
  then show "length (slide a) = 256" "radix 2 (slide a) = le_val a" "list_all final_digit (slide a)"
    by (auto simp: between_windows_def finals_below_def list_all_length)
qed

lemma last_byte:
  assumes "length a = 32"
  shows "a \<noteq> []" "last a = a ! 31"
proof -
  show n: "a \<noteq> []" using assms by auto
  show "last a = a ! 31" using last_conv_nth [OF n] assms by simp
qed

lemma last_nibble: "a \<noteq> [] \<Longrightarrow> last (nibbles a) = uint (last a) div 16"
proof (induction a)
  case (Cons b bs)
  then show ?case by (cases bs) (simp_all add: nibbles_simps)
qed simp

lemma recode_base_recodes:
  assumes "length a = 32" "a ! 31 \<le> 127"
  shows "recodes (le_val a) 64 (recode_base a)"
proof -
  have "nibbles a \<noteq> []" using nibbles_value(3) [of a] assms(1) by auto
  moreover have "last (nibbles a) \<le> 7"
    using last_nibble [of a] last_byte [OF assms(1)] assms(2) by (simp add: word_le_def)
  ultimately show ?thesis using carry_nibbles_recodes [OF nibbles_value(2), of a 0]
    by (simp add: recode_base_def nibbles_value assms)
qed

lemma recode_recodes:
  assumes "length a = 32" "a ! 31 \<le> 127"
  shows "recodes (le_val a) 64 (recode a)"
  using recode_bytes_recodes [of a 0] last_byte [OF assms(1)] assms by (simp add: recode_def)

lemma slide_carry_ones:
  assumes "length r = 256" "\<forall>j<256. k \<le> j \<longrightarrow> r ! j = 1"
  shows "slide_carry k r = take k r @ replicate (256 - k) 0"
  using assms
proof (induction k r rule: slide_carry.induct)
  case (1 k r)
  show ?case
  proof (cases "k < 256")
    case True
    then have o: "r ! k = 1" using 1 by simp
    have "slide_carry (k + 1) (r[k := 0]) = take (k + 1) (r[k := 0]) @ replicate (256 - (k + 1)) 0"
      using 1(1) [OF True] o 1(2,3) by simp
    moreover have "take (k + 1) (r[k := 0]) = take k r @ [0]" using True 1(2) by (simp add: take_Suc_conv_app_nth)
    moreover have "0 # replicate (256 - (k + 1)) (0 :: int) = replicate (256 - k) 0"
      using True by (metis Suc_diff_Suc Suc_eq_plus1 replicate_Suc)
    ultimately show ?thesis using True o by (simp add: slide_carry.simps [of k])
  qed (use 1 in \<open>simp add: slide_carry.simps [of k]\<close>)
qed

lemma slide_from_zeros:
  "\<forall>i. m \<le> i \<longrightarrow> i < 256 \<longrightarrow> r ! i = 0 \<Longrightarrow> fold slide_from [m..<256] r = r"
proof (induction "256 - m" arbitrary: m)
  case (Suc n)
  then have "[m..<256] = m # [m + 1..<256]" by (simp add: upt_conv_Cons)
  then show ?case using Suc by (simp add: slide_from_def)
qed simp

section \<open>Properties\<close>

text \<open>
  \<^verbatim>\<open>slide\<close> recodes every scalar below $2^{255}$ into 256 binary digits of the same value, each zero or
  odd and between $-15$ and 15, so that the tables of odd multiples are indexed in range.
\<close>

theorem slide_correct:
  assumes "length a = 32" "le_val a < 2 ^ 255"
  shows "length (slide a) = 256 \<and> radix 2 (slide a) = le_val a \<and> list_all final_digit (slide a)"
  using slide_spec [OF assms] by blast

theorem slide_correct_witness:
  "radix 2 (slide (le_bytes 32 (2 ^ 255 - 1))) = 2 ^ 255 - 1"
proof -
  have "le_val (le_bytes 32 (2 ^ 255 - 1)) = 2 ^ 255 - 1" by (simp add: le_val_le_bytes)
  with slide_correct [of "le_bytes 32 (2 ^ 255 - 1)"] show ?thesis by simp
qed

text \<open>
  The two radix-16 recodings, by nibbles in \<^verbatim>\<open>ge_scalarmult_base\<close> and by bytes in \<^verbatim>\<open>ge_scalarmult\<close>,
  both give 64 digits between $-8$ and 8 with the value of the scalar, for every scalar with
  \<^verbatim>\<open>a[31] <= 127\<close> as their comments require; no signed char overflows.
\<close>

theorem recodings_correct:
  assumes "length a = 32" "a ! 31 \<le> 127"
  shows "recodes (le_val a) 64 (recode_base a) \<and> recodes (le_val a) 64 (recode a)"
  using recode_base_recodes [OF assms] recode_recodes [OF assms] by blast

theorem recodings_correct_witness:
  "recodes (le_val (replicate 32 127)) 64 (recode_base (replicate 32 127)) \<and>
   recodes (le_val (replicate 32 127)) 64 (recode (replicate 32 127))"
proof -
  have "length (replicate 32 (127 :: byte)) = 32" "replicate 32 (127 :: byte) ! 31 \<le> 127" by simp_all
  then show ?thesis by (rule recodings_correct)
qed

text \<open>
  Without that bound the carry out of position 255 is lost: on 32 bytes of 255, a scalar of
  $2^{256} - 1$, the digits of \<^verbatim>\<open>slide\<close> have the value $-1$.
\<close>

theorem slide_drops_carry: "radix 2 (slide (replicate 32 255)) = - 1"
proof -
  let ?z = "- 1 # replicate 255 (0 :: int)"
  have "uint (1 AND drop_bit (i mod 8) (255 :: byte)) = 1" for i
  proof -
    have "i mod 8 \<in> {0, 1, 2, 3, 4, 5, 6, 7}" by auto
    then show ?thesis by auto
  qed
  then have e: "slide_bits (replicate 32 255) = replicate 256 1"
    by (intro nth_equalityI) (simp_all add: slide_bits_def)
  have "slide_carry 4 ((replicate 256 1)[0 := - 1, 1 := 0, 2 := 0, 3 := 0]) = ?z"
    by (subst slide_carry_ones) (auto simp: nth_list_update nth_append nth_Cons' intro!: nth_equalityI)
  moreover have "slide_window 0 1 (replicate 256 1) = slide_window 0 2 ((replicate 256 1)[0 := 3, 1 := 0])"
    by (subst slide_window.simps) (simp add: i8_exact numeral_2_eq_2)
  moreover have "slide_window 0 2 ((replicate 256 1)[0 := 3, 1 := 0]) =
      slide_window 0 3 ((replicate 256 1)[0 := 7, 1 := 0, 2 := 0])"
    by (subst slide_window.simps) (simp add: i8_exact list_update_swap [of 0] nth_list_update numeral_2_eq_2 numeral_3_eq_3)
  moreover have "slide_window 0 3 ((replicate 256 1)[0 := 7, 1 := 0, 2 := 0]) =
      slide_window 0 4 ((replicate 256 1)[0 := 15, 1 := 0, 2 := 0, 3 := 0])"
    by (subst slide_window.simps) (simp add: i8_exact list_update_swap [of 0] nth_list_update)
  moreover have "slide_window 0 4 ((replicate 256 1)[0 := 15, 1 := 0, 2 := 0, 3 := 0]) =
      slide_window 0 5 (slide_carry 4 ((replicate 256 1)[0 := - 1, 1 := 0, 2 := 0, 3 := 0]))"
    by (subst slide_window.simps) (simp add: i8_exact list_update_swap [of 0] nth_list_update)
  moreover have "slide_window 0 5 ?z = ?z"
    by (simp add: slide_window.simps [of 0 5] slide_window.simps [of 0 6] slide_window.simps [of 0 7])
  ultimately have "slide_window 0 1 (replicate 256 1) = ?z" by (simp only:)
  then have "slide_from 0 (replicate 256 1) = ?z" by (simp add: slide_from_def)
  moreover have "fold slide_from [1..<256] ?z = ?z" by (rule slide_from_zeros) (auto simp: nth_Cons')
  moreover have "[0..<256] = 0 # [1..<256]" unfolding One_nat_def by (rule upt_conv_Cons) simp
  ultimately have "slide (replicate 32 255) = ?z" by (simp only: slide_def e fold_simps)
  moreover have "radix 2 (replicate n 0) = 0" for n by (induction n) simp_all
  ultimately show ?thesis by simp
qed

end
