(* ===== verification/Ge_Mult.thy ===== *)
theory Ge_Mult
  imports Ge_Arith Sc_Recode "HOL-Library.Monad_Syntax"
begin

text \<open>
  Multiplication of curve points by scalars in \<^verbatim>\<open>src/src/crypto/crypto-ops.c\<close>: the constant-time table
  lookups, the single multiplications with radix-16 digits, and the double multiplications with
  sliding windows.  Each result is shown to be the combination $a A + b B$ that the scalars ask for,
  built by the addition, doubling and negation formulas of \<open>Ge_Arith\<close>.
\<close>

section \<open>Table lookups\<close>

text \<open>\<^verbatim>\<open>equal\<close> and \<^verbatim>\<open>negative\<close> on signed chars, and the magnitude of a digit.\<close>

definition equal_char :: "int \<Rightarrow> int \<Rightarrow> byte" where
  "equal_char b c =
    (let ub = word_of_int b :: byte;
         uc = word_of_int c :: byte;
         x = ub XOR uc;
         y = ucast x :: 32 word;
         y = y - 1;
         y = drop_bit 31 y
     in ucast y)"

definition negative_char :: "int \<Rightarrow> byte" where
  "negative_char b =
    (let x = word_of_int b :: 64 word;
         x = drop_bit 63 x
     in ucast x)"

definition babs :: "int \<Rightarrow> byte" where
  "babs b = word_of_int (b - (- uint (negative_char b) AND b) * 2 ^ 1)"

definition ge_precomp_cmov :: "ge_precomp \<Rightarrow> ge_precomp \<Rightarrow> byte \<Rightarrow> ge_precomp option" where
  "ge_precomp_cmov t u b = do {
     p \<leftarrow> fe_cmov (yplusx t) (yplusx u) (ucast b);
     m \<leftarrow> fe_cmov (yminusx t) (yminusx u) (ucast b);
     d \<leftarrow> fe_cmov (xy2d t) (xy2d u) (ucast b);
     Some \<lparr>yplusx = p, yminusx = m, xy2d = d\<rparr> }"

definition ge_cached_cmov :: "ge_cached \<Rightarrow> ge_cached \<Rightarrow> byte \<Rightarrow> ge_cached option" where
  "ge_cached_cmov t u b = do {
     p \<leftarrow> fe_cmov (YplusX t) (YplusX u) (ucast b);
     m \<leftarrow> fe_cmov (YminusX t) (YminusX u) (ucast b);
     z \<leftarrow> fe_cmov (Zc t) (Zc u) (ucast b);
     d \<leftarrow> fe_cmov (T2d t) (T2d u) (ucast b);
     Some \<lparr>YplusX = p, YminusX = m, Zc = z, T2d = d\<rparr> }"

text \<open>The consecutive calls \<^verbatim>\<open>cmov(t, &table[k - 1], equal(babs, k))\<close> for \<^verbatim>\<open>k\<close> from 1 on.\<close>

fun cmov_all :: "('a \<Rightarrow> 'a \<Rightarrow> byte \<Rightarrow> 'a option) \<Rightarrow> byte \<Rightarrow> int \<Rightarrow> 'a list \<Rightarrow> 'a \<Rightarrow> 'a option" where
  "cmov_all cmov ab k [] t = Some t"
| "cmov_all cmov ab k (u # us) t = do {
     t \<leftarrow> cmov t u (equal_char (i8 (uint ab)) k);
     cmov_all cmov ab (k + 1) us t }"

definition select_precomp :: "ge_precomp list list \<Rightarrow> nat \<Rightarrow> int \<Rightarrow> ge_precomp option" where
  "select_precomp base pos b = do {
     t \<leftarrow> cmov_all ge_precomp_cmov (babs b) 1 (base ! pos) ge_precomp_0;
     ge_precomp_cmov t \<lparr>yplusx = fe_copy (yminusx t), yminusx = fe_copy (yplusx t), xy2d = fe_neg (xy2d t)\<rparr>
       (negative_char b) }"

definition select_cached :: "ge_cached list \<Rightarrow> int \<Rightarrow> ge_cached option" where
  "select_cached Ai b = do {
     cur \<leftarrow> cmov_all ge_cached_cmov (babs b) 1 Ai ge_cached_0;
     ge_cached_cmov cur \<lparr>YplusX = fe_copy (YminusX cur), YminusX = fe_copy (YplusX cur), Zc = fe_copy (Zc cur),
       T2d = fe_neg (T2d cur)\<rparr> (negative_char b) }"

section \<open>Single multiplications\<close>

text \<open>
  A loop over digits from the most significant one: \<open>step\<close> is the loop body up to the final
  conversion, \<open>settle\<close> that conversion; the \<^verbatim>\<open>_p3\<close> variants convert differently in the last round.
  An assertion that fails ends the loop with \<^const>\<open>None\<close>.
\<close>

fun run :: "('d \<Rightarrow> 's \<Rightarrow> 't option) \<Rightarrow> ('t \<Rightarrow> 's) \<Rightarrow> 'd list \<Rightarrow> 's \<Rightarrow> 's option" where
  "run step settle [] r = Some r"
| "run step settle (d # ds) r = do { t \<leftarrow> step d r; run step settle ds (settle t) }"

fun run_last :: "('d \<Rightarrow> 's \<Rightarrow> 't option) \<Rightarrow> ('t \<Rightarrow> 's) \<Rightarrow> ('t \<Rightarrow> 'u) \<Rightarrow> 'd list \<Rightarrow> 'u \<Rightarrow> 's \<Rightarrow> 'u option" where
  "run_last step settle final [] u r = Some u"
| "run_last step settle final [d] u r = do { t \<leftarrow> step d r; Some (final t) }"
| "run_last step settle final (d # ds) u r = do { t \<leftarrow> step d r; run_last step settle final ds u (settle t) }"

text \<open>
  The table \<^verbatim>\<open>Ai\<close> of $A, 2 A, \ldots, 8 A$: each entry is the sum of \<open>A\<close> and the one before.  The
  assignments of \<^verbatim>\<open>ge_dsm_precomp\<close> below have the same form.
\<close>

fun add_multiples :: "nat \<Rightarrow> ge_p3 \<Rightarrow> ge_cached \<Rightarrow> ge_cached list" where
  "add_multiples 0 A c = [c]"
| "add_multiples (Suc n) A c =
    (let t = ge_add A c;
         u = ge_p1p1_to_p3 t
     in c # add_multiples n A (ge_p3_to_cached u))"

definition mult_table :: "ge_p3 \<Rightarrow> ge_cached list" where
  "mult_table A = add_multiples 7 A (ge_p3_to_cached A)"

definition scalarmult_step :: "ge_cached list \<Rightarrow> int \<Rightarrow> ge_p2 \<Rightarrow> ge_p1p1 option" where
  "scalarmult_step Ai b r =
    (let r = ge_p1p1_to_p2 (ge_p2_dbl r);
         r = ge_p1p1_to_p2 (ge_p2_dbl r);
         r = ge_p1p1_to_p2 (ge_p2_dbl r);
         u = ge_p1p1_to_p3 (ge_p2_dbl r)
     in do {
       cur \<leftarrow> select_cached Ai b;
       Some (ge_add u cur) })"

definition ge_scalarmult :: "bytes \<Rightarrow> ge_p3 \<Rightarrow> ge_p2 option" where
  "ge_scalarmult a A = run (scalarmult_step (mult_table A)) ge_p1p1_to_p2 (rev (recode a)) ge_p2_0"

definition ge_scalarmult_p3 :: "ge_p3 \<Rightarrow> bytes \<Rightarrow> ge_p3 \<Rightarrow> ge_p3 option" where
  "ge_scalarmult_p3 r3 a A =
     run_last (scalarmult_step (mult_table A)) ge_p1p1_to_p2 ge_p1p1_to_p3 (rev (recode a)) r3 ge_p2_0"

text \<open>
  \<^verbatim>\<open>ge_scalarmult_base\<close> adds the odd digits, multiplies by 16 and adds the even ones.  Row \<^verbatim>\<open>i\<close> of the
  table \<^verbatim>\<open>ge_base\<close> is for the digits at $2 i$ and $2 i + 1$.
\<close>

fun base_adds :: "ge_precomp list list \<Rightarrow> nat \<Rightarrow> int list \<Rightarrow> ge_p3 \<Rightarrow> ge_p3 option" where
  "base_adds base pos [] h = Some h"
| "base_adds base pos (e # es) h = do {
     t \<leftarrow> select_precomp base pos e;
     base_adds base (pos + 1) es (ge_p1p1_to_p3 (ge_madd h t)) }"

definition odd_digits :: "int list \<Rightarrow> int list" where
  "odd_digits e = map (\<lambda>i. e ! (2 * i + 1)) [0..<length e div 2]"

definition even_digits :: "int list \<Rightarrow> int list" where
  "even_digits e = map (\<lambda>i. e ! (2 * i)) [0..<length e div 2]"

definition scalarmult_base_with :: "ge_precomp list list \<Rightarrow> bytes \<Rightarrow> ge_p3 option" where
  "scalarmult_base_with base a =
    (let e = recode_base a
     in do {
       h \<leftarrow> base_adds base 0 (odd_digits e) ge_p3_0;
       let s = ge_p1p1_to_p2 (ge_p3_dbl h);
           s = ge_p1p1_to_p2 (ge_p2_dbl s);
           s = ge_p1p1_to_p2 (ge_p2_dbl s);
           h = ge_p1p1_to_p3 (ge_p2_dbl s)
       in base_adds base 0 (even_digits e) h })"

section \<open>Double multiplications\<close>

text \<open>\<^verbatim>\<open>ge_dsm_precomp\<close>: the table of $A, 3 A, \ldots, 15 A$.\<close>

definition ge_dsm_precomp :: "ge_p3 \<Rightarrow> ge_cached list" where
  "ge_dsm_precomp s = add_multiples 7 (ge_p1p1_to_p3 (ge_p3_dbl s)) (ge_p3_to_cached s)"

text \<open>One digit of a scalar, with the operations that add and subtract a table entry.\<close>

definition dsm_digit :: "(ge_p3 \<Rightarrow> 'c \<Rightarrow> ge_p1p1) \<Rightarrow> (ge_p3 \<Rightarrow> 'c \<Rightarrow> ge_p1p1) \<Rightarrow> 'c list \<Rightarrow> int \<Rightarrow> ge_p1p1 \<Rightarrow> ge_p1p1" where
  "dsm_digit add sub table e t =
    (if e > 0 then add (ge_p1p1_to_p3 t) (table ! nat (e div 2))
     else if e < 0 then sub (ge_p1p1_to_p3 t) (table ! nat ((- e) div 2))
     else t)"

definition dsm_base_step :: "ge_precomp list \<Rightarrow> ge_cached list \<Rightarrow> int \<times> int \<Rightarrow> ge_p2 \<Rightarrow> ge_p1p1 option" where
  "dsm_base_step Bi Ai d r = Some (dsm_digit ge_madd ge_msub Bi (snd d) (dsm_digit ge_add ge_sub Ai (fst d) (ge_p2_dbl r)))"

definition dsm_step :: "ge_cached list \<Rightarrow> ge_cached list \<Rightarrow> int \<times> int \<Rightarrow> ge_p2 \<Rightarrow> ge_p1p1 option" where
  "dsm_step Ai Bi d r = Some (dsm_digit ge_add ge_sub Bi (snd d) (dsm_digit ge_add ge_sub Ai (fst d) (ge_p2_dbl r)))"

text \<open>The digits from the most significant pair that is not zero on.\<close>

definition dsm_digits :: "bytes \<Rightarrow> bytes \<Rightarrow> (int \<times> int) list" where
  "dsm_digits a b = dropWhile (\<lambda>(x, y). x = 0 \<and> y = 0) (rev (zip (slide a) (slide b)))"

definition double_scalarmult_base_with :: "ge_precomp list \<Rightarrow> bytes \<Rightarrow> ge_p3 \<Rightarrow> bytes \<Rightarrow> ge_p2 option" where
  "double_scalarmult_base_with Bi a A b =
     run (dsm_base_step Bi (ge_dsm_precomp A)) ge_p1p1_to_p2 (dsm_digits a b) ge_p2_0"

text \<open>The \<^verbatim>\<open>_p3\<close> variants write their result only in the round \<^verbatim>\<open>i == 0\<close>; \<open>r3\<close> is what it held before.\<close>

definition double_scalarmult_base_p3_with :: "ge_precomp list \<Rightarrow> ge_p3 \<Rightarrow> bytes \<Rightarrow> ge_p3 \<Rightarrow> bytes \<Rightarrow> ge_p3 option" where
  "double_scalarmult_base_p3_with Bi r3 a A b =
     run_last (dsm_base_step Bi (ge_dsm_precomp A)) ge_p1p1_to_p2 ge_p1p1_to_p3 (dsm_digits a b) r3 ge_p2_0"

definition ge_double_scalarmult_precomp_vartime2 :: "bytes \<Rightarrow> ge_cached list \<Rightarrow> bytes \<Rightarrow> ge_cached list \<Rightarrow> ge_p2 option" where
  "ge_double_scalarmult_precomp_vartime2 a Ai b Bi = run (dsm_step Ai Bi) ge_p1p1_to_p2 (dsm_digits a b) ge_p2_0"

definition ge_double_scalarmult_precomp_vartime2_p3 ::
    "ge_p3 \<Rightarrow> bytes \<Rightarrow> ge_cached list \<Rightarrow> bytes \<Rightarrow> ge_cached list \<Rightarrow> ge_p3 option" where
  "ge_double_scalarmult_precomp_vartime2_p3 r3 a Ai b Bi =
     run_last (dsm_step Ai Bi) ge_p1p1_to_p2 ge_p1p1_to_p3 (dsm_digits a b) r3 ge_p2_0"

definition ge_double_scalarmult_precomp_vartime :: "bytes \<Rightarrow> ge_p3 \<Rightarrow> bytes \<Rightarrow> ge_cached list \<Rightarrow> ge_p2 option" where
  "ge_double_scalarmult_precomp_vartime a A b Bi = ge_double_scalarmult_precomp_vartime2 a (ge_dsm_precomp A) b Bi"

section \<open>Combinations of two points\<close>

text \<open>
  \<open>same_pt\<close>: the same projective point, the coordinates of the one being a unit times those of the
  other.  \<open>combo A B m n P\<close>: \<open>P\<close> is obtained from \<open>A\<close> and \<open>B\<close> by the formulas for addition, doubling
  and negation, in such a way that it stands for $m A + n B$.
\<close>

definition same_pt :: "ext \<Rightarrow> ext \<Rightarrow> bool" where
  "same_pt P Q \<longleftrightarrow> (case P of (X, Y, Z, T) \<Rightarrow> case Q of (X', Y', Z', T') \<Rightarrow>
     \<exists>k l. k * l mod p25519 = 1 \<and> X' mod p25519 = k * X mod p25519 \<and> Y' mod p25519 = k * Y mod p25519 \<and>
       Z' mod p25519 = k * Z mod p25519 \<and> T' mod p25519 = k * T mod p25519)"

lemma same_ptI:
  "k * l mod p25519 = 1 \<Longrightarrow> X' mod p25519 = k * X mod p25519 \<Longrightarrow> Y' mod p25519 = k * Y mod p25519 \<Longrightarrow>
   Z' mod p25519 = k * Z mod p25519 \<Longrightarrow> T' mod p25519 = k * T mod p25519 \<Longrightarrow> same_pt (X, Y, Z, T) (X', Y', Z', T')"
  unfolding same_pt_def prod.case by blast

inductive combo :: "ext \<Rightarrow> ext \<Rightarrow> int \<Rightarrow> int \<Rightarrow> ext \<Rightarrow> bool" for A B where
  combo_0: "combo A B 0 0 pt_0"
| combo_left: "combo A B 1 0 A"
| combo_right: "combo A B 0 1 B"
| combo_add: "combo A B m n P \<Longrightarrow> combo A B m' n' Q \<Longrightarrow> combo A B (m + m') (n + n') (add_pt P Q)"
| combo_dbl: "combo A B m n P \<Longrightarrow> combo A B (2 * m) (2 * n) (dbl_pt P)"
| combo_neg: "combo A B m n P \<Longrightarrow> combo A B (- m) (- n) (neg_pt P)"
| combo_same: "combo A B m n P \<Longrightarrow> same_pt P Q \<Longrightarrow> combo A B m n Q"

lemma same_pt_on_curve:
  assumes "same_pt P Q" "on_curve P"
  shows "on_curve Q"
proof -
  obtain X Y Z T X' Y' Z' T' where e: "P = (X, Y, Z, T)" "Q = (X', Y', Z', T')" by (metis prod.collapse)
  obtain k where k: "X' mod p25519 = k * X mod p25519" "Y' mod p25519 = k * Y mod p25519"
      "Z' mod p25519 = k * Z mod p25519" "T' mod p25519 = k * T mod p25519"
    using assms(1) by (auto simp: e same_pt_def)
  have "X' * Y' mod p25519 = k * X * (k * Y) mod p25519" "Z' * T' mod p25519 = k * Z * (k * T) mod p25519"
    by (rule mod_mult_cong; rule k)+
  then have "(X' * Y' - Z' * T') mod p25519 = (k * X * (k * Y) - k * Z * (k * T)) mod p25519"
    by (rule mod_diff_cong)
  moreover have "k * X * (k * Y) - k * Z * (k * T) = k * k * (X * Y - Z * T)" by algebra
  moreover have sq: "X' ^ 2 mod p25519 = (k * X) ^ 2 mod p25519" "Y' ^ 2 mod p25519 = (k * Y) ^ 2 mod p25519"
      "Z' ^ 2 mod p25519 = (k * Z) ^ 2 mod p25519" "T' ^ 2 mod p25519 = (k * T) ^ 2 mod p25519"
    unfolding power2_eq_square by (rule mod_mult_cong; rule k)+
  have "(Y' ^ 2 - X' ^ 2 - (Z' ^ 2 + curve_d * T' ^ 2)) mod p25519 =
      ((k * Y) ^ 2 - (k * X) ^ 2 - ((k * Z) ^ 2 + curve_d * (k * T) ^ 2)) mod p25519"
    by (intro mod_diff_cong mod_add_cong mod_mult_cong sq refl)
  moreover have "(k * Y) ^ 2 - (k * X) ^ 2 - ((k * Z) ^ 2 + curve_d * (k * T) ^ 2) =
      k * k * (Y ^ 2 - X ^ 2 - (Z ^ 2 + curve_d * T ^ 2))" by algebra
  ultimately show ?thesis using assms(2) unfolding e on_curve.simps dvd_eq_mod_eq_0
    by (metis mod_mult_right_eq mult_zero_right mod_0)
qed

lemma combo_on_curve:
  assumes "combo A B m n P" "on_curve A" "on_curve B"
  shows "on_curve P"
  using assms by induction (auto intro: on_curve_0 on_curve_add on_curve_dbl on_curve_neg same_pt_on_curve)

lemma same_pt_refl: "same_pt P P"
  by (cases P) (auto simp: same_pt_def p25519_def intro!: exI [of _ 1])

text \<open>Limbs that stand for a combination.\<close>

definition p3_combo :: "ext \<Rightarrow> ext \<Rightarrow> int \<Rightarrow> int \<Rightarrow> ge_p3 \<Rightarrow> bool" where
  "p3_combo A B m n p \<longleftrightarrow> (\<exists>P. combo A B m n P \<and> is_p3 P p)"

definition p2_combo :: "ext \<Rightarrow> ext \<Rightarrow> int \<Rightarrow> int \<Rightarrow> ge_p2 \<Rightarrow> bool" where
  "p2_combo A B m n p \<longleftrightarrow> (\<exists>P. combo A B m n P \<and> is_p2 P p)"

definition p1p1_combo :: "ext \<Rightarrow> ext \<Rightarrow> int \<Rightarrow> int \<Rightarrow> ge_p1p1 \<Rightarrow> bool" where
  "p1p1_combo A B m n t \<longleftrightarrow> (\<exists>P. combo A B m n (extend P) \<and> is_p1p1 P t)"

definition cached_combo :: "ext \<Rightarrow> ext \<Rightarrow> int \<Rightarrow> int \<Rightarrow> ge_cached \<Rightarrow> bool" where
  "cached_combo A B m n c \<longleftrightarrow> (\<exists>P. combo A B m n P \<and> is_cached P c)"

definition precomp_combo :: "ext \<Rightarrow> ext \<Rightarrow> int \<Rightarrow> int \<Rightarrow> ge_precomp \<Rightarrow> bool" where
  "precomp_combo A B m n c \<longleftrightarrow> (\<exists>P. combo A B m n P \<and> is_precomp P c)"

lemmas combo_defs = p3_combo_def p2_combo_def p1p1_combo_def cached_combo_def precomp_combo_def

lemma combo_to:
  "p1p1_combo A B m n t \<Longrightarrow> p3_combo A B m n (ge_p1p1_to_p3 t)"
  "p1p1_combo A B m n t \<Longrightarrow> p2_combo A B m n (ge_p1p1_to_p2 t)"
  "p3_combo A B m n p \<Longrightarrow> cached_combo A B m n (ge_p3_to_cached p)"
  "p2_combo A B 0 0 ge_p2_0" "p3_combo A B 0 0 ge_p3_0" "cached_combo A B 0 0 ge_cached_0" "precomp_combo A B 0 0 ge_precomp_0"
  unfolding combo_defs by (blast intro: ge_p1p1_is ge_p3_to_is combo_0 ge_0_is)+

lemma combo_dbls:
  "p2_combo A B m n r \<Longrightarrow> p1p1_combo A B (2 * m) (2 * n) (ge_p2_dbl r)"
  "p3_combo A B m n p \<Longrightarrow> p1p1_combo A B (2 * m) (2 * n) (ge_p3_dbl p)"
  unfolding combo_defs by (blast intro: ge_p2_dbl_is ge_p3_dbl_is combo_dbl [unfolded dbl_pt_def])+

lemma combo_adds:
  "p3_combo A B m n p \<Longrightarrow> cached_combo A B m' n' c \<Longrightarrow> p1p1_combo A B (m + m') (n + n') (ge_add p c)"
  "p3_combo A B m n p \<Longrightarrow> cached_combo A B m' n' c \<Longrightarrow> p1p1_combo A B (m + - m') (n + - n') (ge_sub p c)"
  "p3_combo A B m n p \<Longrightarrow> precomp_combo A B m' n' q \<Longrightarrow> p1p1_combo A B (m + m') (n + n') (ge_madd p q)"
  "p3_combo A B m n p \<Longrightarrow> precomp_combo A B m' n' q \<Longrightarrow> p1p1_combo A B (m + - m') (n + - n') (ge_msub p q)"
  unfolding combo_defs by (blast intro: ge_add_is ge_madd_is combo_add [unfolded add_pt_def] combo_neg)+

section \<open>The lookups select\<close>

lemma equal_char_value:
  assumes "0 \<le> b" "b < 128" "0 \<le> c" "c < 128"
  shows "equal_char b c = (if b = c then 1 else 0)"
proof (cases "b = c")
  case False
  define x where "x = (word_of_int b XOR word_of_int c :: byte)"
  have "(word_of_int b :: byte) \<noteq> word_of_int c"
    using assms False by (simp add: word_of_int_eq_iff take_bit_int_eq_self)
  moreover have "x XOR word_of_int c = word_of_int b" by (simp add: x_def xor.assoc)
  ultimately have "x \<noteq> 0" by auto
  then have "uint x \<noteq> 0" by (simp add: unsigned_eq_0_iff)
  then have "1 \<le> uint x" using uint_ge_0 [of x] by linarith
  moreover have "uint x < 256" using uint_lt2p [of x] by simp
  ultimately have "uint ((ucast x :: 32 word) - 1) = uint x - 1"
    by (simp add: uint_word_ariths unsigned_ucast_eq take_bit_int_eq_self)
  then have "uint (drop_bit 31 ((ucast x :: 32 word) - 1)) = 0"
    using \<open>uint x < 256\<close> \<open>1 \<le> uint x\<close> by (simp only: unsigned_drop_bit_eq) (simp add: drop_bit_eq_div take_bit_int_eq_self)
  then have "drop_bit 31 ((ucast x :: 32 word) - 1) = 0" by (simp only: unsigned_eq_0_iff)
  then show ?thesis using False by (simp add: equal_char_def Let_def x_def [symmetric])
qed (simp add: equal_char_def)

lemma negative_char_value:
  assumes "- 128 \<le> b" "b < 128"
  shows "negative_char b = (if b < 0 then 1 else 0)"
proof -
  have "uint (drop_bit 63 (word_of_int b :: 64 word)) = (if b < 0 then 1 else 0)"
  proof (cases "b < 0")
    case True
    then have "b mod 2 ^ 64 = b + 2 ^ 64" using assms by (intro mod_pos_pos_trivial [of "b + 2 ^ 64" "2 ^ 64", simplified mod_add_self2]) auto
    then show ?thesis using True assms
      by (simp only: unsigned_drop_bit_eq uint_word_of_int) (simp add: drop_bit_eq_div take_bit_eq_mod)
  next
    case False
    then show ?thesis using assms
      by (simp only: unsigned_drop_bit_eq uint_word_of_int) (simp add: drop_bit_eq_div take_bit_int_eq_self)
  qed
  then have "drop_bit 63 (word_of_int b :: 64 word) = (if b < 0 then 1 else 0)"
    by (metis (full_types) uint_0_eq uint_1_eq word_uint_eqI)
  then show ?thesis by (simp add: negative_char_def Let_def)
qed

lemma babs_value: "- 128 < b \<Longrightarrow> b < 128 \<Longrightarrow> uint (babs b) = \<bar>b\<bar>"
proof -
  assume b: "- 128 < b" "b < 128"
  have "b - (- uint (negative_char b) AND b) * 2 ^ 1 = \<bar>b\<bar>" using b by (simp add: negative_char_value)
  then show ?thesis using b by (simp only: babs_def uint_word_of_int) (simp add: take_bit_int_eq_self)
qed

text \<open>What a lookup needs of a conditional move.\<close>

locale selector =
  fixes cmov :: "'a \<Rightarrow> 'a \<Rightarrow> byte \<Rightarrow> 'a option" and good :: "'a \<Rightarrow> bool"
  assumes keep: "good t \<Longrightarrow> good u \<Longrightarrow> cmov t u 0 = Some t"
    and move: "good t \<Longrightarrow> good u \<Longrightarrow> cmov t u 1 = Some u"
begin

lemma cmov_all_keeps:
  "good t \<Longrightarrow> list_all good us \<Longrightarrow> 0 \<le> k \<Longrightarrow> k + int (length us) \<le> 128 \<Longrightarrow> uint ab < 128 \<Longrightarrow>
   uint ab < k \<or> k + int (length us) \<le> uint ab \<Longrightarrow> cmov_all cmov ab k us t = Some t"
proof (induction us arbitrary: k)
  case (Cons u us)
  have "i8 (uint ab) = uint ab" using Cons.prems uint_ge_0 [of ab] by (intro i8_exact) linarith+
  then have "equal_char (i8 (uint ab)) k = 0" using Cons.prems by (subst equal_char_value) auto
  then have "cmov_all cmov ab k (u # us) t = cmov_all cmov ab (k + 1) us t" using Cons.prems keep by simp
  also have "\<dots> = Some t" using Cons.prems by (intro Cons.IH) auto
  finally show ?case .
qed simp

lemma cmov_all_moves:
  "good t \<Longrightarrow> list_all good us \<Longrightarrow> 0 \<le> k \<Longrightarrow> k + int (length us) \<le> 128 \<Longrightarrow> uint ab < 128 \<Longrightarrow>
   k \<le> uint ab \<Longrightarrow> uint ab < k + int (length us) \<Longrightarrow> cmov_all cmov ab k us t = Some (us ! nat (uint ab - k))"
proof (induction us arbitrary: k)
  case (Cons u us)
  have i: "i8 (uint ab) = uint ab" using Cons.prems by (intro i8_exact) auto
  show ?case
  proof (cases "uint ab = k")
    case True
    then have "equal_char (i8 (uint ab)) k = 1" using Cons.prems i by (subst equal_char_value) auto
    then have "cmov_all cmov ab k (u # us) t = cmov_all cmov ab (k + 1) us u" using Cons.prems move by simp
    also have "\<dots> = Some u" using Cons.prems True by (intro cmov_all_keeps) auto
    finally show ?thesis using True by simp
  next
    case False
    then have "equal_char (i8 (uint ab)) k = 0" using Cons.prems i by (subst equal_char_value) auto
    then have "cmov_all cmov ab k (u # us) t = cmov_all cmov ab (k + 1) us t" using Cons.prems keep by simp
    also have "\<dots> = Some (us ! nat (uint ab - (k + 1)))" using Cons.prems False by (intro Cons.IH) auto
    moreover have "nat (uint ab - k) = Suc (nat (uint ab - (k + 1)))"
      using False Cons.prems by (subst Suc_nat_eq_nat_zadd1) auto
    ultimately show ?thesis by (simp only: nth_Cons_Suc)
  qed
qed simp

lemma lookup:
  assumes "good t" "list_all good us" "length us = 8" "- 8 \<le> b" "b \<le> 8"
  shows "cmov_all cmov (babs b) 1 us t = Some (if b = 0 then t else us ! nat (\<bar>b\<bar> - 1))"
proof -
  have u: "uint (babs b) = \<bar>b\<bar>" using assms(4,5) by (intro babs_value) auto
  show ?thesis
  proof (cases "b = 0")
    case True
    then show ?thesis using cmov_all_keeps [OF assms(1,2), of 1 "babs b"] assms(3) u by simp
  next
    case False
    then show ?thesis using cmov_all_moves [OF assms(1,2), of 1 "babs b"] assms(3-5) u by simp
  qed
qed

end

definition good_precomp :: "ge_precomp \<Rightarrow> bool" where
  "good_precomp t \<longleftrightarrow> fe_bounded 220 (yplusx t) \<and> fe_bounded 220 (yminusx t) \<and> fe_bounded 220 (xy2d t)"

definition good_cached :: "ge_cached \<Rightarrow> bool" where
  "good_cached t \<longleftrightarrow> fe_bounded 220 (YplusX t) \<and> fe_bounded 220 (YminusX t) \<and> fe_bounded 220 (Zc t) \<and> fe_bounded 220 (T2d t)"

interpretation precomp: selector ge_precomp_cmov good_precomp
  by unfold_locales (simp_all add: ge_precomp_cmov_def good_precomp_def fe_cmov_value [of 220])

interpretation cached: selector ge_cached_cmov good_cached
  by unfold_locales (simp_all add: ge_cached_cmov_def good_cached_def fe_cmov_value [of 220])

text \<open>A lookup with a negative digit swaps the two sums and negates the last component.\<close>

definition minus_precomp :: "ge_precomp \<Rightarrow> ge_precomp" where
  "minus_precomp t = \<lparr>yplusx = fe_copy (yminusx t), yminusx = fe_copy (yplusx t), xy2d = fe_neg (xy2d t)\<rparr>"

definition minus_cached :: "ge_cached \<Rightarrow> ge_cached" where
  "minus_cached c = \<lparr>YplusX = fe_copy (YminusX c), YminusX = fe_copy (YplusX c), Zc = fe_copy (Zc c), T2d = fe_neg (T2d c)\<rparr>"

lemma is_cached_facts:
  assumes "is_cached P c"
  shows "good_cached c" "is_cached (neg_pt P) (minus_cached c)"
proof -
  obtain X Y Z T where e: "P = (X, Y, Z, T)" by (metis prod.collapse)
  have p: "fe_is 220 (Y + X) (YplusX c)" "fe_is 220 (Y - X) (YminusX c)" "fe_is 110 Z (Zc c)" "fe_is 110 (2 * curve_d * T) (T2d c)"
    using assms by (simp_all add: e)
  then show "good_cached c" using fe_bounded_mono [of 110 _ 220] by (simp add: good_cached_def represents_def)
  show "is_cached (neg_pt P) (minus_cached c)"
    using p fe_is_neg [OF p(4)] by (simp add: e minus_cached_def)
qed

lemma is_precomp_facts:
  assumes "is_precomp P c"
  shows "good_precomp c" "is_precomp (neg_pt P) (minus_precomp c)"
proof -
  obtain X Y Z T where e: "P = (X, Y, Z, T)" by (metis prod.collapse)
  have p: "fe_is 110 (Y + X) (yplusx c)" "fe_is 110 (Y - X) (yminusx c)" "Z = 1" "fe_is 110 (2 * curve_d * T) (xy2d c)"
    using assms by (simp_all add: e)
  then show "good_precomp c" using fe_bounded_mono [of 110 _ 220] by (simp add: good_precomp_def represents_def)
  show "is_precomp (neg_pt P) (minus_precomp c)"
    using p fe_is_neg [OF p(4)] by (simp add: e minus_precomp_def)
qed

lemma combo_minus:
  "cached_combo A B m n c \<Longrightarrow> good_cached c \<and> cached_combo A B (- m) (- n) (minus_cached c) \<and> good_cached (minus_cached c)"
  "precomp_combo A B m n d \<Longrightarrow> good_precomp d \<and> precomp_combo A B (- m) (- n) (minus_precomp d) \<and> good_precomp (minus_precomp d)"
  unfolding combo_defs using is_cached_facts is_precomp_facts combo_neg by blast+

definition cached_row :: "ext \<Rightarrow> ext \<Rightarrow> int \<Rightarrow> ge_cached list \<Rightarrow> bool" where
  "cached_row A B w row \<longleftrightarrow> length row = 8 \<and> (\<forall>k<8. cached_combo A B (w * (int k + 1)) 0 (row ! k))"

definition precomp_row :: "ext \<Rightarrow> ext \<Rightarrow> int \<Rightarrow> ge_precomp list \<Rightarrow> bool" where
  "precomp_row A B w row \<longleftrightarrow> length row = 8 \<and> (\<forall>k<8. precomp_combo A B (w * (int k + 1)) 0 (row ! k))"

lemma row_entry:
  fixes b :: int
  assumes "\<forall>k<8. Q (w * (int k + 1)) (row ! k)" "- 8 \<le> b" "b \<le> 8" "Q 0 z"
  shows "Q (w * \<bar>b\<bar>) (if b = 0 then z else row ! nat (\<bar>b\<bar> - 1))"
proof (cases "b = 0")
  case False
  then have "int (nat (\<bar>b\<bar> - 1)) + 1 = \<bar>b\<bar>" "nat (\<bar>b\<bar> - 1) < 8" using assms(2,3) by auto
  then show ?thesis using assms(1) False by fastforce
qed (use assms(4) in simp)

lemma select_cached_spec:
  assumes row: "cached_row A B w Ai" and b: "- 8 \<le> b" "b \<le> 8"
  shows "\<exists>c. select_cached Ai b = Some c \<and> cached_combo A B (w * b) 0 c"
proof -
  define c where "c = (if b = 0 then ge_cached_0 else Ai ! nat (\<bar>b\<bar> - 1))"
  have c: "cached_combo A B (w * \<bar>b\<bar>) 0 c"
    unfolding c_def using row b combo_to(6)
    by (intro row_entry [of "\<lambda>m c. cached_combo A B m 0 c" w Ai b ge_cached_0]) (simp_all add: cached_row_def)
  note g = combo_minus(1) [OF c]
  have "list_all good_cached Ai" using row combo_minus(1) unfolding cached_row_def list_all_length by metis
  moreover have "good_cached ge_cached_0" using combo_minus(1) [OF combo_to(6)] by blast
  ultimately have "cmov_all ge_cached_cmov (babs b) 1 Ai ge_cached_0 = Some c"
    using cached.lookup [of ge_cached_0 Ai b] row b by (simp add: cached_row_def c_def)
  then have "select_cached Ai b = ge_cached_cmov c (minus_cached c) (negative_char b)"
    by (simp add: select_cached_def minus_cached_def)
  also have "\<dots> = Some (if b < 0 then minus_cached c else c)"
    using b g cached.keep cached.move by (simp add: negative_char_value)
  finally show ?thesis using c g by (cases "b < 0") (auto simp: abs_if)
qed

lemma select_precomp_spec:
  assumes row: "precomp_row A B w (base ! pos)" and b: "- 8 \<le> b" "b \<le> 8"
  shows "\<exists>t. select_precomp base pos b = Some t \<and> precomp_combo A B (w * b) 0 t"
proof -
  define t where "t = (if b = 0 then ge_precomp_0 else base ! pos ! nat (\<bar>b\<bar> - 1))"
  have t: "precomp_combo A B (w * \<bar>b\<bar>) 0 t"
    unfolding t_def using row b combo_to(7)
    by (intro row_entry [of "\<lambda>m c. precomp_combo A B m 0 c" w "base ! pos" b ge_precomp_0]) (simp_all add: precomp_row_def)
  note g = combo_minus(2) [OF t]
  have "list_all good_precomp (base ! pos)" using row combo_minus(2) unfolding precomp_row_def list_all_length by metis
  moreover have "good_precomp ge_precomp_0" using combo_minus(2) [OF combo_to(7)] by blast
  ultimately have "cmov_all ge_precomp_cmov (babs b) 1 (base ! pos) ge_precomp_0 = Some t"
    using precomp.lookup [of ge_precomp_0 "base ! pos" b] row b by (simp add: precomp_row_def t_def)
  then have "select_precomp base pos b = ge_precomp_cmov t (minus_precomp t) (negative_char b)"
    by (simp add: select_precomp_def minus_precomp_def)
  also have "\<dots> = Some (if b < 0 then minus_precomp t else t)"
    using b g precomp.keep precomp.move by (simp add: negative_char_value)
  finally show ?thesis using t g by (cases "b < 0") (auto simp: abs_if)
qed

section \<open>The loops\<close>

text \<open>
  What a loop over digits needs of its body: the state \<open>s\<close> stands for the value \<open>v\<close> (\<open>R v s\<close>), and
  one round with the digit \<open>d\<close> gives a state for \<open>upd d v\<close>.
\<close>

locale digit_loop =
  fixes step :: "'d \<Rightarrow> 's \<Rightarrow> 't option" and settle :: "'t \<Rightarrow> 's"
    and R :: "'v \<Rightarrow> 's \<Rightarrow> bool" and Rt :: "'v \<Rightarrow> 't \<Rightarrow> bool" and upd :: "'d \<Rightarrow> 'v \<Rightarrow> 'v" and ok :: "'d \<Rightarrow> bool"
  assumes step: "R v s \<Longrightarrow> ok d \<Longrightarrow> \<exists>t. step d s = Some t \<and> Rt (upd d v) t"
    and settle: "Rt v t \<Longrightarrow> R v (settle t)"
begin

lemma run_spec:
  "R v s \<Longrightarrow> list_all ok ds \<Longrightarrow> \<exists>s'. run step settle ds s = Some s' \<and> R (foldl (\<lambda>v d. upd d v) v ds) s'"
proof (induction ds arbitrary: v s)
  case (Cons d ds)
  then obtain t where "step d s = Some t" "Rt (upd d v) t" using step by fastforce
  then show ?case using Cons settle by simp
qed simp

lemma run_last_spec:
  "ds \<noteq> [] \<Longrightarrow> R v s \<Longrightarrow> list_all ok ds \<Longrightarrow>
   \<exists>t. run_last step settle final ds u s = Some (final t) \<and> Rt (foldl (\<lambda>v d. upd d v) v ds) t"
proof (induction ds arbitrary: v s)
  case (Cons d ds)
  then obtain t where t: "step d s = Some t" "Rt (upd d v) t" using step by fastforce
  then show ?case using Cons settle by (cases ds) auto
qed simp

end

text \<open>The single multiplication.\<close>

lemma table_Cons:
  "Q j i c \<Longrightarrow> \<forall>k\<le>n. Q (j + d + d * int k) (i + e + e * int k) (xs ! k) \<Longrightarrow>
   k \<le> Suc n \<Longrightarrow> Q (j + d * int k) (i + e * int k) ((c # xs) ! k)"
  by (cases k) (auto simp: algebra_simps)

lemma add_multiples_spec:
  "p3_combo A B d e p \<Longrightarrow> cached_combo A B j i c \<Longrightarrow> length (add_multiples n p c) = Suc n \<and>
   (\<forall>k\<le>n. cached_combo A B (j + d * int k) (i + e * int k) (add_multiples n p c ! k))"
proof (induction n arbitrary: j i c)
  case (Suc n)
  define c' where "c' = ge_p3_to_cached (ge_p1p1_to_p3 (ge_add p c))"
  have "cached_combo A B (j + d) (i + e) c'"
    using combo_to(3) [OF combo_to(1) [OF combo_adds(1) [OF Suc.prems]]] by (simp add: c'_def add.commute)
  from Suc.IH [OF Suc.prems(1) this] table_Cons [of "cached_combo A B" j i c n d e "add_multiples n p c'"] Suc.prems(2)
  show ?case by (simp add: Let_def c'_def)
qed simp

lemma mult_table_spec:
  assumes "p3_combo A B 1 0 p"
  shows "cached_row A B 1 (mult_table p)"
  using add_multiples_spec [OF assms combo_to(3) [OF assms], of 7]
  by (simp add: mult_table_def cached_row_def add.commute less_Suc_eq_le [symmetric])

lemma scalarmult_step_spec:
  assumes "cached_row A B 1 Ai" "p2_combo A B m 0 r" "- 8 \<le> b" "b \<le> 8"
  shows "\<exists>t. scalarmult_step Ai b r = Some t \<and> p1p1_combo A B (16 * m + b) 0 t"
proof -
  obtain c where c: "select_cached Ai b = Some c" "cached_combo A B b 0 c"
    using select_cached_spec [OF assms(1,3,4)] by auto
  define r1 where "r1 = ge_p1p1_to_p2 (ge_p2_dbl r)"
  define r2 where "r2 = ge_p1p1_to_p2 (ge_p2_dbl r1)"
  define r3 where "r3 = ge_p1p1_to_p2 (ge_p2_dbl r2)"
  have "p2_combo A B (2 * m) 0 r1" using combo_to(2) [OF combo_dbls(1) [OF assms(2)]] by (simp add: r1_def)
  then have "p2_combo A B (4 * m) 0 r2" using combo_to(2) [OF combo_dbls(1)] by (fastforce simp: r2_def)
  then have "p2_combo A B (8 * m) 0 r3" using combo_to(2) [OF combo_dbls(1)] by (fastforce simp: r3_def)
  then have "p3_combo A B (16 * m) 0 (ge_p1p1_to_p3 (ge_p2_dbl r3))" using combo_to(1) [OF combo_dbls(1)] by fastforce
  from combo_adds(1) [OF this c(2)] show ?thesis
    by (simp add: scalarmult_step_def Let_def c(1) r1_def r2_def r3_def)
qed

interpretation single: digit_loop "scalarmult_step Ai" ge_p1p1_to_p2
  "\<lambda>m r. cached_row A B 1 Ai \<and> p2_combo A B m 0 r" "\<lambda>m t. cached_row A B 1 Ai \<and> p1p1_combo A B m 0 t"
  "\<lambda>b m. 16 * m + b" "\<lambda>b. - 8 \<le> b \<and> b \<le> 8" for A B Ai
  by unfold_locales (use scalarmult_step_spec combo_to(2) in blast)+

text \<open>The double multiplication.\<close>

definition odd_table :: "(int \<Rightarrow> int \<Rightarrow> 'c \<Rightarrow> bool) \<Rightarrow> int \<Rightarrow> int \<Rightarrow> 'c list \<Rightarrow> bool" where
  "odd_table C m n table \<longleftrightarrow> length table = 8 \<and> (\<forall>k<8. C (m * (2 * int k + 1)) (n * (2 * int k + 1)) (table ! k))"

lemma ge_dsm_precomp_spec:
  assumes "p3_combo A B m n p"
  shows "odd_table (cached_combo A B) m n (ge_dsm_precomp p)"
proof -
  have "p3_combo A B (2 * m) (2 * n) (ge_p1p1_to_p3 (ge_p3_dbl p))" by (rule combo_to(1) [OF combo_dbls(2) [OF assms]])
  from add_multiples_spec [OF this combo_to(3) [OF assms], of 7] show ?thesis
    by (simp add: ge_dsm_precomp_def odd_table_def algebra_simps less_Suc_eq_le [symmetric])
qed

lemma odd_index:
  assumes "final_digit e" "e \<noteq> 0"
  shows "nat (\<bar>e\<bar> div 2) < 8" "2 * int (nat (\<bar>e\<bar> div 2)) + 1 = \<bar>e\<bar>"
proof -
  have "odd \<bar>e\<bar>" "\<bar>e\<bar> \<le> 15" using assms by (auto simp: final_digit_def)
  then show "nat (\<bar>e\<bar> div 2) < 8" "2 * int (nat (\<bar>e\<bar> div 2)) + 1 = \<bar>e\<bar>" by (auto simp: odd_two_times_div_two_succ)
qed

text \<open>What a table entry needs of the operations that add and subtract it.\<close>

locale table_entry =
  fixes A B :: ext and add sub :: "ge_p3 \<Rightarrow> 'c \<Rightarrow> ge_p1p1" and C :: "int \<Rightarrow> int \<Rightarrow> 'c \<Rightarrow> bool"
  assumes add: "p3_combo A B m n p \<Longrightarrow> C m' n' c \<Longrightarrow> p1p1_combo A B (m + m') (n + n') (add p c)"
    and sub: "p3_combo A B m n p \<Longrightarrow> C m' n' c \<Longrightarrow> p1p1_combo A B (m + - m') (n + - n') (sub p c)"
begin

lemma digit:
  assumes t: "p1p1_combo A B m n t" and e: "final_digit e" and table: "odd_table C u v table"
  shows "p1p1_combo A B (m + u * e) (n + v * e) (dsm_digit add sub table e t)"
proof (cases "e = 0")
  case False
  define c where "c = table ! nat (\<bar>e\<bar> div 2)"
  have "C (u * \<bar>e\<bar>) (v * \<bar>e\<bar>) c"
    using table odd_index [OF e False] unfolding odd_table_def c_def by metis
  note add [OF combo_to(1) [OF t] this] sub [OF combo_to(1) [OF t] this]
  then show ?thesis using False by (cases "e > 0") (simp_all add: dsm_digit_def c_def abs_if)
qed (use t in \<open>simp add: dsm_digit_def\<close>)

end

interpretation cached_entry: table_entry A B ge_add ge_sub "cached_combo A B" for A B
  by unfold_locales (rule combo_adds; assumption)+

interpretation precomp_entry: table_entry A B ge_madd ge_msub "precomp_combo A B" for A B
  by unfold_locales (rule combo_adds; assumption)+

definition final_pair :: "int \<times> int \<Rightarrow> bool" where
  "final_pair d \<longleftrightarrow> final_digit (fst d) \<and> final_digit (snd d)"

definition shift_pair :: "int \<times> int \<Rightarrow> int \<times> int \<Rightarrow> int \<times> int" where
  "shift_pair d v = (2 * fst v + fst d, 2 * snd v + snd d)"

lemma dsm_steps_spec:
  assumes "p2_combo A B m n r" "final_pair d" "odd_table (cached_combo A B) 1 0 Ai"
  shows "odd_table (cached_combo A B) 0 1 Bi \<Longrightarrow>
      \<exists>t. dsm_step Ai Bi d r = Some t \<and> p1p1_combo A B (2 * m + fst d) (2 * n + snd d) t"
    and "odd_table (precomp_combo A B) 0 1 Pi \<Longrightarrow>
      \<exists>t. dsm_base_step Pi Ai d r = Some t \<and> p1p1_combo A B (2 * m + fst d) (2 * n + snd d) t"
proof -
  have d: "final_digit (fst d)" "final_digit (snd d)" using assms(2) by (simp_all add: final_pair_def)
  note t = cached_entry.digit [OF combo_dbls(1) [OF assms(1)] d(1) assms(3)]
  show "\<exists>t. dsm_step Ai Bi d r = Some t \<and> p1p1_combo A B (2 * m + fst d) (2 * n + snd d) t"
    if "odd_table (cached_combo A B) 0 1 Bi"
    using cached_entry.digit [OF t d(2) that] by (simp add: dsm_step_def)
  show "\<exists>t. dsm_base_step Pi Ai d r = Some t \<and> p1p1_combo A B (2 * m + fst d) (2 * n + snd d) t"
    if "odd_table (precomp_combo A B) 0 1 Pi"
    using precomp_entry.digit [OF t d(2) that] by (simp add: dsm_base_step_def)
qed

interpretation double: digit_loop "dsm_step Ai Bi" ge_p1p1_to_p2
  "\<lambda>v r. odd_table (cached_combo A B) 1 0 Ai \<and> odd_table (cached_combo A B) 0 1 Bi \<and> p2_combo A B (fst v) (snd v) r"
  "\<lambda>v t. odd_table (cached_combo A B) 1 0 Ai \<and> odd_table (cached_combo A B) 0 1 Bi \<and> p1p1_combo A B (fst v) (snd v) t"
  shift_pair final_pair for A B Ai Bi
proof (unfold_locales, goal_cases)
  case (1 v r d)
  then show ?case using dsm_steps_spec(1) [of A B "fst v" "snd v" r d Ai Bi]
    unfolding shift_pair_def fst_conv snd_conv by blast
qed (use combo_to(2) in blast)

interpretation double_base: digit_loop "dsm_base_step Bi Ai" ge_p1p1_to_p2
  "\<lambda>v r. odd_table (cached_combo A B) 1 0 Ai \<and> odd_table (precomp_combo A B) 0 1 Bi \<and> p2_combo A B (fst v) (snd v) r"
  "\<lambda>v t. odd_table (cached_combo A B) 1 0 Ai \<and> odd_table (precomp_combo A B) 0 1 Bi \<and> p1p1_combo A B (fst v) (snd v) t"
  shift_pair final_pair for A B Ai Bi
proof (unfold_locales, goal_cases)
  case (1 v r d)
  then show ?case using dsm_steps_spec(2) [of A B "fst v" "snd v" r d Ai Bi]
    unfolding shift_pair_def fst_conv snd_conv by blast
qed (use combo_to(2) in blast)

lemma shift_pairs_value:
  "length xs = length ys \<Longrightarrow> foldl (\<lambda>v d. shift_pair d v) (0, 0) (rev (zip xs ys)) = (radix 2 xs, radix 2 ys)"
  by (induction xs ys rule: list_induct2) (simp_all add: shift_pair_def)

lemma shift_pairs_dropWhile:
  "foldl (\<lambda>v d. shift_pair d v) (0, 0) (dropWhile (\<lambda>(x, y). x = 0 \<and> y = 0) ds) = foldl (\<lambda>v d. shift_pair d v) (0, 0) ds"
  by (induction ds) (auto simp: shift_pair_def)

lemma dsm_digits_spec:
  assumes "length a = 32" "le_val a < 2 ^ 255" "length b = 32" "le_val b < 2 ^ 255"
  shows "list_all final_pair (dsm_digits a b)"
    and "foldl (\<lambda>v d. shift_pair d v) (0, 0) (dsm_digits a b) = (le_val a, le_val b)"
    and "dsm_digits a b = [] \<Longrightarrow> le_val a = 0 \<and> le_val b = 0"
proof -
  note a = slide_spec [OF assms(1,2)] and b = slide_spec [OF assms(3,4)]
  have "list_all final_pair (zip (slide a) (slide b))"
    using a b by (auto simp: list_all_length final_pair_def)
  then show "list_all final_pair (dsm_digits a b)"
    using set_dropWhileD by (fastforce simp: dsm_digits_def list_all_iff)
  show v: "foldl (\<lambda>v d. shift_pair d v) (0, 0) (dsm_digits a b) = (le_val a, le_val b)"
    using shift_pairs_value [of "slide a" "slide b"] a b by (simp add: dsm_digits_def shift_pairs_dropWhile)
  show "le_val a = 0 \<and> le_val b = 0" if "dsm_digits a b = []" using v that by simp
qed

text \<open>The multiplication of the base point.\<close>

definition base_table :: "ext \<Rightarrow> ext \<Rightarrow> ge_precomp list list \<Rightarrow> bool" where
  "base_table A B base \<longleftrightarrow> length base = 32 \<and> (\<forall>i<32. precomp_row A B (256 ^ i) (base ! i))"

lemma base_adds_spec:
  assumes "base_table A B base"
  shows "p3_combo A B m 0 h \<Longrightarrow> list_all (\<lambda>e. - 8 \<le> e \<and> e \<le> 8) es \<Longrightarrow> pos + length es \<le> 32 \<Longrightarrow>
    \<exists>h'. base_adds base pos es h = Some h' \<and> p3_combo A B (m + 256 ^ pos * radix 256 es) 0 h'"
proof (induction es arbitrary: pos m h)
  case (Cons e es)
  then have "precomp_row A B (256 ^ pos) (base ! pos)" "- 8 \<le> e" "e \<le> 8" using assms by (auto simp: base_table_def)
  from select_precomp_spec [OF this] obtain t
    where t: "select_precomp base pos e = Some t" "precomp_combo A B (256 ^ pos * e) 0 t" by blast
  have "p3_combo A B (m + 256 ^ pos * e) 0 (ge_p1p1_to_p3 (ge_madd h t))"
    using combo_to(1) [OF combo_adds(3) [OF Cons.prems(1) t(2)]] by simp
  from Cons.IH [OF this, of "pos + 1"] Cons.prems show ?case by (simp add: t(1) algebra_simps)
qed simp

lemma split_digits:
  assumes "length e = 2 * n"
  shows "radix 16 e = radix 256 (even_digits e) + 16 * radix 256 (odd_digits e)"
  using assms
proof (induction n arbitrary: e)
  case (Suc n)
  then obtain x e' where "e = x # e'" "length e' = Suc (2 * n)" by (cases e) auto
  then obtain y es where e: "e = x # y # es" "length es = 2 * n" by (cases e') auto
  have "even_digits e = x # even_digits es" "odd_digits e = y # odd_digits es"
    using e by (simp_all add: even_digits_def odd_digits_def upt_conv_Cons map_Suc_upt [symmetric] del: upt_Suc)
  then show ?case using Suc.IH [OF e(2)] by (simp add: e)
qed (simp add: even_digits_def odd_digits_def)

lemma scalarmult_base_spec:
  assumes "base_table A B base" "length a = 32" "a ! 31 \<le> 127"
  shows "\<exists>h. scalarmult_base_with base a = Some h \<and> p3_combo A B (le_val a) 0 h"
proof -
  define e where "e = recode_base a"
  have e: "radix 16 e = le_val a" "list_all (\<lambda>e. - 8 \<le> e \<and> e \<le> 8) e" "length e = 64"
    using recode_base_recodes [OF assms(2,3)] by (auto simp: recodes_def e_def)
  then have d: "list_all (\<lambda>e. - 8 \<le> e \<and> e \<le> 8) (odd_digits e)" "list_all (\<lambda>e. - 8 \<le> e \<and> e \<le> 8) (even_digits e)"
    "length (odd_digits e) = 32" "length (even_digits e) = 32"
    by (auto simp: odd_digits_def even_digits_def list_all_length)
  from base_adds_spec [OF assms(1) combo_to(5) d(1), of 0] d(3) obtain h
    where h: "base_adds base 0 (odd_digits e) ge_p3_0 = Some h" "p3_combo A B (radix 256 (odd_digits e)) 0 h" by auto
  define s where "s = ge_p1p1_to_p2 (ge_p2_dbl (ge_p1p1_to_p2 (ge_p2_dbl (ge_p1p1_to_p2 (ge_p3_dbl h)))))"
  have "p2_combo A B (2 * (2 * (2 * radix 256 (odd_digits e)))) (2 * (2 * (2 * 0))) s"
    unfolding s_def by (rule combo_to(2) combo_dbls h)+
  then have "p3_combo A B (16 * radix 256 (odd_digits e)) 0 (ge_p1p1_to_p3 (ge_p2_dbl s))"
    using combo_to(1) [OF combo_dbls(1)] by fastforce
  from base_adds_spec [OF assms(1) this d(2), of 0] d(4)
  obtain h' where "base_adds base 0 (even_digits e) (ge_p1p1_to_p3 (ge_p2_dbl s)) = Some h'"
      "p3_combo A B (16 * radix 256 (odd_digits e) + radix 256 (even_digits e)) 0 h'" by auto
  moreover have "16 * radix 256 (odd_digits e) + radix 256 (even_digits e) = le_val a"
    using split_digits [of e 32] e(1,3) by simp
  ultimately show ?thesis by (simp add: scalarmult_base_with_def Let_def h(1) s_def flip: e_def)
qed

text \<open>The other multiplications.\<close>

lemma combo_start: "is_p3 A p \<Longrightarrow> p3_combo A B 1 0 p" "is_p3 B p \<Longrightarrow> p3_combo A B 0 1 p"
  unfolding p3_combo_def using combo_left combo_right by blast+

lemma scalarmult_spec:
  assumes "is_p3 A p" "length a = 32" "a ! 31 \<le> 127"
  shows "\<exists>r. ge_scalarmult a p = Some r \<and> p2_combo A B (le_val a) 0 r"
    and "\<exists>r. ge_scalarmult_p3 r3 a p = Some r \<and> p3_combo A B (le_val a) 0 r"
proof -
  have e: "radix 16 (recode a) = le_val a" "list_all (\<lambda>e. - 8 \<le> e \<and> e \<le> 8) (rev (recode a))" "rev (recode a) \<noteq> []"
    using recode_recodes [OF assms(2,3)] by (auto simp: recodes_def)
  have v: "foldl (\<lambda>v d. 16 * v + d) 0 (rev (recode a)) = le_val a" using radix_foldl [of 16 "recode a"] e(1) by simp
  have i: "cached_row A B 1 (mult_table p) \<and> p2_combo A B 0 0 ge_p2_0"
    using mult_table_spec [OF combo_start(1) [OF assms(1)]] combo_to(4) by blast
  show "\<exists>r. ge_scalarmult a p = Some r \<and> p2_combo A B (le_val a) 0 r"
    using single.run_spec [OF i e(2)] unfolding v ge_scalarmult_def by blast
  show "\<exists>r. ge_scalarmult_p3 r3 a p = Some r \<and> p3_combo A B (le_val a) 0 r"
    using single.run_last_spec [OF e(3) i e(2), of ge_p1p1_to_p3 r3] combo_to(1) unfolding v ge_scalarmult_p3_def by blast
qed

lemma double_scalarmult_spec:
  assumes "odd_table (cached_combo A B) 1 0 Ai" "odd_table (cached_combo A B) 0 1 Bi"
    and ab: "length a = 32" "le_val a < 2 ^ 255" "length b = 32" "le_val b < 2 ^ 255"
  shows "\<exists>r. ge_double_scalarmult_precomp_vartime2 a Ai b Bi = Some r \<and> p2_combo A B (le_val a) (le_val b) r"
    and "dsm_digits a b \<noteq> [] \<Longrightarrow>
      \<exists>r. ge_double_scalarmult_precomp_vartime2_p3 r3 a Ai b Bi = Some r \<and> p3_combo A B (le_val a) (le_val b) r"
proof -
  note d = dsm_digits_spec [OF ab]
  have i: "odd_table (cached_combo A B) 1 0 Ai \<and> odd_table (cached_combo A B) 0 1 Bi \<and> p2_combo A B (fst (0, 0)) (snd (0, 0)) ge_p2_0"
    using assms(1,2) combo_to(4) by simp
  show "\<exists>r. ge_double_scalarmult_precomp_vartime2 a Ai b Bi = Some r \<and> p2_combo A B (le_val a) (le_val b) r"
    using double.run_spec [OF i d(1)] unfolding d(2) fst_conv snd_conv ge_double_scalarmult_precomp_vartime2_def by blast
  show "\<exists>r. ge_double_scalarmult_precomp_vartime2_p3 r3 a Ai b Bi = Some r \<and> p3_combo A B (le_val a) (le_val b) r"
    if "dsm_digits a b \<noteq> []"
    using double.run_last_spec [OF that i d(1), of ge_p1p1_to_p3 r3] combo_to(1)
    unfolding d(2) fst_conv snd_conv ge_double_scalarmult_precomp_vartime2_p3_def by blast
qed

lemma double_scalarmult_base_spec:
  assumes "is_p3 A p" "odd_table (precomp_combo A B) 0 1 Bi"
    and ab: "length a = 32" "le_val a < 2 ^ 255" "length b = 32" "le_val b < 2 ^ 255"
  shows "\<exists>r. double_scalarmult_base_with Bi a p b = Some r \<and> p2_combo A B (le_val a) (le_val b) r"
    and "dsm_digits a b \<noteq> [] \<Longrightarrow>
      \<exists>r. double_scalarmult_base_p3_with Bi r3 a p b = Some r \<and> p3_combo A B (le_val a) (le_val b) r"
proof -
  note d = dsm_digits_spec [OF ab]
  have i: "odd_table (cached_combo A B) 1 0 (ge_dsm_precomp p) \<and> odd_table (precomp_combo A B) 0 1 Bi \<and>
      p2_combo A B (fst (0, 0)) (snd (0, 0)) ge_p2_0"
    using assms(2) ge_dsm_precomp_spec [OF combo_start(1) [OF assms(1)]] combo_to(4) by simp
  show "\<exists>r. double_scalarmult_base_with Bi a p b = Some r \<and> p2_combo A B (le_val a) (le_val b) r"
    using double_base.run_spec [OF i d(1)] unfolding d(2) fst_conv snd_conv double_scalarmult_base_with_def by blast
  show "\<exists>r. double_scalarmult_base_p3_with Bi r3 a p b = Some r \<and> p3_combo A B (le_val a) (le_val b) r"
    if "dsm_digits a b \<noteq> []"
    using double_base.run_last_spec [OF that i d(1), of ge_p1p1_to_p3 r3] combo_to(1)
    unfolding d(2) fst_conv snd_conv double_scalarmult_base_p3_with_def by blast
qed

text \<open>All multiples of the identity are the identity.\<close>

lemma identity_multiples: "precomp_combo pt_0 B (256 ^ i * (int k + 1)) 0 ge_precomp_0"
proof -
  have s: "same_pt (add_pt pt_0 pt_0) pt_0"
  proof -
    have "(3 * 2 ^ 253 - 14) * 4 mod p25519 = (1 :: int)" by (simp add: p25519_def)
    then obtain k :: int where k: "k * 4 mod p25519 = 1" by blast
    have e: "add_pt pt_0 pt_0 = (0, 4, 4, 0)" by (simp add: add_pt_def pt_0_def)
    have "1 mod p25519 = 1" by (simp add: p25519_def)
    with k show ?thesis unfolding e by (subst pt_0_def, intro same_ptI [of k 4]) simp_all
  qed
  have "combo pt_0 B (int n) 0 pt_0" for n
  proof (induction n)
    case (Suc n)
    from combo_same [OF combo_add [OF this combo_left] s] show ?case by (simp add: add.commute)
  qed (simp add: combo_0)
  moreover have "int (256 ^ i * (k + 1)) = 256 ^ i * (int k + 1)" by (simp add: algebra_simps)
  ultimately have "combo pt_0 B (256 ^ i * (int k + 1)) 0 pt_0" by metis
  then show ?thesis unfolding precomp_combo_def using ge_0_is(3) by blast
qed

lemma dsm_digits_zero: "dsm_digits (replicate 32 0) (replicate 32 0) = []"
proof -
  have "slide_bits (replicate 32 0) = replicate 256 0" by (intro nth_equalityI) (simp_all add: slide_bits_def)
  moreover have "fold slide_from [0..<256] (replicate 256 0) = replicate 256 0" by (rule slide_from_zeros) simp
  ultimately have "slide (replicate 32 0) = replicate 256 0" by (simp only: slide_def)
  then show ?thesis by (auto simp: dsm_digits_def zip_replicate)
qed

section \<open>Properties\<close>

text \<open>
  C5.  \<^verbatim>\<open>ge_scalarmult\<close> and \<^verbatim>\<open>ge_scalarmult_p3\<close> compute $a A$ for every scalar with \<^verbatim>\<open>a[31] <= 127\<close>: no
  assertion fails, the result is the combination of $A$ by the curve formulas with coefficient $a$,
  and it is on the curve when $A$ is.
\<close>

theorem ge_scalarmult_correct:
  assumes "is_p3 A p" "length a = 32" "a ! 31 \<le> 127"
  shows "(\<exists>r P. ge_scalarmult a p = Some r \<and> is_p2 P r \<and> combo A pt_0 (le_val a) 0 P \<and> (on_curve A \<longrightarrow> on_curve P)) \<and>
    (\<exists>r P. ge_scalarmult_p3 r3 a p = Some r \<and> is_p3 P r \<and> combo A pt_0 (le_val a) 0 P \<and> (on_curve A \<longrightarrow> on_curve P))"
  using scalarmult_spec [OF assms, where B = pt_0] combo_on_curve [of A pt_0] on_curve_0
  unfolding p2_combo_def p3_combo_def by blast

theorem ge_scalarmult_correct_witness:
  "\<exists>r P. ge_scalarmult (replicate 32 127) ge_p3_0 = Some r \<and> is_p2 P r \<and>
     combo pt_0 pt_0 (le_val (replicate 32 127)) 0 P \<and> on_curve P"
proof -
  have "length (replicate 32 (127 :: byte)) = 32" "replicate 32 (127 :: byte) ! 31 \<le> 127" by simp_all
  from ge_scalarmult_correct [OF ge_0_is(2) this] on_curve_0 show ?thesis by blast
qed

text \<open>
  C18.  \<^verbatim>\<open>ge_double_scalarmult_precomp_vartime\<close>, and \<^verbatim>\<open>ge_double_scalarmult_precomp_vartime2\<close> on two tables made
  by \<^verbatim>\<open>ge_dsm_precomp\<close>, compute $a A + b B$ for all scalars below $2^{255}$, and stay on the curve.
\<close>

theorem ge_double_scalarmult_correct:
  assumes "is_p3 A p" "is_p3 B q" "length a = 32" "le_val a < 2 ^ 255" "length b = 32" "le_val b < 2 ^ 255"
  shows "\<exists>r P. ge_double_scalarmult_precomp_vartime a p b (ge_dsm_precomp q) = Some r \<and>
      ge_double_scalarmult_precomp_vartime2 a (ge_dsm_precomp p) b (ge_dsm_precomp q) = Some r \<and>
      is_p2 P r \<and> combo A B (le_val a) (le_val b) P \<and> (on_curve A \<and> on_curve B \<longrightarrow> on_curve P)"
  using double_scalarmult_spec(1) [OF ge_dsm_precomp_spec [OF combo_start(1) [OF assms(1), of B]]
      ge_dsm_precomp_spec [OF combo_start(2) [OF assms(2), of A]] assms(3-6)] combo_on_curve [of A B]
  unfolding p2_combo_def ge_double_scalarmult_precomp_vartime_def by blast

theorem ge_double_scalarmult_correct_witness:
  "\<exists>r P. ge_double_scalarmult_precomp_vartime (le_bytes 32 5) ge_p3_0 (le_bytes 32 7) (ge_dsm_precomp ge_p3_0) = Some r \<and>
     is_p2 P r \<and> combo pt_0 pt_0 5 7 P"
proof -
  have v: "le_val (le_bytes 32 5) = 5" "le_val (le_bytes 32 7) = 7" by (simp_all add: le_val_le_bytes)
  have b: "(5 :: int) < 2 ^ 255" "(7 :: int) < 2 ^ 255" "(5 :: int) \<noteq> 0" by simp_all
  show ?thesis
    using ge_double_scalarmult_correct [OF ge_0_is(2) ge_0_is(2) length_le_bytes _ length_le_bytes, of 5 7] b unfolding v by blast
qed

text \<open>
  The \<^verbatim>\<open>_p3\<close> variant \<^verbatim>\<open>ge_double_scalarmult_precomp_vartime2_p3\<close> computes the same $a A + b B$ unless
  both scalars are zero, and then leaves its output as it was.
\<close>

theorem ge_double_scalarmult_p3_unwritten:
  assumes "is_p3 A p" "is_p3 B q" "length a = 32" "le_val a < 2 ^ 255" "length b = 32" "le_val b < 2 ^ 255"
  shows "(le_val a \<noteq> 0 \<or> le_val b \<noteq> 0 \<longrightarrow>
      (\<exists>r P. ge_double_scalarmult_precomp_vartime2_p3 r3 a (ge_dsm_precomp p) b (ge_dsm_precomp q) = Some r \<and>
        is_p3 P r \<and> combo A B (le_val a) (le_val b) P)) \<and>
    ge_double_scalarmult_precomp_vartime2_p3 r3 (replicate 32 0) Ai (replicate 32 0) Bi = Some r3"
proof
  show "le_val a \<noteq> 0 \<or> le_val b \<noteq> 0 \<longrightarrow>
      (\<exists>r P. ge_double_scalarmult_precomp_vartime2_p3 r3 a (ge_dsm_precomp p) b (ge_dsm_precomp q) = Some r \<and>
        is_p3 P r \<and> combo A B (le_val a) (le_val b) P)"
  proof
    assume "le_val a \<noteq> 0 \<or> le_val b \<noteq> 0"
    then have "dsm_digits a b \<noteq> []" using dsm_digits_spec [OF assms(3-6)] by fastforce
    from double_scalarmult_spec(2) [OF ge_dsm_precomp_spec [OF combo_start(1) [OF assms(1), of B]]
      ge_dsm_precomp_spec [OF combo_start(2) [OF assms(2), of A]] assms(3-6) this]
    show "\<exists>r P. ge_double_scalarmult_precomp_vartime2_p3 r3 a (ge_dsm_precomp p) b (ge_dsm_precomp q) = Some r \<and>
        is_p3 P r \<and> combo A B (le_val a) (le_val b) P"
      unfolding p3_combo_def by blast
  qed
  show "ge_double_scalarmult_precomp_vartime2_p3 r3 (replicate 32 0) Ai (replicate 32 0) Bi = Some r3"
    by (simp add: ge_double_scalarmult_precomp_vartime2_p3_def dsm_digits_zero)
qed

theorem ge_double_scalarmult_p3_unwritten_witness:
  "\<exists>r P. ge_double_scalarmult_precomp_vartime2_p3 ge_p3_0 (le_bytes 32 5) (ge_dsm_precomp ge_p3_0)
     (le_bytes 32 0) (ge_dsm_precomp ge_p3_0) = Some r \<and> is_p3 P r \<and> combo pt_0 pt_0 5 0 P"
proof -
  have v: "le_val (le_bytes 32 5) = 5" "le_val (le_bytes 32 0) = 0" by (simp_all add: le_val_le_bytes)
  have b: "(5 :: int) < 2 ^ 255" "(0 :: int) < 2 ^ 255" "(5 :: int) \<noteq> 0" by simp_all
  show ?thesis
    using ge_double_scalarmult_p3_unwritten [OF ge_0_is(2) ge_0_is(2) length_le_bytes _ length_le_bytes, of 5 0] b unfolding v by blast
qed



end
