(* ===== verification/Ge_Base.thy ===== *)
theory Ge_Base
  imports Ge_Mult
begin

text \<open>
  The table \<^verbatim>\<open>ge_Bi\<close> of \<^verbatim>\<open>src/src/crypto/crypto-ops-data.c\<close> and the double multiplications with the base
  point that use it.  The table is checked entry by entry: it holds the odd multiples of the base
  point up to 15, in affine coordinates.
\<close>

section \<open>The table\<close>

definition ge_Bi :: "ge_precomp list" where
  "ge_Bi =
    [\<lparr>yplusx = Fe 25967493 (- 14356035) 29566456 3660896 (- 12694345) 4014787 27544626 (- 11754271) (- 6079156) 2047605,
       yminusx = Fe (- 12545711) 934262 (- 2722910) 3049990 (- 727428) 9406986 12720692 5043384 19500929 (- 15469378),
       xy2d = Fe (- 8738181) 4489570 9688441 (- 14785194) 10184609 (- 12363380) 29287919 11864899 (- 24514362) (- 4438546)\<rparr>,
     \<lparr>yplusx = Fe 15636291 (- 9688557) 24204773 (- 7912398) 616977 (- 16685262) 27787600 (- 14772189) 28944400 (- 1550024),
       yminusx = Fe 16568933 4717097 (- 11556148) (- 1102322) 15682896 (- 11807043) 16354577 (- 11775962) 7689662 11199574,
       xy2d = Fe 30464156 (- 5976125) (- 11779434) (- 15670865) 23220365 15915852 7512774 10017326 (- 17749093) (- 9920357)\<rparr>,
     \<lparr>yplusx = Fe 10861363 11473154 27284546 1981175 (- 30064349) 12577861 32867885 14515107 (- 15438304) 10819380,
       yminusx = Fe 4708026 6336745 20377586 9066809 (- 11272109) 6594696 (- 25653668) 12483688 (- 12668491) 5581306,
       xy2d = Fe 19563160 16186464 (- 29386857) 4097519 10237984 (- 4348115) 28542350 13850243 (- 23678021) (- 15815942)\<rparr>,
     \<lparr>yplusx = Fe 5153746 9909285 1723747 (- 2777874) 30523605 5516873 19480852 5230134 (- 23952439) (- 15175766),
       yminusx = Fe (- 30269007) (- 3463509) 7665486 10083793 28475525 1649722 20654025 16520125 30598449 7715701,
       xy2d = Fe 28881845 14381568 9657904 3680757 (- 20181635) 7843316 (- 31400660) 1370708 29794553 (- 1409300)\<rparr>,
     \<lparr>yplusx = Fe (- 22518993) (- 6692182) 14201702 (- 8745502) (- 23510406) 8844726 18474211 (- 1361450) (- 13062696) 13821877,
       yminusx = Fe (- 6455177) (- 7839871) 3374702 (- 4740862) (- 27098617) (- 10571707) 31655028 (- 7212327) 18853322 (- 14220951),
       xy2d = Fe 4566830 (- 12963868) (- 28974889) (- 12240689) (- 7602672) (- 2830569) (- 8514358) (- 10431137) 2207753 (- 3209784)\<rparr>,
     \<lparr>yplusx = Fe (- 25154831) (- 4185821) 29681144 7868801 (- 6854661) (- 9423865) (- 12437364) (- 663000) (- 31111463) (- 16132436),
       yminusx = Fe 25576264 (- 2703214) 7349804 (- 11814844) 16472782 9300885 3844789 15725684 171356 6466918,
       xy2d = Fe 23103977 13316479 9739013 (- 16149481) 817875 (- 15038942) 8965339 (- 14088058) (- 30714912) 16193877\<rparr>,
     \<lparr>yplusx = Fe (- 33521811) 3180713 (- 2394130) 14003687 (- 16903474) (- 16270840) 17238398 4729455 (- 18074513) 9256800,
       yminusx = Fe (- 25182317) (- 4174131) 32336398 5036987 (- 21236817) 11360617 22616405 9761698 (- 19827198) 630305,
       xy2d = Fe (- 13720693) 2639453 (- 24237460) (- 7406481) 9494427 (- 5774029) (- 6554551) (- 15960994) (- 2449256) (- 14291300)\<rparr>,
     \<lparr>yplusx = Fe (- 3151181) (- 5046075) 9282714 6866145 (- 31907062) (- 863023) (- 18940575) 15033784 25105118 (- 7894876),
       yminusx = Fe (- 24326370) 15950226 (- 31801215) (- 14592823) (- 11662737) (- 5090925) 1573892 (- 2625887) 2198790 (- 15804619),
       xy2d = Fe (- 3099351) 10324967 (- 2241613) 7453183 (- 5446979) (- 2735503) (- 13812022) (- 16236442) (- 32461234) (- 12290683)\<rparr>]"

definition ge_double_scalarmult_base_vartime :: "bytes \<Rightarrow> ge_p3 \<Rightarrow> bytes \<Rightarrow> ge_p2 option" where
  "ge_double_scalarmult_base_vartime a A b = double_scalarmult_base_with ge_Bi a A b"

definition ge_double_scalarmult_base_vartime_p3 :: "ge_p3 \<Rightarrow> bytes \<Rightarrow> ge_p3 \<Rightarrow> bytes \<Rightarrow> ge_p3 option" where
  "ge_double_scalarmult_base_vartime_p3 r3 a A b = double_scalarmult_base_p3_with ge_Bi r3 a A b"

section \<open>Affine sums\<close>

text \<open>
  Congruences between numerals are checked with the quotient: $a = b + (2^{255} - 19) q$, so that no
  division is evaluated.
\<close>

lemma extend_affine:
  assumes x: "x * C mod p25519 = A mod p25519" and y: "y * D mod p25519 = B mod p25519" and t: "x * y mod p25519 = t mod p25519"
    and c: "c * C mod p25519 = 1 mod p25519" and d: "d * D mod p25519 = 1 mod p25519"
  shows "same_pt (extend (A, B, C, D)) (x, y, 1, t)"
proof -
  let ?c = "\<lambda>a b. a mod p25519 = b mod p25519"
  have e: "?c (c * C * (d * D)) (1 * 1)" by (rule mod_mult_cong [OF c d])
  have "?c (c * d * (C * D)) 1" using e by (simp add: mult_ac)
  moreover have "?c (c * d * (A * D)) x"
  proof -
    have "?c (c * d * (x * C * D)) (c * d * (A * D))" by (intro mod_mult_cong refl x)
    moreover have "c * d * (x * C * D) = x * (c * C * (d * D))" by (simp add: mult_ac)
    moreover have "?c (x * (c * C * (d * D))) (x * (1 * 1))" by (intro mod_mult_cong refl e)
    ultimately show ?thesis by simp
  qed
  moreover have "?c (c * d * (B * C)) y"
  proof -
    have "?c (c * d * (y * D * C)) (c * d * (B * C))" by (intro mod_mult_cong refl y)
    moreover have "c * d * (y * D * C) = y * (c * C * (d * D))" by (simp add: mult_ac)
    moreover have "?c (y * (c * C * (d * D))) (y * (1 * 1))" by (intro mod_mult_cong refl e)
    ultimately show ?thesis by simp
  qed
  moreover have "?c (c * d * (A * B)) t"
  proof -
    have "?c (c * d * (x * C * (y * D))) (c * d * (A * B))" by (intro mod_mult_cong refl x y)
    moreover have "c * d * (x * C * (y * D)) = x * y * (c * C * (d * D))" by (simp add: mult_ac)
    moreover have "?c (x * y * (c * C * (d * D))) (t * (1 * 1))" by (intro mod_mult_cong t e)
    ultimately show ?thesis by simp
  qed
  moreover have "1 mod p25519 = 1" by (simp add: p25519_def)
  ultimately show ?thesis unfolding extend.simps by (intro same_ptI [of "c * d" "C * D"]) simp_all
qed

text \<open>
  The sum and the double of affine points, from the values of the intermediate products: \<open>P\<close> and \<open>M\<close>
  are $(y + x) (y' + x')$ and $(y - x) (y' - x')$, and \<open>w\<close> is $d t t'$.
\<close>

lemma add_affine:
  assumes P: "(y + x) * (y' + x') mod p25519 = P mod p25519" and M: "(y - x) * (y' - x') mod p25519 = M mod p25519"
    and s: "t * t' mod p25519 = s mod p25519" and w: "curve_d * s mod p25519 = w mod p25519"
    and C: "C mod p25519 = (2 + 2 * w) mod p25519" and D: "D mod p25519 = (2 - 2 * w) mod p25519"
    and x'': "x'' * C mod p25519 = (P - M) mod p25519" and y'': "y'' * D mod p25519 = (P + M) mod p25519"
    and t'': "x'' * y'' mod p25519 = t'' mod p25519"
    and c: "c * C mod p25519 = 1 mod p25519" and d: "d * D mod p25519 = 1 mod p25519"
  shows "same_pt (add_pt (x, y, 1, t) (x', y', 1, t')) (x'', y'', 1, t'')"
proof -
  let ?c = "\<lambda>a b. a mod p25519 = b mod p25519"
  have "?c (curve_d * t * t') w"
    using mod_mult_cong [OF refl s, of curve_d] w by (simp add: mult.assoc)
  from mod_mult_cong [OF refl this, of 2]
  have "?c (2 + 2 * (curve_d * t * t')) (2 + 2 * w)" "?c (2 - 2 * (curve_d * t * t')) (2 - 2 * w)"
    by (rule mod_add_cong [OF refl], rule mod_diff_cong [OF refl])
  moreover have "2 * (1 * 1 + curve_d * t * t') = 2 + 2 * (curve_d * t * t')" "2 * (1 * 1 - curve_d * t * t') = 2 - 2 * (curve_d * t * t')"
    by simp_all
  ultimately have CD: "?c (2 * (1 * 1 + curve_d * t * t')) C" "?c (2 * (1 * 1 - curve_d * t * t')) D"
    using C D by simp_all
  have "2 * (x * y' + y * x') = (y + x) * (y' + x') - (y - x) * (y' - x')"
    "2 * (y * y' + x * x') = (y + x) * (y' + x') + (y - x) * (y' - x')" by algebra+
  then have AB: "?c (2 * (x * y' + y * x')) (P - M)" "?c (2 * (y * y' + x * x')) (P + M)"
    using mod_diff_cong [OF P M] mod_add_cong [OF P M] by simp_all
  have "?c (z * (2 * (1 * 1 + curve_d * t * t'))) (z * C)" "?c (z * (2 * (1 * 1 - curve_d * t * t'))) (z * D)" for z
    by (intro mod_mult_cong refl CD)+
  then show ?thesis unfolding add_pt_def add_c.simps
    by (intro extend_affine [of _ _ _ _ _ _ _ c d]) (simp_all only: AB x'' y'' t'' c d)
qed

lemma dbl_affine:
  assumes X: "x * x mod p25519 = X mod p25519" and Y: "y * y mod p25519 = Y mod p25519"
    and C: "C mod p25519 = (Y - X) mod p25519" and D: "D mod p25519 = (2 - (Y - X)) mod p25519"
    and x'': "x'' * C mod p25519 = 2 * t mod p25519" and y'': "y'' * D mod p25519 = (Y + X) mod p25519"
    and t: "x * y mod p25519 = t mod p25519" and t'': "x'' * y'' mod p25519 = t'' mod p25519"
    and c: "c * C mod p25519 = 1 mod p25519" and d: "d * D mod p25519 = 1 mod p25519"
  shows "same_pt (dbl_pt (x, y, 1, t)) (x'', y'', 1, t'')"
proof -
  let ?c = "\<lambda>a b. a mod p25519 = b mod p25519"
  have B: "?c (y ^ 2 + x ^ 2) (Y + X)" unfolding power2_eq_square by (rule mod_add_cong [OF Y X])
  have YX: "?c (y ^ 2 - x ^ 2) (Y - X)" unfolding power2_eq_square by (rule mod_diff_cong [OF Y X])
  have D': "?c (2 * 1 ^ 2 - (y ^ 2 - x ^ 2)) (2 - (Y - X))" using mod_diff_cong [OF refl YX, of 2] by simp
  have A: "?c (2 * x * y) (2 * t)" using mod_mult_cong [OF refl t, of 2] by (simp add: mult.assoc)
  have "?c (z * (y ^ 2 - x ^ 2)) (z * C)" "?c (z * (2 * 1 ^ 2 - (y ^ 2 - x ^ 2))) (z * D)" for z
    by (intro mod_mult_cong refl; simp only: C D YX D')+
  then show ?thesis unfolding dbl_pt_def dbl_c.simps
    by (intro extend_affine [of _ _ _ _ _ _ _ c d]) (simp_all only: A B x'' y'' t'' c d)
qed

section \<open>Checking the entries\<close>

lemma curve_d_numeral: "curve_d mod p25519 = 37095705934669439343138083508754565189542113879843219016388785533085940283555 mod p25519"
  by (simp add: curve_d_def fe_d_def p25519_def)


definition base_pt :: ext where
  "base_pt = (15112221349535400772501151409588531511454012693041857206046113283949847762202, 46316835694926478169428394003475163141307993866256225615783033603165251855960, 1, 46827403850823179245072216630277197565144205554125654976674165829533817101731)"

definition base_3 :: ext where
  "base_3 = (46896733464454938657123544595386787789046198280132665686241321779790909858396, 8324843778533443976490377120369201138301417226297555316741202210403726505172, 1, 19133203167024340156157901305709655404499344800967978305064989153409356768282)"

definition base_5 :: ext where
  "base_5 = (33467004535436536005251147249499675200073690106659565782908757308821616914995, 43097193783671926753355113395909008640284023746042808659097434958891230611693, 1, 52631435118507418230927645098360784166288333741771923328027903523704223039952)"

definition base_7 :: ext where
  "base_7 = (9199134265559022971505535402808359556995554859516252602543778295037484220679, 22512087849695599276028560866629687720820254811233262850576678203618951717560, 1, 7969306344939599448108779620249142998159244560978835759187616138611789393179)"

definition base_9 :: ext where
  "base_9 = (24193060302538010417230488029838514081720802923509845138863968807030823940444, 57551756252899625001155759838357770487605224608455116862194664796369308545472, 1, 41812410146810177838232618347187858057822209473536282119740688245908349056101)"

definition base_11 :: ext where
  "base_11 = (9451145793506787353375160377761530931587019091193333050860601958827395183563, 20609402718286069808115703540855311742885093522056241285814584245966805874451, 1, 41115672721981046446137450827132502570366877864937539642265045489017153122004)"

definition base_13 :: ext where
  "base_13 = (7442235066513780790779899786332475485840754593728627195931759107337804079085, 8529785864514984411577036536286432879603480171865651918962709025066066124672, 1, 29471055441072170259805152731682457644447474860555123755684575143128358334291)"

definition base_15 :: ext where
  "base_15 = (35771902585589234259498423420223840099331465042459337605611172842168536632769, 8502034780705657720897159939055122322178084209392286764802307224484658961631, 1, 42609173769455554086108030252596314253679554082059705507322920389417832202025)"

definition base_2 :: ext where
  "base_2 = (24727413235106541002554574571675588834622768167397638456726423682521233608206, 15549675580280190176352668710449542251549572066445060580507079593062643049417, 1, 16552979481334663544878610556091376071931149008662153799327195285289362371585)"

lemma base_2_double: "same_pt (dbl_pt base_pt) base_2"
proof -
  have X: "15112221349535400772501151409588531511454012693041857206046113283949847762202 * 15112221349535400772501151409588531511454012693041857206046113283949847762202 mod p25519 = 26187595835145689230469591415084376402084551887632582719101735842039498021991 mod p25519" by (rule congI [where q = 3944643120641682540557488748386534817562863454810087094083181913524639656337]) (simp only: nums)
  have Y: "46316835694926478169428394003475163141307993866256225615783033603165251855960 * 46316835694926478169428394003475163141307993866256225615783033603165251855960 mod p25519 = 37053468555941182535542715202780130513046395093004980492626426882532201484768 mod p25519" by (rule congI [where q = 37053468555941182535542715202780130513046395093004980492626426882532201484768]) (simp only: nums)
  have C: "10865872720795493305073123787695754110961843205372397773524691040492703462777 mod p25519 = (37053468555941182535542715202780130513046395093004980492626426882532201484768 - 26187595835145689230469591415084376402084551887632582719101735842039498021991) mod p25519" by (rule congI [where q = "0"]) (simp only: nums)
  have D: "47030171897862604406712368716648199815673149127447884246204100963463861357174 mod p25519 = (2 - (37053468555941182535542715202780130513046395093004980492626426882532201484768 - 26187595835145689230469591415084376402084551887632582719101735842039498021991)) mod p25519" by (rule congI [where q = "1"]) (simp only: nums)
  have x: "24727413235106541002554574571675588834622768167397638456726423682521233608206 * 10865872720795493305073123787695754110961843205372397773524691040492703462777 mod p25519 = 2 * 46827403850823179245072216630277197565144205554125654976674165829533817101731 mod p25519" by (rule congI [where q = 4640816599768074523567265725477282336817799778256961706557227807567430185400]) (simp only: nums)
  have y: "15549675580280190176352668710449542251549572066445060580507079593062643049417 * 47030171897862604406712368716648199815673149127447884246204100963463861357174 mod p25519 = (37053468555941182535542715202780130513046395093004980492626426882532201484768 + 26187595835145689230469591415084376402084551887632582719101735842039498021991) mod p25519" by (rule congI [where q = 12631327758457910932128134242497679156296694763768417464988278732794571526651]) (simp only: nums)
  have t: "15112221349535400772501151409588531511454012693041857206046113283949847762202 * 46316835694926478169428394003475163141307993866256225615783033603165251855960 mod p25519 = 46827403850823179245072216630277197565144205554125654976674165829533817101731 mod p25519" by (rule congI [where q = 12089777079628320618000921127670825209163210154433485764836890627159878209761]) (simp only: nums)
  have t2: "24727413235106541002554574571675588834622768167397638456726423682521233608206 * 15549675580280190176352668710449542251549572066445060580507079593062643049417 mod p25519 = 16552979481334663544878610556091376071931149008662153799327195285289362371585 mod p25519" by (rule congI [where q = 6641269818655623607039518867122167455242689595721592842383860057608506014033]) (simp only: nums)
  have c: "209325846291170943509691191589112255490563248687624486049616149279891676193 * 10865872720795493305073123787695754110961843205372397773524691040492703462777 mod p25519 = 1 mod p25519" by (rule congI [where q = 39286068987166379365534598460247025388597226932259233411430977511593730040]) (simp only: nums)
  have d: "23433485286344922975343343183309822149119477277686524097973672123823657291327 * 47030171897862604406712368716648199815673149127447884246204100963463861357174 mod p25519 = 1 mod p25519" by (rule congI [where q = 19035511811590482688376100331701823250667039927225552379008358064923876157453]) (simp only: nums)
  show ?thesis unfolding base_pt_def base_2_def by (rule dbl_affine [OF X Y C D x y t t2 c d])
qed

lemma base_3_sum: "same_pt (add_pt base_pt base_2) base_3"
proof -
  have P: "(46316835694926478169428394003475163141307993866256225615783033603165251855960 + 15112221349535400772501151409588531511454012693041857206046113283949847762202) * (15549675580280190176352668710449542251549572066445060580507079593062643049417 + 24727413235106541002554574571675588834622768167397638456726423682521233608206) mod p25519 = 35836198105162576089666235987302654396223515045126903913024701345011743111888 mod p25519" by (rule congI [where q = 42734932977233067809264829830739557389258739414756841044425616057525095909862]) (simp only: nums)
  have M: "(46316835694926478169428394003475163141307993866256225615783033603165251855960 - 15112221349535400772501151409588531511454012693041857206046113283949847762202) * (15549675580280190176352668710449542251549572066445060580507079593062643049417 - 24727413235106541002554574571675588834622768167397638456726423682521233608206) mod p25519 = 51073373630742262250145645534413082083440105636618228032207674569823488888445 mod p25519" by (rule congI [where q = "-4946586005458071071705749019114704619667781514210168541980762927473219165343"]) (simp only: nums)
  have s: "46827403850823179245072216630277197565144205554125654976674165829533817101731 * 16552979481334663544878610556091376071931149008662153799327195285289362371585 mod p25519 = 3364236006921377708987850388260268045919210514534713198477653094347271829663 mod p25519" by (rule congI [where q = 13388359433056098230768921232161803557933687620554246315848680033564797844628]) (simp only: nums)
  have w: "37095705934669439343138083508754565189542113879843219016388785533085940283555 * 3364236006921377708987850388260268045919210514534713198477653094347271829663 mod p25519 = 12965896712281167460188844285041720407456251414812089957574419241826119111093 mod p25519" by (rule congI [where q = 2155565383258724699621487326096273367412687650293044625345827486478075842728]) (simp only: nums)
  have C: "25931793424562334920377688570083440814912502829624179915148838483652238222188 mod p25519 = (2 + 2 * 12965896712281167460188844285041720407456251414812089957574419241826119111093) mod p25519" by (rule congI [where q = "0"]) (simp only: nums)
  have D: "31964251194095762791407803934260513111722489503196102104579953520304326597765 mod p25519 = (2 - 2 * 12965896712281167460188844285041720407456251414812089957574419241826119111093) mod p25519" by (rule congI [where q = "1"]) (simp only: nums)
  have x: "46896733464454938657123544595386787789046198280132665686241321779790909858396 * 25931793424562334920377688570083440814912502829624179915148838483652238222188 mod p25519 = (35836198105162576089666235987302654396223515045126903913024701345011743111888 - 51073373630742262250145645534413082083440105636618228032207674569823488888445) mod p25519" by (rule congI [where q = 21005172503530378064342723398000528316794348940963468774391337865453452545745]) (simp only: nums)
  have y: "8324843778533443976490377120369201138301417226297555316741202210403726505172 * 31964251194095762791407803934260513111722489503196102104579953520304326597765 mod p25519 = (35836198105162576089666235987302654396223515045126903913024701345011743111888 + 51073373630742262250145645534413082083440105636618228032207674569823488888445) mod p25519" by (rule congI [where q = 4596123957022331514977623365889292531699843712657274808754549387989595339603]) (simp only: nums)
  have t: "46896733464454938657123544595386787789046198280132665686241321779790909858396 * 8324843778533443976490377120369201138301417226297555316741202210403726505172 mod p25519 = 19133203167024340156157901305709655404499344800967978305064989153409356768282 mod p25519" by (rule congI [where q = 6743258237874379575953832327795487793144750025096763998866812939822304010670]) (simp only: nums)
  have c: "14800401336114645988775543494517728596956448697095256245428135338145101485725 * 25931793424562334920377688570083440814912502829624179915148838483652238222188 mod p25519 = 1 mod p25519" by (rule congI [where q = 6629139392452627800747756727327378811291480314330367441404854080411285246151]) (simp only: nums)
  have d: "6213681717738249382311146319690093952908484575832799551879621986063072373919 * 31964251194095762791407803934260513111722489503196102104579953520304326597765 mod p25519 = 1 mod p25519" by (rule congI [where q = 3430557036739918842519206822493124500704441185938621290634040553413723145666]) (simp only: nums)
  have w2: "curve_d * 3364236006921377708987850388260268045919210514534713198477653094347271829663 mod p25519 = 12965896712281167460188844285041720407456251414812089957574419241826119111093 mod p25519"
    using mod_mult_cong [OF curve_d_numeral refl, of 3364236006921377708987850388260268045919210514534713198477653094347271829663] w by (simp only:)
  show ?thesis unfolding base_pt_def base_2_def base_3_def by (rule add_affine [OF P M s w2 C D x y t c d])
qed

lemma base_5_sum: "same_pt (add_pt base_3 base_2) base_5"
proof -
  have P: "(8324843778533443976490377120369201138301417226297555316741202210403726505172 + 46896733464454938657123544595386787789046198280132665686241321779790909858396) * (15549675580280190176352668710449542251549572066445060580507079593062643049417 + 24727413235106541002554574571675588834622768167397638456726423682521233608206) mod p25519 = 36428207911886985325462882935446692961239949638875699123267901926024575960154 mod p25519" by (rule congI [where q = 38416516806828677631067576566915977641794738528686670505589185757303892491790]) (simp only: nums)
  have M: "(8324843778533443976490377120369201138301417226297555316741202210403726505172 - 46896733464454938657123544595386787789046198280132665686241321779790909858396) * (15549675580280190176352668710449542251549572066445060580507079593062643049417 - 24727413235106541002554574571675588834622768167397638456726423682521233608206) mod p25519 = 34056818218976622640549842037460045160116203614030791891880628835212625340410 mod p25519" by (rule congI [where q = "6114453702666343698546903573671854476707783192830684725199151505997108535974"]) (simp only: nums)
  have s: "19133203167024340156157901305709655404499344800967978305064989153409356768282 * 16552979481334663544878610556091376071931149008662153799327195285289362371585 mod p25519 = 42371533499781928103430765740550095599405096895089063229563725931958961537065 mod p25519" by (rule congI [where q = 5470348130378064101724975097196448602947468179203870971996966324488324477845]) (simp only: nums)
  have w: "37095705934669439343138083508754565189542113879843219016388785533085940283555 * 42371533499781928103430765740550095599405096895089063229563725931958961537065 mod p25519 = 38992872074211770242716245714054993943552099849601362769832305884147734512537 mod p25519" by (rule congI [where q = 27148693094007366111345366357935517749014715109041703713943420964163043468362]) (simp only: nums)
  have C: "20089699529765442773646998923766033960469207366382443519935819764338904205127 mod p25519 = (2 + 2 * 38992872074211770242716245714054993943552099849601362769832305884147734512537) mod p25519" by (rule congI [where q = "-1"]) (simp only: nums)
  have D: "37806345088892654938138493580577919966165784966437838499792972239617660614826 mod p25519 = (2 - 2 * 38992872074211770242716245714054993943552099849601362769832305884147734512537) mod p25519" by (rule congI [where q = "2"]) (simp only: nums)
  have x: "33467004535436536005251147249499675200073690106659565782908757308821616914995 * 20089699529765442773646998923766033960469207366382443519935819764338904205127 mod p25519 = (36428207911886985325462882935446692961239949638875699123267901926024575960154 - 34056818218976622640549842037460045160116203614030791891880628835212625340410) mod p25519" by (rule congI [where q = 11612918804845993644814537102589238532986637122964878263902240765954375023929]) (simp only: nums)
  have y: "43097193783671926753355113395909008640284023746042808659097434958891230611693 * 37806345088892654938138493580577919966165784966437838499792972239617660614826 mod p25519 = (36428207911886985325462882935446692961239949638875699123267901926024575960154 + 34056818218976622640549842037460045160116203614030791891880628835212625340410) mod p25519" by (rule congI [where q = 28142637226434845779221953919208682094199976163319406566443161099939990867846]) (simp only: nums)
  have t: "33467004535436536005251147249499675200073690106659565782908757308821616914995 * 43097193783671926753355113395909008640284023746042808659097434958891230611693 mod p25519 = 52631435118507418230927645098360784166288333741771923328027903523704223039952 mod p25519" by (rule congI [where q = 24912478724978669719436288467669755371092766181383718252439230274986184940067]) (simp only: nums)
  have c: "43778261276722447586020976159444921676451998499296786933399987311278058018505 * 20089699529765442773646998923766033960469207366382443519935819764338904205127 mod p25519 = 1 mod p25519" by (rule congI [where q = 15190884295772541327473663101140845777818891249734978679617365489487355416566]) (simp only: nums)
  have d: "25589328919397401157187726105966488552219416017000692951711296225425650250501 * 37806345088892654938138493580577919966165784966437838499792972239617660614826 mod p25519 = 1 mod p25519" by (rule congI [where q = 16709932536706370644797880930049970622062035355261940658341961075821125175925]) (simp only: nums)
  have w2: "curve_d * 42371533499781928103430765740550095599405096895089063229563725931958961537065 mod p25519 = 38992872074211770242716245714054993943552099849601362769832305884147734512537 mod p25519"
    using mod_mult_cong [OF curve_d_numeral refl, of 42371533499781928103430765740550095599405096895089063229563725931958961537065] w by (simp only:)
  show ?thesis unfolding base_3_def base_2_def base_5_def by (rule add_affine [OF P M s w2 C D x y t c d])
qed

lemma base_7_sum: "same_pt (add_pt base_5 base_2) base_7"
proof -
  have P: "(43097193783671926753355113395909008640284023746042808659097434958891230611693 + 33467004535436536005251147249499675200073690106659565782908757308821616914995) * (15549675580280190176352668710449542251549572066445060580507079593062643049417 + 24727413235106541002554574571675588834622768167397638456726423682521233608206) mod p25519 = 37217471605203055787953098242198052389749550501590550335704896758833435554315 mod p25519" by (rule congI [where q = 53264139823185909033055662653685433400287358271284414262314966196305606549641]) (simp only: nums)
  have M: "(43097193783671926753355113395909008640284023746042808659097434958891230611693 - 33467004535436536005251147249499675200073690106659565782908757308821616914995) * (15549675580280190176352668710449542251549572066445060580507079593062643049417 - 24727413235106541002554574571675588834622768167397638456726423682521233608206) mod p25519 = 29889569824455507556150880508014120134410667866214012002507438986772226483381 mod p25519" by (rule congI [where q = "-1526587024533116441891684283671259050646711630144854636617640448235528350547"]) (simp only: nums)
  have s: "52631435118507418230927645098360784166288333741771923328027903523704223039952 * 16552979481334663544878610556091376071931149008662153799327195285289362371585 mod p25519 = 15346874318147105863293115084415884734066589450846357509903977324495490947132 mod p25519" by (rule congI [where q = 15047782129646330461943821500031213609696782546018060526164304035680346592612]) (simp only: nums)
  have w: "37095705934669439343138083508754565189542113879843219016388785533085940283555 * 15346874318147105863293115084415884734066589450846357509903977324495490947132 mod p25519 = 26708851835273599236554348871529033123123434212128029177396509941486770170587 mod p25519" by (rule congI [where q = 9833195695355790751508348975109235895354174384303978101396976577935051672477]) (simp only: nums)
  have C: "53417703670547198473108697743058066246246868424256058354793019882973540341176 mod p25519 = (2 + 2 * 26708851835273599236554348871529033123123434212128029177396509941486770170587) mod p25519" by (rule congI [where q = "0"]) (simp only: nums)
  have D: "4478340948110899238676794761285887680388123908564223664935772120983024478777 mod p25519 = (2 - 2 * 26708851835273599236554348871529033123123434212128029177396509941486770170587) mod p25519" by (rule congI [where q = "1"]) (simp only: nums)
  have x: "9199134265559022971505535402808359556995554859516252602543778295037484220679 * 53417703670547198473108697743058066246246868424256058354793019882973540341176 mod p25519 = (37217471605203055787953098242198052389749550501590550335704896758833435554315 - 29889569824455507556150880508014120134410667866214012002507438986772226483381) mod p25519" by (rule congI [where q = 8487568217481421020485879098617225405742094118604389687136348810410632495930]) (simp only: nums)
  have y: "22512087849695599276028560866629687720820254811233262850576678203618951717560 * 4478340948110899238676794761285887680388123908564223664935772120983024478777 mod p25519 = (37217471605203055787953098242198052389749550501590550335704896758833435554315 + 29889569824455507556150880508014120134410667866214012002507438986772226483381) mod p25519" by (rule congI [where q = 1741341839650847560369752853420207739415215977853245187759934457375904394776]) (simp only: nums)
  have t: "9199134265559022971505535402808359556995554859516252602543778295037484220679 * 22512087849695599276028560866629687720820254811233262850576678203618951717560 mod p25519 = 7969306344939599448108779620249142998159244560978835759187616138611789393179 mod p25519" by (rule congI [where q = 3576957978588238476811314794424929515154206407324990029083190680237458175489]) (simp only: nums)
  have c: "26687752567656614803387738202137218925419646108742153337856127885517264849798 * 53417703670547198473108697743058066246246868424256058354793019882973540341176 mod p25519 = 1 mod p25519" by (rule congI [where q = 24623417155384394775307477940976477232497684838837466212941596724761177407403]) (simp only: nums)
  have d: "8378077209904951589275057126771347765478063629731528676862610260479429645654 * 4478340948110899238676794761285887680388123908564223664935772120983024478777 mod p25519 = 1 mod p25519" by (rule congI [where q = 648056123396391120669256358374909805146851753550141095399244147715846215193]) (simp only: nums)
  have w2: "curve_d * 15346874318147105863293115084415884734066589450846357509903977324495490947132 mod p25519 = 26708851835273599236554348871529033123123434212128029177396509941486770170587 mod p25519"
    using mod_mult_cong [OF curve_d_numeral refl, of 15346874318147105863293115084415884734066589450846357509903977324495490947132] w by (simp only:)
  show ?thesis unfolding base_5_def base_2_def base_7_def by (rule add_affine [OF P M s w2 C D x y t c d])
qed

lemma base_9_sum: "same_pt (add_pt base_7 base_2) base_9"
proof -
  have P: "(22512087849695599276028560866629687720820254811233262850576678203618951717560 + 9199134265559022971505535402808359556995554859516252602543778295037484220679) * (15549675580280190176352668710449542251549572066445060580507079593062643049417 + 24727413235106541002554574571675588834622768167397638456726423682521233608206) mod p25519 = 964062178963072529694506282884347898207643171327461248684554925516491610347 mod p25519" by (rule congI [where q = 22060845745046854019466403231769535312172356876822873926185771470551153216950]) (simp only: nums)
  have M: "(22512087849695599276028560866629687720820254811233262850576678203618951717560 - 9199134265559022971505535402808359556995554859516252602543778295037484220679) * (15549675580280190176352668710449542251549572066445060580507079593062643049417 - 24727413235106541002554574571675588834622768167397638456726423682521233608206) mod p25519 = 21596274658301122124315942057527546100299459026406211766721713713777545493558 mod p25519" by (rule congI [where q = "-2110382431319150289747356638618027862971421172691905843012904997233515920183"]) (simp only: nums)
  have s: "7969306344939599448108779620249142998159244560978835759187616138611789393179 * 16552979481334663544878610556091376071931149008662153799327195285289362371585 mod p25519 = 56168597102055912493228154247220266103922034630928085176911135512893652829234 mod p25519" by (rule congI [where q = 2278493553007643268480464331519221614844585898988572388041281032238696137069]) (simp only: nums)
  have w: "37095705934669439343138083508754565189542113879843219016388785533085940283555 * 56168597102055912493228154247220266103922034630928085176911135512893652829234 mod p25519 = 7248842797640218075432952744241253730385792372876792704258571421819384289417 mod p25519" by (rule congI [where q = 35988879285016098650482474679385003568221542663143350483833672257718875497697]) (simp only: nums)
  have C: "14497685595280436150865905488482507460771584745753585408517142843638768578836 mod p25519 = (2 + 2 * 7248842797640218075432952744241253730385792372876792704258571421819384289417) mod p25519" by (rule congI [where q = "0"]) (simp only: nums)
  have D: "43398359023377661560919587015861446465863407587066696611211649160317796241117 mod p25519 = (2 - 2 * 7248842797640218075432952744241253730385792372876792704258571421819384289417) mod p25519" by (rule congI [where q = "1"]) (simp only: nums)
  have x: "24193060302538010417230488029838514081720802923509845138863968807030823940444 * 14497685595280436150865905488482507460771584745753585408517142843638768578836 mod p25519 = (964062178963072529694506282884347898207643171327461248684554925516491610347 - 21596274658301122124315942057527546100299459026406211766721713713777545493558) mod p25519" by (rule congI [where q = 6058157930547513804650640723293275382002380297358463686918344728005942830855]) (simp only: nums)
  have y: "57551756252899625001155759838357770487605224608455116862194664796369308545472 * 43398359023377661560919587015861446465863407587066696611211649160317796241117 mod p25519 = (964062178963072529694506282884347898207643171327461248684554925516491610347 + 21596274658301122124315942057527546100299459026406211766721713713777545493558) mod p25519" by (rule congI [where q = 43140283533019500458398320812563607849504585786225309795748705255053248195131]) (simp only: nums)
  have t: "24193060302538010417230488029838514081720802923509845138863968807030823940444 * 57551756252899625001155759838357770487605224608455116862194664796369308545472 mod p25519 = 41812410146810177838232618347187858057822209473536282119740688245908349056101 mod p25519" by (rule congI [where q = 24049192284452839026368981968108426564614361617599417040661616562485502377383]) (simp only: nums)
  have c: "2203463271918410156772873278885440242718319020247006214197710390413746743329 * 14497685595280436150865905488482507460771584745753585408517142843638768578836 mod p25519 = 1 mod p25519" by (rule congI [where q = 551766842578501710646152169040584530131979788187684025548934567783135924607]) (simp only: nums)
  have d: "21845435652624287915504432666550273007690826689298115468557054560587521911368 * 43398359023377661560919587015861446465863407587066696611211649160317796241117 mod p25519 = 1 mod p25519" by (rule congI [where q = 16375143858604017764901719354895672257195608770175369793464838650237049972195]) (simp only: nums)
  have w2: "curve_d * 56168597102055912493228154247220266103922034630928085176911135512893652829234 mod p25519 = 7248842797640218075432952744241253730385792372876792704258571421819384289417 mod p25519"
    using mod_mult_cong [OF curve_d_numeral refl, of 56168597102055912493228154247220266103922034630928085176911135512893652829234] w by (simp only:)
  show ?thesis unfolding base_7_def base_2_def base_9_def by (rule add_affine [OF P M s w2 C D x y t c d])
qed

lemma base_11_sum: "same_pt (add_pt base_9 base_2) base_11"
proof -
  have P: "(57551756252899625001155759838357770487605224608455116862194664796369308545472 + 24193060302538010417230488029838514081720802923509845138863968807030823940444) * (15549675580280190176352668710449542251549572066445060580507079593062643049417 + 24727413235106541002554574571675588834622768167397638456726423682521233608206) mod p25519 = 35357236922966140846483920495619324958187867058321510938401688613766315432257 mod p25519" by (rule congI [where q = 56868189498731404629605890716945033782049709439722006325722859860129636742639]) (simp only: nums)
  have M: "(57551756252899625001155759838357770487605224608455116862194664796369308545472 - 24193060302538010417230488029838514081720802923509845138863968807030823940444) * (15549675580280190176352668710449542251549572066445060580507079593062643049417 - 24727413235106541002554574571675588834622768167397638456726423682521233608206) mod p25519 = 47029305800561816211887587218092485800478688810010519361711949223038614519020 mod p25519" by (rule congI [where q = "-5288053129641123688176253052887361360690550826756177879631003938133294875488"]) (simp only: nums)
  have s: "41812410146810177838232618347187858057822209473536282119740688245908349056101 * 16552979481334663544878610556091376071931149008662153799327195285289362371585 mod p25519 = 30794055059241951527746855506676385403749644531741541474523954922722731491442 mod p25519" by (rule congI [where q = 11954529394608235174927010928405425812832858533996480078606237590916112391007]) (simp only: nums)
  have w: "37095705934669439343138083508754565189542113879843219016388785533085940283555 * 30794055059241951527746855506676385403749644531741541474523954922722731491442 mod p25519 = 7877478122048862755598430610344988161480765250477852441251648244542214503244 mod p25519" by (rule congI [where q = 19730660678769798722284829952681584207168013573816118436099772376841932285234]) (simp only: nums)
  have C: "15754956244097725511196861220689976322961530500955704882503296489084429006490 mod p25519 = (2 + 2 * 7877478122048862755598430610344988161480765250477852441251648244542214503244) mod p25519" by (rule congI [where q = "0"]) (simp only: nums)
  have D: "42141088374560372200588631283653977603673461831864577137225495514872135813463 mod p25519 = (2 - 2 * 7877478122048862755598430610344988161480765250477852441251648244542214503244) mod p25519" by (rule congI [where q = "1"]) (simp only: nums)
  have x: "9451145793506787353375160377761530931587019091193333050860601958827395183563 * 15754956244097725511196861220689976322961530500955704882503296489084429006490 mod p25519 = (35357236922966140846483920495619324958187867058321510938401688613766315432257 - 47029305800561816211887587218092485800478688810010519361711949223038614519020) mod p25519" by (rule congI [where q = 2571892249532036170007237521598359191926542006012043304008749553632311853517]) (simp only: nums)
  have y: "20609402718286069808115703540855311742885093522056241285814584245966805874451 * 42141088374560372200588631283653977603673461831864577137225495514872135813463 mod p25519 = (35357236922966140846483920495619324958187867058321510938401688613766315432257 + 47029305800561816211887587218092485800478688810010519361711949223038614519020) mod p25519" by (rule congI [where q = 15001070747038677425838271061112690156767891936712242066114986891212254684264]) (simp only: nums)
  have t: "9451145793506787353375160377761530931587019091193333050860601958827395183563 * 20609402718286069808115703540855311742885093522056241285814584245966805874451 mod p25519 = 41115672721981046446137450827132502570366877864937539642265045489017153122004 mod p25519" by (rule congI [where q = 3364348481672345450490071950188201941897672407967167034662012885099961841041]) (simp only: nums)
  have c: "9653269688887792555535676373344327652713169098786276239946223070279614401922 * 15754956244097725511196861220689976322961530500955704882503296489084429006490 mod p25519 = 1 mod p25519" by (rule congI [where q = 2626895197463786121589071024703830290331417473294526327972862130148722112671]) (simp only: nums)
  have d: "25392389304302989897225242795517521250984112449970867690281852753624052092122 * 42141088374560372200588631283653977603673461831864577137225495514872135813463 mod p25519 = 1 mod p25519" by (rule congI [where q = 18482487512955691740476362254729382912659269082435705563259351700888501048265]) (simp only: nums)
  have w2: "curve_d * 30794055059241951527746855506676385403749644531741541474523954922722731491442 mod p25519 = 7877478122048862755598430610344988161480765250477852441251648244542214503244 mod p25519"
    using mod_mult_cong [OF curve_d_numeral refl, of 30794055059241951527746855506676385403749644531741541474523954922722731491442] w by (simp only:)
  show ?thesis unfolding base_9_def base_2_def base_11_def by (rule add_affine [OF P M s w2 C D x y t c d])
qed

lemma base_13_sum: "same_pt (add_pt base_11 base_2) base_13"
proof -
  have P: "(20609402718286069808115703540855311742885093522056241285814584245966805874451 + 9451145793506787353375160377761530931587019091193333050860601958827395183563) * (15549675580280190176352668710449542251549572066445060580507079593062643049417 + 24727413235106541002554574571675588834622768167397638456726423682521233608206) mod p25519 = 13487268092732618367154132765356208660566162805050792442740014929157209522333 mod p25519" by (rule congI [where q = 20912506030827099943526451675253783108265403435270035008197665913666594023561]) (simp only: nums)
  have M: "(20609402718286069808115703540855311742885093522056241285814584245966805874451 - 9451145793506787353375160377761530931587019091193333050860601958827395183563) * (15549675580280190176352668710449542251549572066445060580507079593062643049417 - 24727413235106541002554574571675588834622768167397638456726423682521233608206) mod p25519 = 39637519258112669046089901065142874486030603519052515289679436021924979366232 mod p25519" by (rule congI [where q = "-1768817808112765713093707732764590263413717971066940635800958938758948422336"]) (simp only: nums)
  have s: "41115672721981046446137450827132502570366877864937539642265045489017153122004 * 16552979481334663544878610556091376071931149008662153799327195285289362371585 mod p25519 = 12403671989286842433575992357264831529847132505728420164571586863353642167606 mod p25519" by (rule congI [where q = 11755326143798285875510970362806574346135435682334176165805948451710396282966]) (simp only: nums)
  have w: "37095705934669439343138083508754565189542113879843219016388785533085940283555 * 12403671989286842433575992357264831529847132505728420164571586863353642167606 mod p25519 = 39401460070013387312891163651564801670953213707982218393283189671500785029234 mod p25519" by (rule congI [where q = 7947399026226355776547404239562243699219446800947339387578929642897220054704]) (simp only: nums)
  have C: "20906875521368676913996834798785649415271435083144154766837587339045005238521 mod p25519 = (2 + 2 * 39401460070013387312891163651564801670953213707982218393283189671500785029234) mod p25519" by (rule congI [where q = "-1"]) (simp only: nums)
  have D: "36989169097289420797788657705558304511363557249676127252891204664911559581432 mod p25519 = (2 - 2 * 39401460070013387312891163651564801670953213707982218393283189671500785029234) mod p25519" by (rule congI [where q = "2"]) (simp only: nums)
  have x: "7442235066513780790779899786332475485840754593728627195931759107337804079085 * 20906875521368676913996834798785649415271435083144154766837587339045005238521 mod p25519 = (13487268092732618367154132765356208660566162805050792442740014929157209522333 - 39637519258112669046089901065142874486030603519052515289679436021924979366232) mod p25519" by (rule congI [where q = 2687469984542354610394157032679256017343967217338143295851780879129147742016]) (simp only: nums)
  have y: "8529785864514984411577036536286432879603480171865651918962709025066066124672 * 36989169097289420797788657705558304511363557249676127252891204664911559581432 mod p25519 = (13487268092732618367154132765356208660566162805050792442740014929157209522333 + 39637519258112669046089901065142874486030603519052515289679436021924979366232) mod p25519" by (rule congI [where q = 5449589756681492012508014857689186793824027280615987467215131584075693482711]) (simp only: nums)
  have t: "7442235066513780790779899786332475485840754593728627195931759107337804079085 * 8529785864514984411577036536286432879603480171865651918962709025066066124672 mod p25519 = 29471055441072170259805152731682457644447474860555123755684575143128358334291 mod p25519" by (rule congI [where q = 1096459557623892196493299667445616164183037679408002196057053966527443213121]) (simp only: nums)
  have c: "39013631716307396687542631060919744873467358079801037193258528897318060063439 * 20906875521368676913996834798785649415271435083144154766837587339045005238521 mod p25519 = 1 mod p25519" by (rule congI [where q = 14088236032388645582603310583554076742610177195831732601771604556491583347182]) (simp only: nums)
  have d: "47060000535260615224909449808437901475846999742593903518283303596801876810710 * 36989169097289420797788657705558304511363557249676127252891204664911559581432 mod p25519 = 1 mod p25519" by (rule congI [where q = 30066135415342495746627283985646284645754275287792046954304143815969841346731]) (simp only: nums)
  have w2: "curve_d * 12403671989286842433575992357264831529847132505728420164571586863353642167606 mod p25519 = 39401460070013387312891163651564801670953213707982218393283189671500785029234 mod p25519"
    using mod_mult_cong [OF curve_d_numeral refl, of 12403671989286842433575992357264831529847132505728420164571586863353642167606] w by (simp only:)
  show ?thesis unfolding base_11_def base_2_def base_13_def by (rule add_affine [OF P M s w2 C D x y t c d])
qed

lemma base_15_sum: "same_pt (add_pt base_13 base_2) base_15"
proof -
  have P: "(8529785864514984411577036536286432879603480171865651918962709025066066124672 + 7442235066513780790779899786332475485840754593728627195931759107337804079085) * (15549675580280190176352668710449542251549572066445060580507079593062643049417 + 24727413235106541002554574571675588834622768167397638456726423682521233608206) mod p25519 = 53194103695478175970347190560554105046564689269256177083234501075279421551247 mod p25519" by (rule congI [where q = 11111406829905332246333203196026989392745561125201681055627629611823989289836]) (simp only: nums)
  have M: "(8529785864514984411577036536286432879603480171865651918962709025066066124672 - 7442235066513780790779899786332475485840754593728627195931759107337804079085) * (15549675580280190176352668710449542251549572066445060580507079593062643049417 - 24727413235106541002554574571675588834622768167397638456726423682521233608206) mod p25519 = 6399198549769364407328575246964963723243366236428464316839431636650451908758 mod p25519" by (rule congI [where q = "-172399616866666639458185156612610226916373660663731854843163657880848524649"]) (simp only: nums)
  have s: "29471055441072170259805152731682457644447474860555123755684575143128358334291 * 16552979481334663544878610556091376071931149008662153799327195285289362371585 mod p25519 = 34319297624379560845894772703016622542474881780285926576103609213095591097140 mod p25519" by (rule congI [where q = 8426029432969765370693147803366391503171803432599203356700679263558645268155]) (simp only: nums)
  have w: "37095705934669439343138083508754565189542113879843219016388785533085940283555 * 34319297624379560845894772703016622542474881780285926576103609213095591097140 mod p25519 = 45816845794232749498991608072953932466942116014606495453164585144074912777403 mod p25519" by (rule congI [where q = 21989387719728672478274349498328709831001507480990493697829770488113908602053]) (simp only: nums)
  have C: "33737646969807401286197723641563911007249239696392708886600378284193260734859 mod p25519 = (2 + 2 * 45816845794232749498991608072953932466942116014606495453164585144074912777403) mod p25519" by (rule congI [where q = "-1"]) (simp only: nums)
  have D: "24158397648850696425587768862780042919385752636427573133128413719763304085094 mod p25519 = (2 - 2 * 45816845794232749498991608072953932466942116014606495453164585144074912777403) mod p25519" by (rule congI [where q = "2"]) (simp only: nums)
  have x: "35771902585589234259498423420223840099331465042459337605611172842168536632769 * 33737646969807401286197723641563911007249239696392708886600378284193260734859 mod p25519 = (53194103695478175970347190560554105046564689269256177083234501075279421551247 - 6399198549769364407328575246964963723243366236428464316839431636650451908758) mod p25519" by (rule congI [where q = 20845289670825228031944213657148123951393840035055570267667359024059088557018]) (simp only: nums)
  have y: "8502034780705657720897159939055122322178084209392286764802307224484658961631 * 24158397648850696425587768862780042919385752636427573133128413719763304085094 mod p25519 = (53194103695478175970347190560554105046564689269256177083234501075279421551247 + 6399198549769364407328575246964963723243366236428464316839431636650451908758) mod p25519" by (rule congI [where q = 3547660956970690931786704533840461063823345195206804254407449467641019569641]) (simp only: nums)
  have t: "35771902585589234259498423420223840099331465042459337605611172842168536632769 * 8502034780705657720897159939055122322178084209392286764802307224484658961631 mod p25519 = 42609173769455554086108030252596314253679554082059705507322920389417832202025 mod p25519" by (rule congI [where q = 5253104282994168183921517903901539759328624563151459270604398721148228361486]) (simp only: nums)
  have c: "16552980031313724884505217004887223551731592912342337504644186076074559161438 * 33737646969807401286197723641563911007249239696392708886600378284193260734859 mod p25519 = 1 mod p25519" by (rule congI [where q = 9645885142467229018624560090574202358298965225793813701925212151008281847309]) (simp only: nums)
  have d: "838596239051006382057345074851067796164687287976509171803217838971397064007 * 24158397648850696425587768862780042919385752636427573133128413719763304085094 mod p25519 = 1 mod p25519" by (rule congI [where q = 349922719993482540155895895968991693078654625744709970375200206431964463693]) (simp only: nums)
  have w2: "curve_d * 34319297624379560845894772703016622542474881780285926576103609213095591097140 mod p25519 = 45816845794232749498991608072953932466942116014606495453164585144074912777403 mod p25519"
    using mod_mult_cong [OF curve_d_numeral refl, of 34319297624379560845894772703016622542474881780285926576103609213095591097140] w by (simp only:)
  show ?thesis unfolding base_13_def base_2_def base_15_def by (rule add_affine [OF P M s w2 C D x y t c d])
qed

text \<open>The limbs of the table stand for these points.\<close>

lemma base_pt_entry: "is_precomp base_pt (ge_Bi ! 0)"
proof -
  have "curve_d * 46827403850823179245072216630277197565144205554125654976674165829533817101731 mod p25519 = 37095705934669439343138083508754565189542113879843219016388785533085940283555 * 46827403850823179245072216630277197565144205554125654976674165829533817101731 mod p25519" by (rule mod_mult_cong [OF curve_d_numeral refl])
  also have "\<dots> = 25118807164114332256265917848056083839023238678420704602006751320993253119284 mod p25519" by (rule congI [where q = 30003700846505358424289486359486289811375540775334649234022936541361668109129]) (simp only: nums)
  finally have "2 * curve_d * 46827403850823179245072216630277197565144205554125654976674165829533817101731 mod p25519 = 2 * 25118807164114332256265917848056083839023238678420704602006751320993253119284 mod p25519" using mod_mult_cong [OF refl, of "curve_d * 46827403850823179245072216630277197565144205554125654976674165829533817101731" p25519 25118807164114332256265917848056083839023238678420704602006751320993253119284 2] by (simp only: mult.assoc)
  then show ?thesis by (simp add: ge_Bi_def base_pt_def represents_def fe_bounded_def within_def) (simp add: p25519_def)
qed

lemma base_3_entry: "is_precomp base_3 (ge_Bi ! 1)"
proof -
  have "curve_d * 19133203167024340156157901305709655404499344800967978305064989153409356768282 mod p25519 = 37095705934669439343138083508754565189542113879843219016388785533085940283555 * 19133203167024340156157901305709655404499344800967978305064989153409356768282 mod p25519" by (rule mod_mult_cong [OF curve_d_numeral refl])
  also have "\<dots> = 49337570930033534582006804555963684330932577643508257514580938951849759239227 mod p25519" by (rule congI [where q = 12259208430337008177085539068323082759832216263865490348752660804612845058367]) (simp only: nums)
  finally have "2 * curve_d * 19133203167024340156157901305709655404499344800967978305064989153409356768282 mod p25519 = 2 * 49337570930033534582006804555963684330932577643508257514580938951849759239227 mod p25519" using mod_mult_cong [OF refl, of "curve_d * 19133203167024340156157901305709655404499344800967978305064989153409356768282" p25519 49337570930033534582006804555963684330932577643508257514580938951849759239227 2] by (simp only: mult.assoc)
  then show ?thesis by (simp add: ge_Bi_def base_3_def represents_def fe_bounded_def within_def) (simp add: p25519_def)
qed

lemma base_5_entry: "is_precomp base_5 (ge_Bi ! 2)"
proof -
  have "curve_d * 52631435118507418230927645098360784166288333741771923328027903523704223039952 mod p25519 = 37095705934669439343138083508754565189542113879843219016388785533085940283555 * 52631435118507418230927645098360784166288333741771923328027903523704223039952 mod p25519" by (rule mod_mult_cong [OF curve_d_numeral refl])
  also have "\<dots> = 44251341824321270580667101902235120330641711770877085182550168469761959477561 mod p25519" by (rule congI [where q = 33722515120602681013528550076789858544564685753126019455200427557332062425651]) (simp only: nums)
  finally have "2 * curve_d * 52631435118507418230927645098360784166288333741771923328027903523704223039952 mod p25519 = 2 * 44251341824321270580667101902235120330641711770877085182550168469761959477561 mod p25519" using mod_mult_cong [OF refl, of "curve_d * 52631435118507418230927645098360784166288333741771923328027903523704223039952" p25519 44251341824321270580667101902235120330641711770877085182550168469761959477561 2] by (simp only: mult.assoc)
  then show ?thesis by (simp add: ge_Bi_def base_5_def represents_def fe_bounded_def within_def) (simp add: p25519_def)
qed

lemma base_7_entry: "is_precomp base_7 (ge_Bi ! 3)"
proof -
  have "curve_d * 7969306344939599448108779620249142998159244560978835759187616138611789393179 mod p25519 = 37095705934669439343138083508754565189542113879843219016388785533085940283555 * 7969306344939599448108779620249142998159244560978835759187616138611789393179 mod p25519" by (rule mod_mult_cong [OF curve_d_numeral refl])
  also have "\<dots> = 27732193801536562506966218192763739750421200748428908699953900864601761536465 mod p25519" by (rule congI [where q = 5106169974518488936739269108021320191520259643212607808323365739692946609120]) (simp only: nums)
  finally have "2 * curve_d * 7969306344939599448108779620249142998159244560978835759187616138611789393179 mod p25519 = 2 * 27732193801536562506966218192763739750421200748428908699953900864601761536465 mod p25519" using mod_mult_cong [OF refl, of "curve_d * 7969306344939599448108779620249142998159244560978835759187616138611789393179" p25519 27732193801536562506966218192763739750421200748428908699953900864601761536465 2] by (simp only: mult.assoc)
  then show ?thesis by (simp add: ge_Bi_def base_7_def represents_def fe_bounded_def within_def) (simp add: p25519_def)
qed

lemma base_9_entry: "is_precomp base_9 (ge_Bi ! 4)"
proof -
  have "curve_d * 41812410146810177838232618347187858057822209473536282119740688245908349056101 mod p25519 = 37095705934669439343138083508754565189542113879843219016388785533085940283555 * 41812410146810177838232618347187858057822209473536282119740688245908349056101 mod p25519" by (rule mod_mult_cong [OF curve_d_numeral refl])
  also have "\<dots> = 55126905272541521645097122641714276261664352222461709491450040028139039676292 mod p25519" by (rule congI [where q = 26790446246236314281552970947142418382272207021760564764555301828035649652887]) (simp only: nums)
  finally have "2 * curve_d * 41812410146810177838232618347187858057822209473536282119740688245908349056101 mod p25519 = 2 * 55126905272541521645097122641714276261664352222461709491450040028139039676292 mod p25519" using mod_mult_cong [OF refl, of "curve_d * 41812410146810177838232618347187858057822209473536282119740688245908349056101" p25519 55126905272541521645097122641714276261664352222461709491450040028139039676292 2] by (simp only: mult.assoc)
  then show ?thesis by (simp add: ge_Bi_def base_9_def represents_def fe_bounded_def within_def) (simp add: p25519_def)
qed

lemma base_11_entry: "is_precomp base_11 (ge_Bi ! 5)"
proof -
  have "curve_d * 41115672721981046446137450827132502570366877864937539642265045489017153122004 mod p25519 = 37095705934669439343138083508754565189542113879843219016388785533085940283555 * 41115672721981046446137450827132502570366877864937539642265045489017153122004 mod p25519" by (rule mod_mult_cong [OF curve_d_numeral refl])
  also have "\<dots> = 42918775842614075349281921888029854474516246449989636565809754045710664221931 mod p25519" by (rule congI [where q = 26344025997748199790480865477858351863897473114602320309805299928462612164661]) (simp only: nums)
  finally have "2 * curve_d * 41115672721981046446137450827132502570366877864937539642265045489017153122004 mod p25519 = 2 * 42918775842614075349281921888029854474516246449989636565809754045710664221931 mod p25519" using mod_mult_cong [OF refl, of "curve_d * 41115672721981046446137450827132502570366877864937539642265045489017153122004" p25519 42918775842614075349281921888029854474516246449989636565809754045710664221931 2] by (simp only: mult.assoc)
  then show ?thesis by (simp add: ge_Bi_def base_11_def represents_def fe_bounded_def within_def) (simp add: p25519_def)
qed

lemma base_13_entry: "is_precomp base_13 (ge_Bi ! 6)"
proof -
  have "curve_d * 29471055441072170259805152731682457644447474860555123755684575143128358334291 mod p25519 = 37095705934669439343138083508754565189542113879843219016388785533085940283555 * 29471055441072170259805152731682457644447474860555123755684575143128358334291 mod p25519" by (rule mod_mult_cong [OF curve_d_numeral refl])
  also have "\<dots> = 16618656332106623536697104938175722455349318244093413799134255377463723381180 mod p25519" by (rule congI [where q = 18882975744322826694418413371018246557566640661767253566110425716983965725425]) (simp only: nums)
  finally have "2 * curve_d * 29471055441072170259805152731682457644447474860555123755684575143128358334291 mod p25519 = 2 * 16618656332106623536697104938175722455349318244093413799134255377463723381180 mod p25519" using mod_mult_cong [OF refl, of "curve_d * 29471055441072170259805152731682457644447474860555123755684575143128358334291" p25519 16618656332106623536697104938175722455349318244093413799134255377463723381180 2] by (simp only: mult.assoc)
  then show ?thesis by (simp add: ge_Bi_def base_13_def represents_def fe_bounded_def within_def) (simp add: p25519_def)
qed

lemma base_15_entry: "is_precomp base_15 (ge_Bi ! 7)"
proof -
  have "curve_d * 42609173769455554086108030252596314253679554082059705507322920389417832202025 mod p25519 = 37095705934669439343138083508754565189542113879843219016388785533085940283555 * 42609173769455554086108030252596314253679554082059705507322920389417832202025 mod p25519" by (rule mod_mult_cong [OF curve_d_numeral refl])
  also have "\<dots> = 18344624830172146746946410827115141689072377291186433955588558737858397493899 mod p25519" by (rule congI [where q = 27300956234263538858699649025538323587901218405034803008427648307309084783824]) (simp only: nums)
  finally have "2 * curve_d * 42609173769455554086108030252596314253679554082059705507322920389417832202025 mod p25519 = 2 * 18344624830172146746946410827115141689072377291186433955588558737858397493899 mod p25519" using mod_mult_cong [OF refl, of "curve_d * 42609173769455554086108030252596314253679554082059705507322920389417832202025" p25519 18344624830172146746946410827115141689072377291186433955588558737858397493899 2] by (simp only: mult.assoc)
  then show ?thesis by (simp add: ge_Bi_def base_15_def represents_def fe_bounded_def within_def) (simp add: p25519_def)
qed

lemma base_pt_on_curve: "on_curve base_pt"
proof -
  have X: "15112221349535400772501151409588531511454012693041857206046113283949847762202 * 15112221349535400772501151409588531511454012693041857206046113283949847762202 mod p25519 = 26187595835145689230469591415084376402084551887632582719101735842039498021991 mod p25519" by (rule congI [where q = 3944643120641682540557488748386534817562863454810087094083181913524639656337]) (simp only: nums)
  have Y: "46316835694926478169428394003475163141307993866256225615783033603165251855960 * 46316835694926478169428394003475163141307993866256225615783033603165251855960 mod p25519 = 37053468555941182535542715202780130513046395093004980492626426882532201484768 mod p25519" by (rule congI [where q = 37053468555941182535542715202780130513046395093004980492626426882532201484768]) (simp only: nums)
  have T: "46827403850823179245072216630277197565144205554125654976674165829533817101731 * 46827403850823179245072216630277197565144205554125654976674165829533817101731 mod p25519 = 30655112042971184558329056706696549839726511367961720624960021019854854290862 mod p25519" by (rule congI [where q = 37874880155481576743800675453736195947824682036213940185119870298671986566951]) (simp only: nums)
  have t: "15112221349535400772501151409588531511454012693041857206046113283949847762202 * 46316835694926478169428394003475163141307993866256225615783033603165251855960 mod p25519 = 1 * 46827403850823179245072216630277197565144205554125654976674165829533817101731 mod p25519" by (rule congI [where q = 12089777079628320618000921127670825209163210154433485764836890627159878209761]) (simp only: nums)
  have d: "37095705934669439343138083508754565189542113879843219016388785533085940283555 * 30655112042971184558329056706696549839726511367961720624960021019854854290862 mod p25519 = 10865872720795493305073123787695754110961843205372397773524691040492703462776 mod p25519" by (rule congI [where q = 19641635784112395346641967481223427603076292420967697888635760513231183455066]) (simp only: nums)
  have "curve_d * (46827403850823179245072216630277197565144205554125654976674165829533817101731 * 46827403850823179245072216630277197565144205554125654976674165829533817101731) mod p25519 = 10865872720795493305073123787695754110961843205372397773524691040492703462776 mod p25519"
    using mod_mult_cong [OF curve_d_numeral T] d by (simp only:)
  from mod_add_cong [OF refl this, of "1 * 1"] have "(1 * 1 + curve_d * (46827403850823179245072216630277197565144205554125654976674165829533817101731 * 46827403850823179245072216630277197565144205554125654976674165829533817101731)) mod p25519 = (1 * 1 + 10865872720795493305073123787695754110961843205372397773524691040492703462776) mod p25519" .
  from mod_diff_cong [OF mod_diff_cong [OF Y X] this]
  have "(46316835694926478169428394003475163141307993866256225615783033603165251855960 * 46316835694926478169428394003475163141307993866256225615783033603165251855960 - 15112221349535400772501151409588531511454012693041857206046113283949847762202 * 15112221349535400772501151409588531511454012693041857206046113283949847762202 - (1 * 1 + curve_d * (46827403850823179245072216630277197565144205554125654976674165829533817101731 * 46827403850823179245072216630277197565144205554125654976674165829533817101731))) mod p25519 = (37053468555941182535542715202780130513046395093004980492626426882532201484768 - 26187595835145689230469591415084376402084551887632582719101735842039498021991 - (1 * 1 + 10865872720795493305073123787695754110961843205372397773524691040492703462776)) mod p25519" .
  also have "\<dots> = 0" by (simp add: p25519_def)
  finally show ?thesis using t unfolding base_pt_def on_curve.simps power2_eq_square dvd_eq_mod_eq_0 mod_eq_dvd_iff by blast
qed

section \<open>The table holds the odd multiples\<close>

lemma base_combos:
  "combo A base_pt 0 1 base_pt" "combo A base_pt 0 3 base_3" "combo A base_pt 0 5 base_5" "combo A base_pt 0 7 base_7" "combo A base_pt 0 9 base_9" "combo A base_pt 0 11 base_11" "combo A base_pt 0 13 base_13" "combo A base_pt 0 15 base_15"
proof -
  show b: "combo A base_pt 0 1 base_pt" by (rule combo_right)
  have d: "combo A base_pt 0 2 base_2" using combo_same [OF combo_dbl [OF b] base_2_double] by simp
  have s: "combo A base_pt 0 (n + 2) Q" if "combo A base_pt 0 n P" "same_pt (add_pt P base_2) Q" for n P Q
    using combo_same [OF combo_add [OF that(1) d] that(2)] by simp
  show b3: "combo A base_pt 0 3 base_3" using s [OF b base_3_sum] by simp
  show b5: "combo A base_pt 0 5 base_5" using s [OF b3 base_5_sum] by simp
  show b7: "combo A base_pt 0 7 base_7" using s [OF b5 base_7_sum] by simp
  show b9: "combo A base_pt 0 9 base_9" using s [OF b7 base_9_sum] by simp
  show b11: "combo A base_pt 0 11 base_11" using s [OF b9 base_11_sum] by simp
  show b13: "combo A base_pt 0 13 base_13" using s [OF b11 base_13_sum] by simp
  show b15: "combo A base_pt 0 15 base_15" using s [OF b13 base_15_sum] by simp
qed

lemma ge_Bi_table: "odd_table (precomp_combo A base_pt) 0 1 ge_Bi"
proof -
  have "precomp_combo A base_pt 0 1 (ge_Bi ! 0)" "precomp_combo A base_pt 0 3 (ge_Bi ! 1)" "precomp_combo A base_pt 0 5 (ge_Bi ! 2)" "precomp_combo A base_pt 0 7 (ge_Bi ! 3)" "precomp_combo A base_pt 0 9 (ge_Bi ! 4)" "precomp_combo A base_pt 0 11 (ge_Bi ! 5)" "precomp_combo A base_pt 0 13 (ge_Bi ! 6)" "precomp_combo A base_pt 0 15 (ge_Bi ! 7)"
    unfolding precomp_combo_def using base_combos [of A] base_pt_entry base_3_entry base_5_entry base_7_entry base_9_entry base_11_entry base_13_entry base_15_entry by blast+
  moreover have "length ge_Bi = 8" by (simp add: ge_Bi_def)
  moreover have "k = 0 \<or> k = 1 \<or> k = 2 \<or> k = 3 \<or> k = 4 \<or> k = 5 \<or> k = 6 \<or> k = 7" if "k < 8" for k :: nat
    using that by linarith
  ultimately show ?thesis unfolding odd_table_def by fastforce
qed

section \<open>Properties\<close>

text \<open>
  The precomputed table \<^verbatim>\<open>ge_Bi\<close> is right: its entry $k$ stands for $(2 k + 1) B$ in affine
  coordinates, where $B$ is the Ed25519 base point of the first entry, a point on the curve with
  $5 y = 4$.
\<close>

theorem ge_Bi_correct:
  "odd_table (precomp_combo A base_pt) 0 1 ge_Bi \<and> on_curve base_pt \<and> 5 * fst (snd base_pt) mod p25519 = 4"
proof -
  have "5 * fst (snd base_pt) mod p25519 = 4" by (simp add: base_pt_def p25519_def)
  then show ?thesis using ge_Bi_table base_pt_on_curve by blast
qed

text \<open>
  C30.  \<^verbatim>\<open>ge_double_scalarmult_base_vartime\<close> computes $a A + b B$ for all scalars below $2^{255}$, with the
  table of the source; so does its \<^verbatim>\<open>_p3\<close> variant unless both scalars are zero.
\<close>

theorem ge_double_scalarmult_base_correct:
  assumes "is_p3 A p" "length a = 32" "le_val a < 2 ^ 255" "length b = 32" "le_val b < 2 ^ 255"
  shows "(\<exists>r P. ge_double_scalarmult_base_vartime a p b = Some r \<and> is_p2 P r \<and>
      combo A base_pt (le_val a) (le_val b) P \<and> (on_curve A \<longrightarrow> on_curve P)) \<and>
    (le_val a \<noteq> 0 \<or> le_val b \<noteq> 0 \<longrightarrow> (\<exists>r P. ge_double_scalarmult_base_vartime_p3 r3 a p b = Some r \<and> is_p3 P r \<and>
      combo A base_pt (le_val a) (le_val b) P \<and> (on_curve A \<longrightarrow> on_curve P)))"
proof -
  note s = double_scalarmult_base_spec [OF assms(1) ge_Bi_table assms(2-5)]
  have "dsm_digits a b \<noteq> []" if "le_val a \<noteq> 0 \<or> le_val b \<noteq> 0"
    using that dsm_digits_spec [OF assms(2-5)] by fastforce
  then show ?thesis using s combo_on_curve [of A base_pt] base_pt_on_curve
    unfolding ge_double_scalarmult_base_vartime_def ge_double_scalarmult_base_vartime_p3_def p2_combo_def p3_combo_def
    by blast
qed

theorem ge_double_scalarmult_base_correct_witness:
  "\<exists>r P. ge_double_scalarmult_base_vartime (le_bytes 32 5) ge_p3_0 (le_bytes 32 7) = Some r \<and> is_p2 P r \<and>
     combo pt_0 base_pt 5 7 P \<and> on_curve P"
proof -
  have v: "le_val (le_bytes 32 5) = 5" "le_val (le_bytes 32 7) = 7" by (simp_all add: le_val_le_bytes)
  have b: "(5 :: int) < 2 ^ 255" "(7 :: int) < 2 ^ 255" by simp_all
  show ?thesis
    using ge_double_scalarmult_base_correct [OF ge_0_is(2) length_le_bytes _ length_le_bytes, of 5 7] b on_curve_0
    unfolding v by blast
qed

end
