(* ===== verification/Ge_FromFe.thy ===== *)
theory Ge_FromFe
  imports Ge_Bytes
begin

text \<open>
  \<^verbatim>\<open>ge_fromfe_frombytes_vartime\<close> of \<^verbatim>\<open>src/src/crypto/crypto-ops.c\<close>: the map from 32-byte strings to curve
  points by which key images and commitments are hashed to the curve.  Its assertions, the final
  block under \<^verbatim>\<open>!NDEBUG\<close> included, are \<^const>\<open>None\<close> branches of the model.
\<close>

section \<open>Operations\<close>

definition fe_ma2 :: fe where
  "fe_ma2 = Fe (- 12721188) (- 3529) 0 0 0 0 0 0 0 0"

definition fe_ma :: fe where
  "fe_ma = Fe (- 486662) 0 0 0 0 0 0 0 0 0"

definition fe_fffb1 :: fe where
  "fe_fffb1 = Fe (- 31702527) (- 2466483) (- 26106795) (- 12203692) (- 12169197) (- 321052) 14850977 (- 10296299) (- 16929438) (- 407568)"

definition fe_fffb2 :: fe where
  "fe_fffb2 = Fe 8166131 (- 6741800) (- 17040804) 3154616 21461005 1466302 (- 30876704) (- 6368709) 10503587 (- 13363080)"

definition fe_fffb3 :: fe where
  "fe_fffb3 = Fe (- 13620103) 14639558 4532995 7679154 16815101 (- 15883539) (- 22863840) (- 14813421) 13716513 (- 6477756)"

definition fe_fffb4 :: fe where
  "fe_fffb4 = Fe (- 21786234) (- 12173074) 21573800 4524538 (- 4645904) 16204591 8012863 (- 8444712) 3212926 6885324"

text \<open>
  The part up to the label \<^verbatim>\<open>setsign\<close>: from \<^verbatim>\<open>u\<close>, \<^verbatim>\<open>v\<close>, \<^verbatim>\<open>w\<close> and \<^verbatim>\<open>x\<close> it gives \<^verbatim>\<open>r->X\<close>, \<^verbatim>\<open>z\<close> and the sign.
\<close>

definition fromfe_root :: "fe \<Rightarrow> fe \<Rightarrow> fe \<Rightarrow> fe \<Rightarrow> (fe \<times> fe \<times> int) option" where
  "fromfe_root u v w x =
    (let rX = fe_divpowm1 w x;
         y = fe_sq rX;
         x = fe_mul y x;
         y = fe_sub w x;
         z = fe_copy fe_ma
     in if fe_isnonzero y \<noteq> 0 then
          let y = fe_add w x
          in if fe_isnonzero y \<noteq> 0 then
               let x = fe_mul x fe_sqrtm1;
                   y = fe_sub w x
               in if fe_isnonzero y \<noteq> 0 then
                    let y = fe_add w x
                    in if fe_isnonzero y = 0 then Some (fe_mul rX fe_fffb3, z, 1) else None
                  else Some (fe_mul rX fe_fffb4, z, 1)
             else Some (fe_mul (fe_mul rX fe_fffb1) u, fe_mul z v, 0)
        else Some (fe_mul (fe_mul rX fe_fffb2) u, fe_mul z v, 0))"

text \<open>The last block, which checks the curve equation for $X / Z$ and $Y / Z$.\<close>

definition fromfe_check :: "ge_p2 \<Rightarrow> bool" where
  "fromfe_check r =
    (let check_iz = fe_invert (Z2 r);
         check_x = fe_mul (X2 r) check_iz;
         check_y = fe_mul (Y2 r) check_iz;
         check_x = fe_sq check_x;
         check_y = fe_sq check_y;
         check_v = fe_mul check_x check_y;
         check_v = fe_mul fe_d check_v;
         check_v = fe_add check_v check_x;
         check_v = fe_sub check_v check_y;
         check_x = fe_1;
         check_v = fe_add check_v check_x
     in fe_isnonzero check_v = 0)"

definition ge_fromfe_frombytes_vartime :: "bytes \<Rightarrow> ge_p2 option" where
  "ge_fromfe_frombytes_vartime s =
    (let u = fe_load_carry (fe_load s);
         v = fe_sq2 u;
         w = fe_1;
         w = fe_add v w;
         x = fe_sq w;
         y = fe_mul fe_ma2 v;
         x = fe_add x y
     in do {
       (rX, z, sign) \<leftarrow> fromfe_root u v w x;
       rX \<leftarrow> (if fe_isnegative rX \<noteq> sign
              then if fe_isnonzero rX \<noteq> 0 then Some (fe_neg rX) else None
              else Some rX);
       let rZ = fe_add z w;
           rY = fe_sub z w;
           r = \<lparr>X2 = fe_mul rX rZ, Y2 = rY, Z2 = rZ\<rparr>
       in if fromfe_check r then Some r else None })"

section \<open>The curve equation\<close>

text \<open>
  $A = 486662$ is the coefficient of the Montgomery form of the curve and $i$ the square root of $-1$.
  With $y = (z - w) / (z + w)$ and $x = r$ the curve equation is $z w (A + 2) + r^2 (z^2 + A z w + w^2) = 0$.
\<close>

abbreviation sqrtm1 :: int where
  "sqrtm1 \<equiv> fe_val fe_sqrtm1"

lemma fromfe_bounds:
  "fe_is 110 (- (486662 * 486662)) fe_ma2" "fe_is 110 (- 486662) fe_ma"
  "fe_is 110 (fe_val fe_fffb1) fe_fffb1" "fe_is 110 (fe_val fe_fffb2) fe_fffb2"
  "fe_is 110 (fe_val fe_fffb3) fe_fffb3" "fe_is 110 (fe_val fe_fffb4) fe_fffb4"
  by (simp_all add: represents_def fe_bounded_def within_def fe_ma2_def fe_ma_def fe_fffb1_def fe_fffb2_def
      fe_fffb3_def fe_fffb4_def)

lemma fffb1: "p25519 dvd fe_val fe_fffb1 * fe_val fe_fffb1 + 2 * 486662 * 486664"
proof -
  have v: "fe_val fe_fffb1 = - 703233174040119856926594035342289954908528790615891058923819529064776187391" by (simp add: fe_fffb1_def)
  show ?thesis unfolding v by (rule dvd_certI [where q = "8541807999629177022622485976777824916889076321483502149449674648148155333"]) (simp only: nums)
qed

lemma fffb2: "p25519 dvd fe_val fe_fffb2 * fe_val fe_fffb2 - 2 * 486662 * 486664"
proof -
  have v: "fe_val fe_fffb2 = - 23057146872909699840411355416938605094565363926207269214935344372714976797965" by (simp add: fe_fffb2_def)
  show ?thesis unfolding v by (rule dvd_certI [where q = "9182527501155079853014997979756392388284717163381950860790556154704119286861"]) (simp only: nums)
qed

lemma fffb3: "p25519 dvd fe_val fe_fffb3 * fe_val fe_fffb3 + sqrtm1 * 486662 * 486664"
proof -
  have v: "fe_val fe_fffb3 = - 11176956849434789991742380690798157569828417567795689078005762421825100305287" "sqrtm1 = 19681161376707505956807079304988542015446066515923890162744021073123829784752" by (simp_all add: fe_fffb3_def fe_sqrtm1_def)
  show ?thesis unfolding v by (rule dvd_certI [where q = "2157735735436890667404237773353690192313663208276088634631419752372585196245"]) (simp only: nums)
qed

lemma fffb4: "p25519 dvd fe_val fe_fffb4 * fe_val fe_fffb4 - sqrtm1 * 486662 * 486664"
proof -
  have v: "fe_val fe_fffb4 = 11880190023474909848668974726140447524736946358411580136929581950889876492678" "sqrtm1 = 19681161376707505956807079304988542015446066515923890162744021073123829784752" by (simp_all add: fe_fffb4_def fe_sqrtm1_def)
  show ?thesis unfolding v by (rule dvd_certI [where q = "2437798919140463847614572459512894914287139911575628546838583162303548524852"]) (simp only: nums)
qed

lemma curve_d_montgomery: "p25519 dvd curve_d * 486664 + 486660"
proof -
  have v: "curve_d = - 20800338683988658368647408995589388737092878452977063003340006470870624536394" by (simp add: curve_d_def fe_d_def)
  show ?thesis unfolding v by (rule dvd_certI [where q = "- 174844"]) (simp only: nums)
qed

definition montgomery :: "int \<Rightarrow> int \<Rightarrow> int \<Rightarrow> int" where
  "montgomery r z w = z * w * 486664 + r * r * (z * z + 486662 * z * w + w * w)"

lemma montgomery_on_curve:
  assumes "p25519 dvd montgomery r z w"
  shows "on_curve (r * (z + w), z - w, z + w, r * (z - w))"
proof -
  define G where "G = (z - w) ^ 2 - (r * (z + w)) ^ 2 - ((z + w) ^ 2 + curve_d * (r * (z - w)) ^ 2)"
  have "486664 * G = - 4 * montgomery r z w - (r * (z - w)) ^ 2 * (curve_d * 486664 + 486660)"
    unfolding G_def montgomery_def by algebra
  moreover have "p25519 dvd - 4 * montgomery r z w - (r * (z - w)) ^ 2 * (curve_d * 486664 + 486660)"
    by (intro dvd_diff dvd_mult assms curve_d_montgomery)
  ultimately have "p25519 dvd 486664 * G" by (simp only:)
  moreover have "p25519 dvd 486664 * e - 1" if "e = 9273926483667359835784520877188641297385528469960804754097196383271485070889" for e
    unfolding that by (rule dvd_certI [where q = 77955]) (simp only: nums)
  ultimately obtain e where e: "p25519 dvd 486664 * G" "p25519 dvd 486664 * e - 1" by blast
  have "p25519 dvd e * (486664 * G) - G * (486664 * e - 1)" by (intro dvd_diff dvd_mult e)
  moreover have "e * (486664 * G) - G * (486664 * e - 1) = G" by (simp add: algebra_simps)
  ultimately have "p25519 dvd G" by simp
  moreover have "r * (z + w) * (z - w) - (z + w) * (r * (z - w)) = 0" by algebra
  ultimately show ?thesis by (simp add: G_def)
qed

lemma dvd_two: "(p :: int) dvd a \<Longrightarrow> p dvd b \<Longrightarrow> p dvd - (k * a) + l * b"
  by simp

lemma montgomery_cases:
  fixes u v w x c f :: int
  assumes "v = 2 * (u * u)" "w = v + 1" "x = w * w + - (486662 * 486662) * v"
  shows "p25519 dvd w - c * c * x \<Longrightarrow> p25519 dvd f * f - 2 * 486662 * 486664 \<Longrightarrow> p25519 dvd montgomery (c * f * u) (- 486662 * v) w"
    and "p25519 dvd w + c * c * x \<Longrightarrow> p25519 dvd f * f + 2 * 486662 * 486664 \<Longrightarrow> p25519 dvd montgomery (c * f * u) (- 486662 * v) w"
    and "p25519 dvd w + c * c * x * i \<Longrightarrow> p25519 dvd f * f + i * 486662 * 486664 \<Longrightarrow> p25519 dvd montgomery (c * f) (- 486662) w"
    and "p25519 dvd w - c * c * x * i \<Longrightarrow> p25519 dvd f * f - i * 486662 * 486664 \<Longrightarrow> p25519 dvd montgomery (c * f) (- 486662) w"
proof -
  have m1: "montgomery (c * f * u) (- 486662 * v) w =
      - (486662 * 486664 * v * (w - c * c * x)) + c * c * u * u * x * (f * f - 2 * 486662 * 486664)"
    and m2: "montgomery (c * f * u) (- 486662 * v) w =
      - (486662 * 486664 * v * (w + c * c * x)) + c * c * u * u * x * (f * f + 2 * 486662 * 486664)"
    and m3: "montgomery (c * f) (- 486662) w = - (486662 * 486664 * (w + c * c * x * i)) + c * c * x * (f * f + i * 486662 * 486664)"
    and m4: "montgomery (c * f) (- 486662) w = - (486662 * 486664 * (w - c * c * x * i)) + c * c * x * (f * f - i * 486662 * 486664)"
    unfolding montgomery_def assms by algebra+
  show "p25519 dvd w - c * c * x \<Longrightarrow> p25519 dvd f * f - 2 * 486662 * 486664 \<Longrightarrow> p25519 dvd montgomery (c * f * u) (- 486662 * v) w"
    unfolding m1 by (rule dvd_two)
  show "p25519 dvd w + c * c * x \<Longrightarrow> p25519 dvd f * f + 2 * 486662 * 486664 \<Longrightarrow> p25519 dvd montgomery (c * f * u) (- 486662 * v) w"
    unfolding m2 by (rule dvd_two)
  show "p25519 dvd w + c * c * x * i \<Longrightarrow> p25519 dvd f * f + i * 486662 * 486664 \<Longrightarrow> p25519 dvd montgomery (c * f) (- 486662) w"
    unfolding m3 by (rule dvd_two)
  show "p25519 dvd w - c * c * x * i \<Longrightarrow> p25519 dvd f * f - i * 486662 * 486664 \<Longrightarrow> p25519 dvd montgomery (c * f) (- 486662) w"
    unfolding m4 by (rule dvd_two)
qed

section \<open>The branches\<close>

lemma fromfe_root_sound:
  assumes u: "fe_is 101 U u" and v: "fe_is 101 V v" and w: "fe_is 102 W w" and x: "fe_is 202 X x"
    and e: "V = 2 * (U * U)" "W = V + 1" "X = W * W + - (486662 * 486662) * V"
    and r: "fromfe_root u v w x = Some (rX, z, sign)"
  shows "\<exists>R Z. fe_is 101 R rX \<and> fe_is 110 Z z \<and> p25519 dvd montgomery R Z W"
proof -
  define g where "g = fe_divpowm1 w x"
  obtain c where c: "fe_is 101 c g"
    unfolding g_def using fe_divpowm1_is [OF fe_is_mono [OF w] fe_is_mono [OF x]] by auto
  define h where "h = fe_mul (fe_sq g) x"
  have h: "fe_is 101 (c * c * X) h" unfolding h_def by (rule is_mul [OF is_sq [OF c] x]) simp_all
  define k where "k = fe_mul h fe_sqrtm1"
  have k: "fe_is 101 (c * c * X * sqrtm1) k" unfolding k_def by (rule is_mul [OF h sqrtm1_is]) simp_all
  have n: "fe_isnonzero (fe_sub w f) = (if p25519 dvd W - y then 0 else 1)" "fe_isnonzero (fe_add w f) = (if p25519 dvd W + y then 0 else 1)"
    if "fe_is 101 y f" for y f
    using nonzero_is [OF fe_is_sub [OF w that]] nonzero_is [OF fe_is_add [OF w that]] by simp_all
  have rt: "fromfe_root u v w x =
    (if p25519 dvd W - c * c * X then Some (fe_mul (fe_mul g fe_fffb2) u, fe_mul (fe_copy fe_ma) v, 0)
     else if p25519 dvd W + c * c * X then Some (fe_mul (fe_mul g fe_fffb1) u, fe_mul (fe_copy fe_ma) v, 0)
     else if p25519 dvd W - c * c * X * sqrtm1 then Some (fe_mul g fe_fffb4, fe_copy fe_ma, 1)
     else if p25519 dvd W + c * c * X * sqrtm1 then Some (fe_mul g fe_fffb3, fe_copy fe_ma, 1) else None)"
    unfolding fromfe_root_def Let_def g_def [symmetric] h_def [symmetric] k_def [symmetric] n [OF h] n [OF k] by simp
  note m = montgomery_cases [OF e]
  have z: "fe_is 110 (- 486662) (fe_copy fe_ma)" using fromfe_bounds(2) by simp
  have z': "fe_is 110 (- 486662 * V) (fe_mul (fe_copy fe_ma) v)"
    by (rule fe_is_mono [OF is_mul [OF z v]]) simp_all
  have R: "fe_is 101 (c * y * U) (fe_mul (fe_mul g f) u)" "fe_is 101 (c * y) (fe_mul g f)" if "fe_is 110 y f" for y f
    by (rule is_mul [OF is_mul [OF c that] u] is_mul [OF c that]; simp)+
  consider (p1) "p25519 dvd W - c * c * X" "rX = fe_mul (fe_mul g fe_fffb2) u" "z = fe_mul (fe_copy fe_ma) v"
    | (p2) "p25519 dvd W + c * c * X" "rX = fe_mul (fe_mul g fe_fffb1) u" "z = fe_mul (fe_copy fe_ma) v"
    | (n1) "p25519 dvd W - c * c * X * sqrtm1" "rX = fe_mul g fe_fffb4" "z = fe_copy fe_ma"
    | (n2) "p25519 dvd W + c * c * X * sqrtm1" "rX = fe_mul g fe_fffb3" "z = fe_copy fe_ma"
    using r unfolding rt by (auto split: if_splits)
  then show ?thesis
  proof cases
    case p1
    then show ?thesis using m(1) [OF p1(1) fffb2] R(1) [OF fromfe_bounds(4)] z' by blast
  next
    case p2
    then show ?thesis using m(2) [OF p2(1) fffb1] R(1) [OF fromfe_bounds(3)] z' by blast
  next
    case n1
    then show ?thesis using m(4) [OF n1(1) fffb4] R(2) [OF fromfe_bounds(6)] z by blast
  next
    case n2
    then show ?thesis using m(3) [OF n2(1) fffb3] R(2) [OF fromfe_bounds(5)] z by blast
  qed
qed

section \<open>The map as a whole\<close>

lemma fromfe_inputs:
  assumes "fe_is 101 U u"
  defines "v \<equiv> fe_sq2 u" and "w \<equiv> fe_add (fe_sq2 u) fe_1"
  shows "fe_is 101 (2 * (U * U)) v" "fe_is 102 (2 * (U * U) + 1) w"
    "fe_is 202 ((2 * (U * U) + 1) * (2 * (U * U) + 1) + - (486662 * 486662) * (2 * (U * U))) (fe_add (fe_sq w) (fe_mul fe_ma2 v))"
proof -
  show v: "fe_is 101 (2 * (U * U)) v" unfolding v_def by (rule is_sq2 [OF assms(1)]) simp
  have "fe_is 1 1 fe_1" by (simp add: represents_def)
  from fe_is_add [OF v this] show w: "fe_is 102 (2 * (U * U) + 1) w" by (simp add: w_def v_def)
  have "fe_is 101 ((2 * (U * U) + 1) * (2 * (U * U) + 1)) (fe_sq w)" by (rule is_sq [OF w]) simp
  moreover have "fe_is 101 (- (486662 * 486662) * (2 * (U * U))) (fe_mul fe_ma2 v)" by (rule is_mul [OF fromfe_bounds(1) v]) simp_all
  ultimately show "fe_is 202 ((2 * (U * U) + 1) * (2 * (U * U) + 1) + - (486662 * 486662) * (2 * (U * U))) (fe_add (fe_sq w) (fe_mul fe_ma2 v))"
    using fe_is_add [of 101 _ _ 101] by fastforce
qed

lemma montgomery_neg: "montgomery (- r) z w = montgomery r z w"
  by (simp add: montgomery_def)

text \<open>Limbs of a point \<open>P\<close> as the map returns them: \<^verbatim>\<open>Y\<close> and \<^verbatim>\<open>Z\<close> are sums of two elements.\<close>

fun is_p2_wide :: "ext \<Rightarrow> ge_p2 \<Rightarrow> bool" where
  "is_p2_wide (X, Y, Z, T) p \<longleftrightarrow> fe_is 110 X (X2 p) \<and> fe_is 220 Y (Y2 p) \<and> fe_is 220 Z (Z2 p)"

lemma fromfe_sound:
  assumes "length s = 32" and r: "ge_fromfe_frombytes_vartime s = Some r"
  shows "\<exists>P. is_p2_wide P r \<and> on_curve P"
proof -
  define u where "u = fe_load_carry (fe_load s)"
  define v where "v = fe_sq2 u"
  define w where "w = fe_add v fe_1"
  define x where "x = fe_add (fe_sq w) (fe_mul fe_ma2 v)"
  obtain U where u: "fe_is 101 U u" using fe_load_carry_correct [OF fe_load_value(2) [OF assms(1)]]
    unfolding u_def by (auto simp: represents_def)
  define V where "V = 2 * (U * U)"
  define W where "W = V + 1"
  note i = fromfe_inputs [OF u, folded v_def, folded w_def, folded x_def, folded V_def, folded W_def]
  obtain rX z sign rX' where f: "fromfe_root u v w x = Some (rX, z, sign)" "rX' = rX \<or> rX' = fe_neg rX"
    "r = \<lparr>X2 = fe_mul rX' (fe_add z w), Y2 = fe_sub z w, Z2 = fe_add z w\<rparr>"
    using r unfolding ge_fromfe_frombytes_vartime_def Let_def u_def [symmetric] v_def [symmetric] w_def [symmetric] x_def [symmetric]
    by (auto simp: bind_eq_Some_conv split: if_splits)
  obtain R Z where R: "fe_is 101 R rX" "fe_is 110 Z z" "p25519 dvd montgomery R Z W"
    using fromfe_root_sound [OF u i V_def W_def refl f(1)] by blast
  obtain R' where R': "fe_is 101 R' rX'" "p25519 dvd montgomery R' Z W"
    proof (rule disjE [OF f(2)])
    assume "rX' = rX"
    then show thesis using that R by blast
  next
    assume "rX' = fe_neg rX"
    then show thesis using that [of "- R"] R fe_is_neg [OF R(1)] by (simp add: montgomery_neg)
  qed
  have s: "fe_is 220 (Z + W) (fe_add z w)" "fe_is 220 (Z - W) (fe_sub z w)"
    using fe_is_mono [OF fe_is_add [OF R(2) i(2)], of 220] fe_is_mono [OF fe_is_sub [OF R(2) i(2)], of 220] by simp_all
  have "fe_is 110 (R' * (Z + W)) (fe_mul rX' (fe_add z w))" by (rule fe_is_mono [OF is_mul [OF R'(1) s(1)]]) simp_all
  with s have "is_p2_wide (R' * (Z + W), Z - W, Z + W, R' * (Z - W)) r" by (simp add: f(3))
  then show ?thesis using montgomery_on_curve [OF R'(2)] by blast
qed

lemma ge_mul8_wide: "is_p2_wide P t \<Longrightarrow> is_p1p1 (dbl_c (dbl_pt (dbl_pt P))) (ge_mul8 t)"
proof -
  assume h: "is_p2_wide P t"
  obtain X Y Z T where e: "P = (X, Y, Z, T)" by (metis prod.collapse)
  have "is_p1p1 (dbl_c P) (ge_p2_dbl t)" unfolding e by (rule ge_p2_dbl_wide) (use h in \<open>simp_all add: e\<close>)
  then have "is_p2 (dbl_pt P) (ge_p1p1_to_p2 (ge_p2_dbl t))" unfolding dbl_pt_def by (rule ge_p1p1_is)
  from ge_p2_dbl_is [OF ge_steps(4) [OF this]] show ?thesis unfolding ge_mul8_def Let_def .
qed

lemma check_zero:
  assumes "fe_is 101 0 x" "fe_is 101 1 y"
  shows "fe_isnonzero (fe_add (fe_sub (fe_add (fe_mul fe_d (fe_mul x y)) x) y) fe_1) = 0"
proof -
  have a: "fe_is 101 0 (fe_mul fe_d (fe_mul x y))" using is_mul [OF d_is is_mul [OF assms]] by simp
  have o: "fe_is 1 1 fe_1" by (simp add: represents_def)
  have "fe_is 304 0 (fe_add (fe_sub (fe_add (fe_mul fe_d (fe_mul x y)) x) y) fe_1)"
    using fe_is_add [OF fe_is_sub [OF fe_is_add [OF a assms(1)] assms(2)] o] by simp
  from nonzero_is [OF this] show ?thesis by simp
qed

text \<open>The string of zero bytes: $u = 0$, $w = x = 1$, and the point is $(0, -1)$.\<close>

lemma fromfe_zero: "ge_fromfe_frombytes_vartime (replicate 32 0) \<noteq> None"
proof -
  define u where "u = fe_load_carry (fe_load (replicate 32 0))"
  define v where "v = fe_sq2 u"
  define w where "w = fe_add v fe_1"
  define x where "x = fe_add (fe_sq w) (fe_mul fe_ma2 v)"
  have l: "length (replicate 32 (0 :: byte)) = 32" by simp
  have "le_val (replicate n 0) = 0" for n by (induction n) simp_all
  from this [of 32] have u: "fe_is 101 0 u" using fe_load_carry_correct [OF fe_load_value(2) [OF l]] fe_load_value(1) [OF l]
    unfolding u_def by (simp add: represents_def)
  note i = fromfe_inputs [OF u, folded v_def, folded w_def, folded x_def, simplified]
  define g where "g = fe_divpowm1 w x"
  have g: "fe_is 101 1 g"
    unfolding g_def using fe_divpowm1_is [OF fe_is_mono [OF i(2)] fe_is_mono [OF i(3)]] by simp
  define h where "h = fe_mul (fe_sq g) x"
  have h: "fe_is 101 1 h" unfolding h_def using is_mul [OF is_sq [OF g] i(3)] by simp
  have n: "fe_isnonzero (fe_sub w h) = 0" using nonzero_is [OF fe_is_sub [OF i(2) h]] by simp
  define rX where "rX = fe_mul (fe_mul g fe_fffb2) u"
  define z where "z = fe_mul fe_ma v"
  have rX: "fe_is 101 0 rX" unfolding rX_def using is_mul [OF is_mul [OF g fromfe_bounds(4)] u] by simp
  have z: "fe_is 101 0 z" unfolding z_def using is_mul [OF fromfe_bounds(2) i(1)] by simp
  have rt: "fromfe_root u v w x = Some (rX, z, 0)"
    unfolding fromfe_root_def Let_def g_def [symmetric] h_def [symmetric] n rX_def z_def by simp
  have neg: "fe_isnegative rX = 0" using negative_is [OF rX] by simp
  define r where "r = \<lparr>X2 = fe_mul rX (fe_add z w), Y2 = fe_sub z w, Z2 = fe_add z w\<rparr>"
  have Z: "fe_is 203 1 (fe_add z w)" "fe_is 203 (- 1) (fe_sub z w)" using fe_is_add [OF z i(2)] fe_is_sub [OF z i(2)] by simp_all
  have iz: "fe_is 101 1 (fe_invert (fe_add z w))" using fe_invert_is [OF Z(1)] by simp
  have X: "fe_is 101 0 (fe_mul (fe_mul rX (fe_add z w)) (fe_invert (fe_add z w)))"
    using is_mul [OF is_mul [OF rX Z(1)] iz] by simp
  have Y: "fe_is 101 (- 1) (fe_mul (fe_sub z w) (fe_invert (fe_add z w)))"
    using is_mul [OF Z(2) iz] by simp
  have c: "fromfe_check r"
    unfolding fromfe_check_def Let_def r_def ge_p2.simps
    using check_zero [OF is_sq [OF X, simplified] is_sq [OF Y, simplified]] by simp
  show ?thesis
    unfolding ge_fromfe_frombytes_vartime_def Let_def u_def [symmetric] v_def [symmetric] w_def [symmetric] x_def [symmetric] rt
    using neg c by (simp add: r_def)
qed



end
