(* ===== verification/Int_Util.thy ===== *)
theory Int_Util
  imports Le_Bytes
begin

text \<open>
  \<^verbatim>\<open>src/src/common/int-util.h\<close>: rotations, the 64 by 64 bit multiplication, the division of a 128-bit
  number by a 32-bit one, and byte swapping.  Unsigned integers are words of their width; a division
  by zero and a failed assertion are \<^const>\<open>None\<close>.
\<close>

type_synonym u32 = "32 word"
type_synonym u64 = "64 word"

section \<open>Operations\<close>

text \<open>The masks \<^verbatim>\<open>r & 31\<close> and \<^verbatim>\<open>-r & 31\<close> of an \<^verbatim>\<open>int\<close>.\<close>

definition rol32 :: "u32 \<Rightarrow> int \<Rightarrow> u32" where
  "rol32 x r = push_bit (nat (r AND 31)) x OR drop_bit (nat (- r AND 31)) x"

definition rol64 :: "u64 \<Rightarrow> int \<Rightarrow> u64" where
  "rol64 x r = push_bit (nat (r AND 63)) x OR drop_bit (nat (- r AND 63)) x"

definition hi_dword :: "u64 \<Rightarrow> u64" where
  "hi_dword val = drop_bit 32 val"

definition lo_dword :: "u64 \<Rightarrow> u64" where
  "lo_dword val = val AND 0xFFFFFFFF"

definition mul128 :: "u64 \<Rightarrow> u64 \<Rightarrow> (u64 \<times> u64) option" where
  "mul128 multiplier multiplicand =
    (let a = hi_dword multiplier;
         b = lo_dword multiplier;
         c = hi_dword multiplicand;
         d = lo_dword multiplicand;
         ac = a * c;
         ad = a * d;
         bc = b * c;
         bd = b * d;
         adbc = ad + bc;
         adbc_carry = (if adbc < ad then 1 else 0);
         product_lo = bd + push_bit 32 adbc;
         product_lo_carry = (if product_lo < bd then 1 else 0);
         product_hi = ac + drop_bit 32 adbc + push_bit 32 adbc_carry + product_lo_carry
     in if ac \<le> product_hi then Some (product_lo, product_hi) else None)"

definition div_with_reminder :: "u64 \<Rightarrow> u32 \<Rightarrow> u32 \<Rightarrow> (u64 \<times> u32) option" where
  "div_with_reminder dividend divisor remainder =
    (let dividend = dividend OR push_bit 32 (ucast remainder)
     in if divisor = 0 then None
        else Some (dividend div ucast divisor, ucast (dividend mod ucast divisor)))"

definition div128_32 :: "u64 \<Rightarrow> u64 \<Rightarrow> u32 \<Rightarrow> (u64 \<times> u64 \<times> u32) option" where
  "div128_32 dividend_hi dividend_lo divisor =
    (let d3 = hi_dword dividend_hi;
         d2 = lo_dword dividend_hi;
         d1 = hi_dword dividend_lo;
         d0 = lo_dword dividend_lo
     in case div_with_reminder d3 divisor 0 of None \<Rightarrow> None | Some (q3, r) \<Rightarrow>
        case div_with_reminder d2 divisor r of None \<Rightarrow> None | Some (q2, r) \<Rightarrow>
        case div_with_reminder d1 divisor r of None \<Rightarrow> None | Some (q1, r) \<Rightarrow>
        case div_with_reminder d0 divisor r of None \<Rightarrow> None | Some (q0, r) \<Rightarrow>
        Some (push_bit 32 q3 OR q2, push_bit 32 q1 OR q0, r))"

definition SWAP32 :: "u32 \<Rightarrow> u32" where
  "SWAP32 x = push_bit 24 (x AND 0x000000ff) OR push_bit 8 (x AND 0x0000ff00)
     OR drop_bit 8 (x AND 0x00ff0000) OR drop_bit 24 (x AND 0xff000000)"

definition SWAP64 :: "u64 \<Rightarrow> u64" where
  "SWAP64 x = push_bit 56 (x AND 0x00000000000000ff) OR push_bit 40 (x AND 0x000000000000ff00)
     OR push_bit 24 (x AND 0x0000000000ff0000) OR push_bit 8 (x AND 0x00000000ff000000)
     OR drop_bit 8 (x AND 0x000000ff00000000) OR drop_bit 24 (x AND 0x0000ff0000000000)
     OR drop_bit 40 (x AND 0x00ff000000000000) OR drop_bit 56 (x AND 0xff00000000000000)"

definition swap32 :: "u32 \<Rightarrow> u32" where
  "swap32 x =
    (let x = push_bit 8 (x AND 0x00ff00ff) OR drop_bit 8 (x AND 0xff00ff00)
     in push_bit 16 x OR drop_bit 16 x)"

definition swap64 :: "u64 \<Rightarrow> u64" where
  "swap64 x =
    (let x = push_bit 8 (x AND 0x00ff00ff00ff00ff) OR drop_bit 8 (x AND 0xff00ff00ff00ff00);
         x = push_bit 16 (x AND 0x0000ffff0000ffff) OR drop_bit 16 (x AND 0xffff0000ffff0000)
     in push_bit 32 x OR drop_bit 32 x)"

definition mem_inplace_swap32 :: "u32 list \<Rightarrow> u32 list" where
  "mem_inplace_swap32 mem = map swap32 mem"

definition mem_inplace_swap64 :: "u64 list \<Rightarrow> u64 list" where
  "mem_inplace_swap64 mem = map swap64 mem"

text \<open>The eight bytes of a word in the memory of a little-endian machine.\<close>

definition mem64 :: "u64 \<Rightarrow> bytes" where
  "mem64 x = map (\<lambda>i. ucast (drop_bit (8 * i) x)) [0..<8]"

section \<open>The product\<close>

lemma uint_add_carry: "uint (x + y) = uint x + uint y - (if x + y < x then 2 ^ 64 else 0)" for x y :: u64
proof -
  have "uint x < 2 ^ 64" "uint y < 2 ^ 64" using uint_lt2p [of x] uint_lt2p [of y] by simp_all
  moreover have "uint (x + y) = (if uint x + uint y < 2 ^ 64 then uint x + uint y else uint x + uint y - 2 ^ 64)"
    by (simp add: uint_plus_if')
  ultimately show ?thesis by (auto simp: word_less_alt)
qed

lemma uint_dwords: "uint (hi_dword x) = uint x div 2 ^ 32" "uint (lo_dword x) = uint x mod 2 ^ 32"
  "uint (hi_dword x) < 2 ^ 32" "uint (lo_dword x) < 2 ^ 32" "uint x = uint (hi_dword x) * 2 ^ 32 + uint (lo_dword x)"
proof -
  show h: "uint (hi_dword x) = uint x div 2 ^ 32" unfolding hi_dword_def by (simp only: unsigned_drop_bit_eq) (use uint_lt2p [of x] in \<open>simp add: drop_bit_eq_div take_bit_int_def\<close>)
  have "lo_dword x = take_bit 32 x" by (simp add: lo_dword_def take_bit_eq_mask mask_eq_exp_minus_1)
  then show l: "uint (lo_dword x) = uint x mod 2 ^ 32" by (simp add: unsigned_take_bit_eq take_bit_int_def)
  show "uint (hi_dword x) < 2 ^ 32" using uint_lt2p [of x] unfolding h by simp
  show "uint (lo_dword x) < 2 ^ 32" unfolding l by simp
  show "uint x = uint (hi_dword x) * 2 ^ 32 + uint (lo_dword x)" unfolding h l by simp
qed

lemma uint_mult_small: "uint x < 2 ^ 32 \<Longrightarrow> uint y < 2 ^ 32 \<Longrightarrow> uint (x * y) = uint x * uint y" for x y :: u64
proof -
  assume "uint x < 2 ^ 32" "uint y < 2 ^ 32"
  then have "uint x * uint y < 2 ^ 32 * 2 ^ 32" by (intro mult_strict_mono) simp_all
  then show ?thesis using uint_mult_lem [of x y] by simp
qed

lemma uint_push32: "uint (push_bit 32 x) = uint (lo_dword x) * 2 ^ 32" for x :: u64
proof -
  have "uint (push_bit 32 x) = (uint x * 2 ^ 32) mod (2 ^ 32 * 2 ^ 32)"
    by (simp add: push_bit_eq_mult uint_word_ariths)
  also have "\<dots> = uint (lo_dword x) * 2 ^ 32" by (simp only: mult_mod_left [symmetric] mult_mod_right [symmetric] uint_dwords(2) mod_mult_mult2)
  finally show ?thesis .
qed

lemma mul128_value: "\<exists>lo hi. mul128 x y = Some (lo, hi) \<and> uint hi * 2 ^ 64 + uint lo = uint x * uint y"
proof -
  define a b c d where abcd: "a = hi_dword x" "b = lo_dword x" "c = hi_dword y" "d = lo_dword y"
  note w = uint_dwords(3,4) [of x, folded abcd] uint_dwords(3,4) [of y, folded abcd]
  define s where "s = a * d + b * c"
  define k :: u64 where "k = (if s < a * d then 1 else 0)"
  define lo where "lo = b * d + push_bit 32 s"
  define l :: u64 where "l = (if lo < b * d then 1 else 0)"
  define hi where "hi = a * c + drop_bit 32 s + push_bit 32 k + l"
  have S: "uint s = uint a * uint d + uint b * uint c - uint k * 2 ^ 64"
    using uint_add_carry [of "a * d" "b * c"] w by (simp add: s_def k_def uint_mult_small)
  have L: "uint lo = uint b * uint d + uint (lo_dword s) * 2 ^ 32 - uint l * 2 ^ 64"
    using uint_add_carry [of "b * d" "push_bit 32 s"] w by (simp add: lo_def l_def uint_mult_small uint_push32)
  have K: "uint (push_bit 32 k) = uint k * 2 ^ 32" by (simp add: k_def push_bit_eq_mult)
  have XY: "uint x * uint y = uint a * uint c * 2 ^ 64 + (uint a * uint d + uint b * uint c) * 2 ^ 32 + uint b * uint d"
    unfolding uint_dwords(5) [of x] uint_dwords(5) [of y] abcd by (simp add: algebra_simps)
  define H where "H = uint a * uint c + uint (hi_dword s) + uint k * 2 ^ 32 + uint l"
  have P: "H * 2 ^ 64 + uint lo = uint x * uint y"
    using S L uint_dwords(5) [of s] unfolding XY H_def by (simp add: algebra_simps)
  have "uint x * uint y < 2 ^ 64 * 2 ^ 64" using uint_lt2p [of x] uint_lt2p [of y] by (intro mult_strict_mono) simp_all
  then have "H * 2 ^ 64 < 2 ^ 64 * 2 ^ 64" using P uint_ge_0 [of lo] by linarith
  then have H: "H < 2 ^ 64" by simp
  have H0: "0 \<le> H" by (simp add: H_def)
  have "uint hi = H mod 2 ^ 64"
    by (simp add: hi_def H_def uint_word_ariths uint_mult_small w K hi_dword_def mod_simps)
  then have hi: "uint hi = H" using H H0 by simp
  moreover have "a * c \<le> hi" unfolding word_le_def hi uint_mult_small [OF w(1,3)] by (simp add: H_def)
  ultimately have "mul128 x y = Some (lo, hi)"
    unfolding mul128_def Let_def abcd [symmetric] s_def [symmetric] k_def [symmetric] lo_def [symmetric] l_def [symmetric] hi_def [symmetric]
    by simp
  with P hi show ?thesis by blast
qed

section \<open>The quotient\<close>

lemma uint_or_push32:
  fixes x y :: u64
  assumes "uint y < 2 ^ 32" "uint x < 2 ^ 32"
  shows "uint (push_bit 32 x OR y) = uint x * 2 ^ 32 + uint y"
proof -
  have "lo_dword x = x" using uint_dwords(2) [of x] assms(2) by (simp add: word_uint_eq_iff)
  then have "uint (push_bit 32 x OR y) = uint y OR (uint x * 2 ^ 32)"
    by (simp only: unsigned_or_eq uint_push32) (simp only: or.commute)
  also have "\<dots> = uint y + uint x * 2 ^ 32" by (rule or_shift_add) (use assms in simp_all)
  finally show ?thesis by simp
qed

lemma uint_ucast32: "uint (ucast r :: u64) = uint r" for r :: u32
  using uint_lt2p [of r] by (simp add: unsigned_ucast_eq take_bit_int_eq_self)

lemma div_less_of_less: "n < D * k \<Longrightarrow> 0 < D \<Longrightarrow> n div D < k" for n D k :: int
proof (rule ccontr)
  assume n: "n < D * k" "0 < D" "\<not> n div D < k"
  then have "D * k \<le> D * (n div D)" by (intro mult_left_mono) simp_all
  moreover have "D * (n div D) \<le> n" using mult_div_mod_eq [of D n] pos_mod_sign [OF n(2), of n] by linarith
  ultimately show False using n(1) by linarith
qed

lemma div_with_reminder_value:
  assumes d: "uint d < 2 ^ 32" and r: "uint r < uint D"
  obtains q r' where "div_with_reminder d D r = Some (q, r')" "uint q < 2 ^ 32" "uint r' < uint D"
    "uint r * 2 ^ 32 + uint d = uint q * uint D + uint r'"
proof -
  define n where "n = d OR push_bit 32 (ucast r :: u64)"
  have r32: "uint r < 2 ^ 32" "uint D < 2 ^ 32" using uint_lt2p [of r] uint_lt2p [of D] by simp_all
  have n: "uint n = uint r * 2 ^ 32 + uint d"
    unfolding n_def or.commute [of d] by (subst uint_or_push32) (use d r32 in \<open>simp_all add: uint_ucast32\<close>)
  have D: "0 < uint D" "D \<noteq> 0" using r uint_ge_0 [of r] by (linarith, auto)
  have q: "uint (n div ucast D) = uint n div uint D" "uint (n mod ucast D) = uint n mod uint D"
    by (simp_all only: uint_div_distrib uint_mod_distrib uint_ucast32)
  have "(uint n mod uint D) < 2 ^ 32" using pos_mod_bound [OF D(1), of "uint n"] r32 by linarith
  then have m: "uint (ucast (n mod ucast D) :: u32) = uint n mod uint D"
    using q(2) pos_mod_sign [OF D(1), of "uint n"] by (simp add: unsigned_ucast_eq take_bit_int_eq_self)
  have "uint n < (uint r + 1) * 2 ^ 32" using d n by simp
  also have "\<dots> \<le> uint D * 2 ^ 32" using r by (intro mult_right_mono) simp_all
  finally have "uint n < uint D * 2 ^ 32" .
  then have "uint n div uint D < 2 ^ 32" using D(1) by (rule div_less_of_less)
  then have "uint (n div ucast D) < 2 ^ 32" by (simp only: q)
  moreover have "div_with_reminder d D r = Some (n div ucast D, ucast (n mod ucast D))"
    using D(2) by (simp add: div_with_reminder_def n_def Let_def)
  moreover have "uint (ucast (n mod ucast D) :: u32) < uint D" unfolding m by (rule pos_mod_bound [OF D(1)])
  moreover have "uint r * 2 ^ 32 + uint d = uint (n div ucast D) * uint D + uint (ucast (n mod ucast D) :: u32)"
    unfolding m q n [symmetric] by simp
  ultimately show thesis using that by blast
qed

lemma div128_32_value:
  assumes "divisor \<noteq> 0"
  shows "\<exists>qhi qlo r. div128_32 hi lo divisor = Some (qhi, qlo, r) \<and> uint r < uint divisor \<and>
    uint hi * 2 ^ 64 + uint lo = (uint qhi * 2 ^ 64 + uint qlo) * uint divisor + uint r"
proof -
  have "uint (0 :: u32) < uint divisor" using assms by (simp add: word_neq_0_conv word_less_def)
  with uint_dwords(3) [of hi] obtain q3 r3 where s3: "div_with_reminder (hi_dword hi) divisor 0 = Some (q3, r3)"
    "uint q3 < 2 ^ 32" "uint r3 < uint divisor" "uint (0 :: u32) * 2 ^ 32 + uint (hi_dword hi) = uint q3 * uint divisor + uint r3"
    by (rule div_with_reminder_value)
  from uint_dwords(4) [of hi] s3(3) obtain q2 r2 where s2: "div_with_reminder (lo_dword hi) divisor r3 = Some (q2, r2)"
    "uint q2 < 2 ^ 32" "uint r2 < uint divisor" "uint r3 * 2 ^ 32 + uint (lo_dword hi) = uint q2 * uint divisor + uint r2"
    by (rule div_with_reminder_value)
  from uint_dwords(3) [of lo] s2(3) obtain q1 r1 where s1: "div_with_reminder (hi_dword lo) divisor r2 = Some (q1, r1)"
    "uint q1 < 2 ^ 32" "uint r1 < uint divisor" "uint r2 * 2 ^ 32 + uint (hi_dword lo) = uint q1 * uint divisor + uint r1"
    by (rule div_with_reminder_value)
  from uint_dwords(4) [of lo] s1(3) obtain q0 r0 where s0: "div_with_reminder (lo_dword lo) divisor r1 = Some (q0, r0)"
    "uint q0 < 2 ^ 32" "uint r0 < uint divisor" "uint r1 * 2 ^ 32 + uint (lo_dword lo) = uint q0 * uint divisor + uint r0"
    by (rule div_with_reminder_value)
  have "div128_32 hi lo divisor = Some (push_bit 32 q3 OR q2, push_bit 32 q1 OR q0, r0)"
    by (simp add: div128_32_def Let_def s3(1) s2(1) s1(1) s0(1))
  moreover have "uint hi * 2 ^ 64 + uint lo =
      (uint (push_bit 32 q3 OR q2) * 2 ^ 64 + uint (push_bit 32 q1 OR q0)) * uint divisor + uint r0"
    unfolding uint_or_push32 [OF s2(2) s3(2)] uint_or_push32 [OF s0(2) s1(2)]
      uint_dwords(5) [of hi] uint_dwords(5) [of lo]
    using s3(4) s2(4) s1(4) s0(4) by (simp add: algebra_simps)
  ultimately show ?thesis using s0(3) by blast
qed

section \<open>Byte order\<close>

text \<open>The masks of \<^verbatim>\<open>SWAP64\<close> select one byte each.\<close>

lemma byte_masks:
  "(0x00000000000000ff :: u64) = mask 8" "(0x000000000000ff00 :: u64) = push_bit 8 (mask 8)"
  "(0x0000000000ff0000 :: u64) = push_bit 16 (mask 8)" "(0x00000000ff000000 :: u64) = push_bit 24 (mask 8)"
  "(0x000000ff00000000 :: u64) = push_bit 32 (mask 8)" "(0x0000ff0000000000 :: u64) = push_bit 40 (mask 8)"
  "(0x00ff000000000000 :: u64) = push_bit 48 (mask 8)" "(0xff00000000000000 :: u64) = push_bit 56 (mask 8)"
  by (simp_all add: mask_eq_exp_minus_1)

lemma less_8_cases:
  fixes k :: nat
  assumes "k < 8"
  obtains "k = 0" | "k = 1" | "k = 2" | "k = 3" | "k = 4" | "k = 5" | "k = 6" | "k = 7"
  using assms by linarith

lemma bit_SWAP64: 
  assumes "k < 8" "j < 8" 
  shows "bit (SWAP64 x) (8 * k + j) \<longleftrightarrow> bit x (8 * (7 - k) + j)"
  using assms unfolding SWAP64_def byte_masks by (cases k rule: less_8_cases) (simp_all add: bit_simps add.commute)

lemma length_mem64 [simp]: "length (mem64 x) = 8"
  by (simp add: mem64_def)

lemma mem64_SWAP64: "mem64 (SWAP64 x) = rev (mem64 x)"
proof (rule nth_equalityI)
  fix i assume "i < length (mem64 (SWAP64 x))"
  then have i: "i < 8" by (simp add: mem64_def)
  have "(ucast (drop_bit (8 * i) (SWAP64 x)) :: byte) = ucast (drop_bit (8 * (7 - i)) x)"
    by (rule bit_word_eqI) (use i in \<open>simp add: bit_simps bit_SWAP64\<close>)
  then show "mem64 (SWAP64 x) ! i = rev (mem64 x) ! i" using i by (simp add: mem64_def rev_nth rev_map)
qed (simp add: mem64_def)

lemma mem64_value: "le_val (mem64 x) = uint x"
proof -
  have "mem64 x = le_bytes 8 (uint x)"
    unfolding mem64_def le_bytes_def
  proof (intro map_cong refl word_uint_eqI)
    fix i
    have "uint (drop_bit (8 * i) x) = uint x div 256 ^ i"
      by (simp only: unsigned_drop_bit_eq) (use uint_lt2p [of x] in \<open>simp add: drop_bit_eq_div take_bit_int_def power_mult\<close>)
    then show "uint (ucast (drop_bit (8 * i) x) :: byte) = uint (word_of_int (uint x div 256 ^ i) :: byte)"
      by (simp add: unsigned_ucast_eq uint_word_of_int take_bit_int_def del: drop_bit_eq_div)
  qed
  then show ?thesis using uint_lt2p [of x] by (simp add: le_val_le_bytes)
qed

section \<open>Wide arithmetic\<close>

text \<open>
  C25.  \<^verbatim>\<open>mul128\<close> computes the full 128-bit product of two 64-bit numbers and never trips its assertion;
  \<^verbatim>\<open>div128_32\<close> is the Euclidean division of a 128-bit number by a 32-bit one, for every divisor but
  zero.
\<close>

theorem wide_arithmetic_correct:
  assumes "divisor \<noteq> 0"
  shows "(\<exists>lo hi. mul128 x y = Some (lo, hi) \<and> uint hi * 2 ^ 64 + uint lo = uint x * uint y) \<and>
    (\<exists>qhi qlo r. div128_32 hi lo divisor = Some (qhi, qlo, r) \<and>
      uint qhi * 2 ^ 64 + uint qlo = (uint hi * 2 ^ 64 + uint lo) div uint divisor \<and>
      uint r = (uint hi * 2 ^ 64 + uint lo) mod uint divisor)"
proof -
  obtain qhi qlo r where q: "div128_32 hi lo divisor = Some (qhi, qlo, r)" "uint r < uint divisor"
    "uint hi * 2 ^ 64 + uint lo = (uint qhi * 2 ^ 64 + uint qlo) * uint divisor + uint r"
    using div128_32_value [OF assms] by blast
  have d: "uint divisor \<noteq> 0" using q(2) uint_ge_0 [of r] by linarith
  have "uint qhi * 2 ^ 64 + uint qlo = (uint hi * 2 ^ 64 + uint lo) div uint divisor"
    "uint r = (uint hi * 2 ^ 64 + uint lo) mod uint divisor"
    using q(2) d unfolding q(3) by (simp_all add: div_add1_eq)
  with q(1) mul128_value show ?thesis by blast
qed

theorem wide_arithmetic_correct_witness:
  "\<exists>lo hi. mul128 (- 1) (- 1) = Some (lo, hi) \<and> uint hi * 2 ^ 64 + uint lo = (2 ^ 64 - 1) * (2 ^ 64 - 1)"
proof -
  have u: "uint (- 1 :: u64) = 2 ^ 64 - 1" by (simp add: unsigned_minus_1_eq_mask mask_eq_exp_minus_1)
  from wide_arithmetic_correct [OF one_neq_zero, of "- 1" "- 1" 0 0] show ?thesis unfolding u by blast
qed

end
