(* ===== verification/Varint.thy ===== *)
theory Varint
  imports Le_Bytes
begin

text \<open>
  \<^verbatim>\<open>src/src/common/varint.h\<close>: variable-length integers, seven bits to a byte.  The reader is the
  template at \<^verbatim>\<open>bits\<close> bits for a 64-bit \<^verbatim>\<open>T\<close>; the loop variable \<^verbatim>\<open>shift\<close> is a natural number, and the
  bound on the shift at which the loop has ended is part of the results below.
\<close>

section \<open>Operations\<close>

function write_varint :: "64 word \<Rightarrow> bytes" where
  "write_varint i =
    (if i \<ge> 0x80 then ((ucast i AND 0x7f) OR 0x80) # write_varint (drop_bit 7 i)
     else [ucast i])"
  by auto
termination
proof (relation "measure unat")
  fix i :: "64 word"
  assume i: "0x80 \<le> i"
  then have "128 \<le> unat i" by (simp add: word_le_nat_alt)
  moreover have "unat (drop_bit 7 i) = unat i div 128"
    by (simp only: unat_drop_bit_eq) (simp add: drop_bit_eq_div)
  ultimately show "(drop_bit 7 i, i) \<in> measure unat" by simp
qed simp

declare write_varint.simps [simp del]

datatype varint_result =
    Read nat "64 word" bytes
  | EVARINT_OVERFLOW
  | EVARINT_REPRESENT

text \<open>\<open>Read n v rest\<close>: \<^verbatim>\<open>n\<close> bytes were read, the value is \<^verbatim>\<open>v\<close>, and \<open>rest\<close> is what follows.\<close>

fun read_loop :: "nat \<Rightarrow> nat \<Rightarrow> nat \<Rightarrow> 64 word \<Rightarrow> bytes \<Rightarrow> varint_result" where
  "read_loop bits shift read w [] = Read read w []"
| "read_loop bits shift read w (byte # rest) =
    (if shift + 7 \<ge> bits \<and> uint byte \<ge> 2 ^ (bits - shift) then EVARINT_OVERFLOW
     else if byte = 0 \<and> shift \<noteq> 0 then EVARINT_REPRESENT
     else let w = w OR push_bit shift (ucast (byte AND 0x7f))
          in if byte AND 0x80 = 0 then Read (read + 1) w rest
             else read_loop bits (shift + 7) (read + 1) w rest)"

definition read_varint :: "nat \<Rightarrow> bytes \<Rightarrow> varint_result" where
  "read_varint bits s = read_loop bits 0 0 0 s"

section \<open>Seven bits at a time\<close>

lemma low_high:
  fixes i :: "64 word"
  shows "push_bit s (take_bit 7 i) OR push_bit (s + 7) (drop_bit 7 i) = push_bit s i"
proof (rule bit_word_eqI)
  fix n assume "n < LENGTH(64)"
  then show "bit (push_bit s (take_bit 7 i) OR push_bit (s + 7) (drop_bit 7 i)) n \<longleftrightarrow> bit (push_bit s i) n"
    by (cases "n < s"; cases "n < s + 7") (auto simp: bit_simps not_less)
qed

lemma unat_drop7: "unat (drop_bit 7 i) = unat i div 128" for i :: "64 word"
  by (simp only: unat_drop_bit_eq) (simp add: drop_bit_eq_div)

lemma seven_bits: "(ucast ((ucast (i :: 64 word) AND 0x7f :: byte)) :: 64 word) = take_bit 7 i"
proof -
  have "(ucast i AND 0x7f :: byte) = take_bit 7 (ucast i)" by (simp add: take_bit_eq_mask mask_eq_exp_minus_1)
  then show ?thesis by (auto intro!: bit_word_eqI simp: bit_simps)
qed

lemma msb_set:
  fixes b :: byte
  shows "((b AND 0x7f) OR 0x80) AND 0x80 \<noteq> 0" "(b AND 0x7f) OR 0x80 \<noteq> 0" "((b AND 0x7f) OR 0x80) AND 0x7f = b AND 0x7f"
proof -
  have m: "(0x7f :: byte) = mask 7" "(0x80 :: byte) = push_bit 7 1" by (simp_all add: mask_eq_exp_minus_1)
  have "bit (((b AND 0x7f) OR 0x80) AND 0x80) 7" "bit ((b AND 0x7f) OR 0x80) 7" unfolding m by (simp_all add: bit_simps)
  then show "((b AND 0x7f) OR 0x80) AND 0x80 \<noteq> 0" "(b AND 0x7f) OR 0x80 \<noteq> 0" by fastforce+
  show "((b AND 0x7f) OR 0x80) AND 0x7f = b AND 0x7f"
  proof -
    have "x AND 0x7f = take_bit 7 x" for x :: byte by (simp add: take_bit_eq_mask m(1))
    then show ?thesis by (simp add: take_bit_or)
  qed
qed

lemma msb_clear: "b AND 0x80 = 0 \<longleftrightarrow> uint b < 128" for b :: byte
proof -
  have "b AND 0x80 = 0 \<longleftrightarrow> \<not> bit b 7" using and_exp_eq_0_iff_not_bit [of b 7] by simp
  moreover have "bit (uint b) 7 \<longleftrightarrow> bit b 7" by (simp add: bit_uint_iff)
  moreover have "bit (uint b) 7 \<longleftrightarrow> odd (uint b div 128)" by (simp add: bit_iff_odd)
  moreover have "0 \<le> uint b" "uint b < 256" using uint_byte by simp_all
  ultimately show ?thesis by presburger
qed

lemma low_byte:
  fixes i :: "64 word"
  assumes "unat i < 128"
  shows "(ucast i :: byte) AND 0x80 = 0" "(ucast i :: byte) = 0 \<longleftrightarrow> i = 0" "(ucast ((ucast i :: byte) AND 0x7f) :: 64 word) = i"
    "uint (ucast i :: byte) = uint i"
proof -
  have i: "uint i < 128" using assms by (simp only: uint_nat)
  then show u: "uint (ucast i :: byte) = uint i" by (simp add: unsigned_ucast_eq take_bit_int_eq_self)
  show "(ucast i :: byte) AND 0x80 = 0" using i by (simp add: msb_clear u)
  show "(ucast i :: byte) = 0 \<longleftrightarrow> i = 0" using u by (metis unsigned_0 word_uint_eqI)
  have "take_bit 7 i = i" using i by (simp add: word_uint_eq_iff unsigned_take_bit_eq take_bit_int_eq_self)
  then show "(ucast ((ucast i :: byte) AND 0x7f) :: 64 word) = i" by (simp add: seven_bits)
qed

section \<open>Reading what was written\<close>

lemma read_written:
  assumes "unat i < 2 ^ (64 - 7 * k)" "7 * k < 64" "i \<noteq> 0 \<or> k = 0"
  shows "read_loop 64 (7 * k) n w (write_varint i @ rest) =
    Read (n + length (write_varint i)) (w OR push_bit (7 * k) i) rest"
  using assms
proof (induction i arbitrary: k n w rule: write_varint.induct)
  case (1 i)
  show ?case
  proof (cases "0x80 \<le> i")
    case True
    then have i: "2 ^ 7 \<le> unat i" by (simp add: word_le_nat_alt)
    with "1.prems"(1) have "(2 :: nat) ^ 7 < 2 ^ (64 - 7 * k)" by linarith
    then have k: "7 * k + 7 < 64" by (simp only: power_strict_increasing_iff one_less_numeral_iff semiring_norm)
    have e: "64 - 7 * k = 7 + (64 - 7 * (k + 1))" using k by simp
    have "unat (drop_bit 7 i) < 2 ^ (64 - 7 * (k + 1))" using "1.prems"(1) unfolding e unat_drop7
      by (simp add: power_add div_less_iff_less_mult mult.commute)
    moreover have "drop_bit 7 i \<noteq> 0" using i unat_drop7 [of i] by auto
    ultimately show ?thesis
      using "1.IH" [OF True, of "k + 1" "n + 1"] k True msb_set [of "ucast i"] low_high [of "7 * k" i]
      by (subst (1 2) write_varint.simps) (simp add: seven_bits or.assoc add.commute)
  next
    case False
    then have i: "unat i < 128" by (simp add: word_le_nat_alt)
    note b = low_byte [OF i]
    have "int (unat i) < int (2 ^ (64 - 7 * k))" using "1.prems"(1) by (simp only: of_nat_less_iff)
    then have "uint i < 2 ^ (64 - 7 * k)" by (simp only: uint_nat of_nat_power of_nat_numeral)
    then show ?thesis using False "1.prems"(2,3) b by (simp add: write_varint.simps [of i])
  qed
qed

section \<open>Writing what was read\<close>

definition join7 :: "byte \<Rightarrow> 64 word \<Rightarrow> 64 word" where
  "join7 b i = ucast (b AND 0x7f) OR push_bit 7 i"

lemma bit_low7: "bit (b AND 0x7f :: byte) n \<longleftrightarrow> n < 7 \<and> bit b n"
proof -
  have "b AND 0x7f = take_bit 7 b" by (simp add: take_bit_eq_mask mask_eq_exp_minus_1)
  then show ?thesis by (simp add: bit_simps)
qed

lemma bit_join7: "bit (join7 b i) n \<longleftrightarrow> (if n < 7 then bit b n else n < 64 \<and> bit i (n - 7))"
  unfolding join7_def by (auto simp: bit_or_iff bit_ucast_iff bit_low7 bit_push_bit_iff)

lemma join7_parts:
  assumes "unat i < 2 ^ 57" "i \<noteq> 0" "b AND 0x80 \<noteq> 0"
  shows "drop_bit 7 (join7 b i) = i" "(ucast (join7 b i) AND 0x7f) OR 0x80 = b" "0x80 \<le> join7 b i"
    "push_bit s (join7 b i) = push_bit s (ucast (b AND 0x7f)) OR push_bit (s + 7) i"
proof -
  have "unat (take_bit 57 i) = unat i" using assms(1) by (simp only: unsigned_take_bit_eq take_bit_nat_eq_self)
  then have i: "take_bit 57 i = i" by (simp only: unsigned_word_eqI)
  show d: "drop_bit 7 (join7 b i) = i"
  proof (rule bit_word_eqI)
    fix n assume "n < LENGTH(64)"
    have "bit i n \<longleftrightarrow> n < 57 \<and> bit i n" by (subst (1) i [symmetric]) (simp add: bit_simps)
    then show "bit (drop_bit 7 (join7 b i)) n \<longleftrightarrow> bit i n" by (auto simp: bit_simps bit_join7)
  qed
  show "(ucast (join7 b i) AND 0x7f) OR 0x80 = b"
  proof (rule bit_word_eqI)
    fix n assume n: "n < LENGTH(8)"
    have "bit b 7" using assms(3) and_exp_eq_0_iff_not_bit [of b 7] by simp
    moreover have "bit (0x80 :: byte) n \<longleftrightarrow> n = 7" using n bit_exp_iff [of 7 n, where 'a = "8 word"] by auto
    ultimately show "bit ((ucast (join7 b i) AND 0x7f) OR 0x80 :: byte) n \<longleftrightarrow> bit b n"
      using n by (auto simp: bit_or_iff bit_low7 bit_ucast_iff bit_join7)
  qed
  have "unat i \<noteq> 0" using assms(2) by (simp add: unat_eq_zero)
  then have "unat (join7 b i) div 128 \<noteq> 0" using unat_drop7 [of "join7 b i"] unfolding d by simp
  then show "0x80 \<le> join7 b i" by (simp add: word_le_nat_alt)
  show "push_bit s (join7 b i) = push_bit s (ucast (b AND 0x7f)) OR push_bit (s + 7) i"
    by (simp add: join7_def push_bit_or)
qed

definition written :: "nat \<Rightarrow> bytes \<Rightarrow> nat \<Rightarrow> 64 word \<Rightarrow> bytes \<Rightarrow> bool" where
  "written k s m i rest \<longleftrightarrow> s = write_varint i @ rest \<and> m = length (write_varint i) \<and> unat i < 2 ^ (64 - 7 * k) \<and> (i \<noteq> 0 \<or> k = 0)"

lemma written_last:
  assumes "b AND 0x80 = 0" "7 * k + 7 \<ge> 64 \<longrightarrow> uint b < 2 ^ (64 - 7 * k)" "b = 0 \<longrightarrow> k = 0"
  shows "written k (b # rest) 1 (ucast b) rest"
proof -
  have u: "uint b < 128" using assms(1) by (simp only: msb_clear)
  have e: "uint (ucast b :: 64 word) = uint b" using uint_byte(2) [of b] by (simp add: unsigned_ucast_eq take_bit_int_eq_self)
  have "int (unat (ucast b :: 64 word)) < int 128" using u by (simp only: uint_nat [symmetric] e of_nat_numeral)
  then have n: "unat (ucast b :: 64 word) < 128" by (simp only: of_nat_less_iff)
  have "\<not> 0x80 \<le> (ucast b :: 64 word)" using n by (simp add: word_le_nat_alt)
  moreover have "ucast (ucast b :: 64 word) = b" by (rule word_uint_eqI) (use e uint_byte(2) [of b] in \<open>simp add: unsigned_ucast_eq [of "ucast b"] take_bit_int_eq_self\<close>)
  ultimately have "write_varint (ucast b) = [b]" by (simp add: write_varint.simps)
  moreover have "uint b < 2 ^ (64 - 7 * k)"
  proof (cases "7 * k + 7 \<ge> 64")
    case False
    then have "(2 :: int) ^ 7 \<le> 2 ^ (64 - 7 * k)" by (intro power_increasing) simp_all
    then show ?thesis using u by simp
  qed (use assms(2) in simp)
  then have "int (unat (ucast b :: 64 word)) < int (2 ^ (64 - 7 * k))" by (simp only: uint_nat [symmetric] e of_nat_power of_nat_numeral)
  then have "unat (ucast b :: 64 word) < 2 ^ (64 - 7 * k)" by (simp only: of_nat_less_iff)
  moreover have "(ucast b :: 64 word) = 0 \<longleftrightarrow> b = 0" using e by (metis unsigned_0 word_uint_eqI)
  ultimately show ?thesis using assms(3) by (auto simp: written_def)
qed

lemma written_step:
  assumes "b AND 0x80 \<noteq> 0" "written (Suc k) s m i rest" "7 * k + 7 < 64"
  shows "written k (b # s) (Suc m) (join7 b i) rest"
proof -
  have i: "unat i < 2 ^ (64 - 7 * Suc k)" "i \<noteq> 0" using assms(2) by (auto simp: written_def)
  have "(2 :: nat) ^ (64 - 7 * Suc k) \<le> 2 ^ 57" by (rule power_increasing) simp_all
  with i have "unat i < 2 ^ 57" by linarith
  note j = join7_parts [OF this i(2) assms(1)]
  have "write_varint (join7 b i) = b # write_varint i" using j by (simp add: write_varint.simps [of "join7 b i"])
  moreover have "unat (join7 b i) < 2 ^ (64 - 7 * k)"
  proof -
    have e: "64 - 7 * k = (64 - 7 * Suc k) + 7" using assms(3) by simp
    have "unat (join7 b i) div 128 < 2 ^ (64 - 7 * Suc k)" using i(1) unat_drop7 [of "join7 b i"] by (simp only: j(1))
    then show ?thesis unfolding e power_add by (simp add: div_less_iff_less_mult)
  qed
  moreover have "join7 b i \<noteq> 0" using j(3) by auto
  ultimately show ?thesis using assms(2) by (simp add: written_def)
qed

definition unfinished :: "bytes \<Rightarrow> bool" where
  "unfinished s \<longleftrightarrow> list_all (\<lambda>b. b AND 0x80 \<noteq> 0) s"

lemma read_sound:
  assumes "read_loop 64 (7 * k) n w s = Read n' v rest" "7 * k < 64"
  shows "(\<exists>m i. written k s m i rest \<and> n' = n + m \<and> v = w OR push_bit (7 * k) i) \<or>
    (rest = [] \<and> n' = n + length s \<and> unfinished s)"
  using assms
proof (induction s arbitrary: k n w)
  case (Cons b s)
  define w' where "w' = w OR push_bit (7 * k) (ucast (b AND 0x7f))"
  have o: "7 * k + 7 \<ge> 64 \<longrightarrow> uint b < 2 ^ (64 - 7 * k)" "b = 0 \<longrightarrow> k = 0"
    using Cons.prems(1) by (auto split: if_splits)
  show ?case
  proof (cases "b AND 0x80 = 0")
    case True
    then have r: "n' = n + 1" "v = w'" "rest = s" using Cons.prems(1) by (auto simp: w'_def Let_def split: if_splits)
    have "(ucast (b AND 0x7f) :: 64 word) = ucast b"
    proof -
      have "b AND 0x7f = take_bit 7 b" by (simp add: take_bit_eq_mask mask_eq_exp_minus_1)
      also have "\<dots> = b" using True [unfolded msb_clear] by (simp add: word_uint_eq_iff unsigned_take_bit_eq take_bit_int_eq_self)
      finally show ?thesis by simp
    qed
    then show ?thesis using written_last [OF True o] r by (auto simp: w'_def)
  next
    case False
    have k: "7 * k + 7 < 64"
    proof (rule ccontr)
      assume "\<not> 7 * k + 7 < 64"
      then have "64 - 7 * k \<le> 7" and "uint b < 2 ^ (64 - 7 * k)" using o by auto
      moreover from this have "(2 :: int) ^ (64 - 7 * k) \<le> 2 ^ 7" by (intro power_increasing) simp_all
      ultimately show False using False by (simp add: msb_clear)
    qed
    have "read_loop 64 (7 * Suc k) (n + 1) w' s = Read n' v rest"
      using Cons.prems(1) False by (auto simp: w'_def Let_def add.commute split: if_splits)
    from Cons.IH [OF this] k have "(\<exists>m i. written (Suc k) s m i rest \<and> n' = n + 1 + m \<and> v = w' OR push_bit (7 * Suc k) i) \<or>
      (rest = [] \<and> n' = n + 1 + length s \<and> unfinished s)" by simp
    then show ?thesis
    proof
      assume "\<exists>m i. written (Suc k) s m i rest \<and> n' = n + 1 + m \<and> v = w' OR push_bit (7 * Suc k) i"
      then obtain m i where i: "written (Suc k) s m i rest" "n' = n + 1 + m" "v = w' OR push_bit (7 * Suc k) i" by blast
      have "v = w OR push_bit (7 * k) (join7 b i)" using i(3) by (simp add: w'_def join7_def push_bit_or or.assoc add.commute)
      with written_step [OF False i(1) k] i(2) show ?thesis by fastforce
    next
      assume "rest = [] \<and> n' = n + 1 + length s \<and> unfinished s"
      then show ?thesis using False by (auto simp: unfinished_def)
    qed
  qed
qed (simp add: unfinished_def)

lemma write_varint_length:
  assumes "unat i < 2 ^ (7 * n)" "0 < n"
  shows "0 < length (write_varint i) \<and> length (write_varint i) \<le> n"
  using assms
proof (induction i arbitrary: n rule: write_varint.induct)
  case (1 i)
  show ?case
  proof (cases "0x80 \<le> i")
    case True
    then have i: "2 ^ 7 \<le> unat i" by (simp add: word_le_nat_alt)
    with "1.prems"(1) have "(2 :: nat) ^ 7 < 2 ^ (7 * n)" by linarith
    then have "7 < 7 * n" by (simp only: power_strict_increasing_iff one_less_numeral_iff semiring_norm)
    then obtain m where m: "n = Suc m" "0 < m" by (cases n) auto
    have "unat (drop_bit 7 i) < 2 ^ (7 * m)" using "1.prems"(1) unfolding m(1) unat_drop7
      by (simp add: power_add div_less_iff_less_mult mult.commute)
    with "1.IH" [OF True this m(2)] show ?thesis using True m(1) by (simp add: write_varint.simps [of i])
  next
    case False
    then show ?thesis using "1.prems"(2) by (simp add: write_varint.simps [of i])
  qed
qed

lemma unat_64: "unat i < 2 ^ 64" for i :: "64 word"
  using unsigned_less [of i, where 'a = nat] by simp

lemma read_back:
  "read_varint 64 (write_varint i @ rest) = Read (length (write_varint i)) i rest"
  "0 < length (write_varint i)" "length (write_varint i) \<le> 10"
proof -
  show "read_varint 64 (write_varint i @ rest) = Read (length (write_varint i)) i rest"
    using read_written [of i 0] unat_64 [of i] by (simp add: read_varint_def)
  have "unat i < 2 ^ (7 * 10)" using unat_64 [of i] by simp
  from write_varint_length [OF this] show "0 < length (write_varint i)" "length (write_varint i) \<le> 10" by simp_all
qed

lemma read_inverse:
  assumes "read_varint 64 s = Read n v t"
  shows "s = write_varint v @ t \<and> n = length (write_varint v) \<or> t = [] \<and> n = length s \<and> unfinished s"
  using read_sound [of 0 0 0 s n v t] assms by (auto simp: read_varint_def written_def)

section \<open>The properties\<close>



end
