(* ===== verification/Keccak.thy ===== *)
theory Keccak
  imports Int_Util
begin

text \<open>
  \<^verbatim>\<open>src/src/crypto/keccak.c\<close> and \<^verbatim>\<open>src/src/crypto/hash.c\<close>: the permutation, the sponge and \<^verbatim>\<open>cn_fast_hash\<close>.
  The state \<^verbatim>\<open>uint64_t st[25]\<close> is a list of 25 words, updated in place.  The permutation is compared
  with the step mappings of FIPS 202, the sponge with the absorption of the padded message.
\<close>

section \<open>The permutation\<close>

definition ROTL64 :: "u64 \<Rightarrow> nat \<Rightarrow> u64" where
  "ROTL64 x y = push_bit y x OR drop_bit (64 - y) x"

definition keccakf_rndc :: "u64 list" where
  "keccakf_rndc =
    [0x0000000000000001, 0x0000000000008082, 0x800000000000808a,
     0x8000000080008000, 0x000000000000808b, 0x0000000080000001,
     0x8000000080008081, 0x8000000000008009, 0x000000000000008a,
     0x0000000000000088, 0x0000000080008009, 0x000000008000000a,
     0x000000008000808b, 0x800000000000008b, 0x8000000000008089,
     0x8000000000008003, 0x8000000000008002, 0x8000000000000080,
     0x000000000000800a, 0x800000008000000a, 0x8000000080008081,
     0x8000000000008080, 0x0000000080000001, 0x8000000080008008]"

definition keccakf_rotc :: "nat list" where
  "keccakf_rotc =
    [1,  3,  6,  10, 15, 21, 28, 36, 45, 55, 2,  14,
     27, 41, 56, 8,  25, 43, 62, 18, 39, 61, 20, 44]"

definition keccakf_piln :: "nat list" where
  "keccakf_piln =
    [10, 7,  11, 17, 18, 3, 5,  16, 8,  21, 24, 4,
     15, 23, 19, 13, 12, 2, 20, 14, 22, 9,  6,  1]"

definition theta :: "u64 list \<Rightarrow> u64 list" where
  "theta st =
    (let bc = map (\<lambda>i. st ! i XOR st ! (i + 5) XOR st ! (i + 10) XOR st ! (i + 15) XOR st ! (i + 20)) [0..<5]
     in fold (\<lambda>i st. let t = bc ! ((i + 4) mod 5) XOR ROTL64 (bc ! ((i + 1) mod 5)) 1
                     in fold (\<lambda>j st. st[j + i := st ! (j + i) XOR t]) [0, 5, 10, 15, 20] st)
          [0..<5] st)"

definition rho_pi :: "u64 list \<Rightarrow> u64 list" where
  "rho_pi st =
    snd (fold (\<lambda>i (t, st). let j = keccakf_piln ! i; bc0 = st ! j in (bc0, st[j := ROTL64 t (keccakf_rotc ! i)]))
          [0..<24] (st ! 1, st))"

definition chi :: "u64 list \<Rightarrow> u64 list" where
  "chi st =
    fold (\<lambda>j st. let bc = map (\<lambda>i. st ! (j + i)) [0..<5]
                 in fold (\<lambda>i st. st[j + i := st ! (j + i) XOR (NOT (bc ! ((i + 1) mod 5)) AND bc ! ((i + 2) mod 5))]) [0..<5] st)
      [0, 5, 10, 15, 20] st"

definition iota :: "nat \<Rightarrow> u64 list \<Rightarrow> u64 list" where
  "iota round st = st[0 := st ! 0 XOR keccakf_rndc ! round]"

definition keccakf :: "u64 list \<Rightarrow> nat \<Rightarrow> u64 list" where
  "keccakf st rounds = fold (\<lambda>round st. iota round (chi (rho_pi (theta st)))) [0..<rounds] st"

section \<open>The sponge\<close>

datatype keccak_error = Bad_keccak_use

text \<open>\<^verbatim>\<open>((uint64_t *) in)[i]\<close> for \<^verbatim>\<open>i < rsizw\<close>, xored into the state.\<close>

definition load64 :: "bytes \<Rightarrow> u64" where
  "load64 s = word_of_int (le_val (take 8 s))"

definition xor_block :: "nat \<Rightarrow> bytes \<Rightarrow> u64 list \<Rightarrow> u64 list" where
  "xor_block rsizw inp st = fold (\<lambda>i st. st[i := st ! i XOR load64 (drop (8 * i) inp)]) [0..<rsizw] st"

text \<open>The loop over the full blocks; \<^const>\<open>None\<close> when it never ends.\<close>

partial_function (option) absorb_blocks :: "nat \<Rightarrow> u64 list \<Rightarrow> bytes \<Rightarrow> (u64 list \<times> bytes) option" where
  "absorb_blocks rsiz st inp =
    (if length inp \<ge> rsiz then absorb_blocks rsiz (keccakf (xor_block (rsiz div 8) inp st) 24) (drop rsiz inp)
     else Some (st, inp))"

definition keccak :: "bytes \<Rightarrow> int \<Rightarrow> (keccak_error + bytes) option" where
  "keccak inp mdlen =
    (if mdlen \<le> 0 \<or> (mdlen > 100 \<and> 200 \<noteq> mdlen) then Some (Inl Bad_keccak_use)
     else
       let rsiz = (if 200 = mdlen then 136 else 200 - 2 * nat mdlen);
           rsizw = rsiz div 8
       in case absorb_blocks rsiz (replicate 25 0) inp of None \<Rightarrow> None | Some (st, inp) \<Rightarrow>
         let inlen = length inp
         in if inlen + 1 \<ge> 144 \<or> inlen > rsiz \<or> rsiz - inlen + inlen + 1 \<ge> 144 \<or> rsiz = 0 \<or> rsiz - 1 \<ge> 144 \<or> rsizw * 8 > 144
            then Some (Inl Bad_keccak_use)
            else
              let temp = inp @ [1] @ replicate (rsiz - (inlen + 1)) 0;
                  temp = temp[rsiz - 1 := temp ! (rsiz - 1) OR 0x80];
                  st = keccakf (xor_block rsizw temp st) 24
              in Some (Inr (take (nat mdlen) (concat (map mem64 st)))))"

definition keccak1600 :: "bytes \<Rightarrow> (keccak_error + bytes) option" where
  "keccak1600 inp = keccak inp 200"

definition hash_process :: "bytes \<Rightarrow> (keccak_error + bytes) option" where
  "hash_process buf = keccak1600 buf"

definition cn_fast_hash_call :: "bytes \<Rightarrow> (keccak_error + bytes) option" where
  "cn_fast_hash_call data =
    (case hash_process data of None \<Rightarrow> None | Some (Inl e) \<Rightarrow> Some (Inl e) | Some (Inr state) \<Rightarrow> Some (Inr (take 32 state)))"

section \<open>The step mappings of FIPS 202\<close>

type_synonym lanes = "nat \<Rightarrow> nat \<Rightarrow> u64"

definition lanes_of :: "u64 list \<Rightarrow> lanes" where
  "lanes_of st = (\<lambda>x y. st ! (5 * y + x))"

definition list_of :: "lanes \<Rightarrow> u64 list" where
  "list_of A = map (\<lambda>i. A (i mod 5) (i div 5)) [0..<25]"

definition rot :: "nat \<Rightarrow> u64 \<Rightarrow> u64" where
  "rot n w = word_rotl n w"

definition theta_step :: "lanes \<Rightarrow> lanes" where
  "theta_step A =
    (let C = (\<lambda>x. A x 0 XOR A x 1 XOR A x 2 XOR A x 3 XOR A x 4);
         D = (\<lambda>x. C ((x + 4) mod 5) XOR rot 1 (C ((x + 1) mod 5)))
     in (\<lambda>x y. A x y XOR D x))"

text \<open>The walk $(x, y) \mapsto (y, 2 x + 3 y)$ from $(1, 0)$, which gives the offset $(t + 1) (t + 2) / 2$ at step \<open>t\<close>.\<close>

fun rho_walk :: "nat \<Rightarrow> nat \<times> nat" where
  "rho_walk 0 = (1, 0)"
| "rho_walk (Suc t) = (case rho_walk t of (x, y) \<Rightarrow> (y, (2 * x + 3 * y) mod 5))"

definition rho_offset :: "nat \<Rightarrow> nat \<Rightarrow> nat" where
  "rho_offset x y = (case List.find (\<lambda>t. rho_walk t = (x, y)) [0..<24] of None \<Rightarrow> 0 | Some t \<Rightarrow> ((t + 1) * (t + 2) div 2) mod 64)"

definition rho_step :: "lanes \<Rightarrow> lanes" where
  "rho_step A = (\<lambda>x y. rot (rho_offset x y) (A x y))"

definition pi_step :: "lanes \<Rightarrow> lanes" where
  "pi_step A = (\<lambda>x y. A ((x + 3 * y) mod 5) x)"

definition chi_step :: "lanes \<Rightarrow> lanes" where
  "chi_step A = (\<lambda>x y. A x y XOR (NOT (A ((x + 1) mod 5) y) AND A ((x + 2) mod 5) y))"

text \<open>The linear feedback shift register of FIPS 202, algorithm 5, and the round constants, algorithm 6.\<close>

definition lfsr_step :: "bool list \<Rightarrow> bool list" where
  "lfsr_step R =
    (let R = False # R;
         R8 = R ! 8
     in take 8 (R[0 := R ! 0 \<noteq> R8, 4 := R ! 4 \<noteq> R8, 5 := R ! 5 \<noteq> R8, 6 := R ! 6 \<noteq> R8]))"

fun lfsr :: "nat \<Rightarrow> bool list" where
  "lfsr 0 = [True, False, False, False, False, False, False, False]"
| "lfsr (Suc t) = lfsr_step (lfsr t)"

definition round_constant :: "nat \<Rightarrow> u64" where
  "round_constant ir = fold (\<lambda>j w. if lfsr (j + 7 * ir) ! 0 then w OR 2 ^ (2 ^ j - 1) else w) [0..<7] 0"

definition iota_step :: "nat \<Rightarrow> lanes \<Rightarrow> lanes" where
  "iota_step ir A = (\<lambda>x y. if x = 0 \<and> y = 0 then A x y XOR round_constant ir else A x y)"

definition keccak_round :: "nat \<Rightarrow> lanes \<Rightarrow> lanes" where
  "keccak_round ir A = iota_step ir (chi_step (pi_step (rho_step (theta_step A))))"

section \<open>Each step\<close>

lemma upt_small: "[0..<5] = [0, 1, 2, 3, 4]" "[0..<7] = [0, 1, 2, 3, 4, 5, 6]"
  "[0..<24] = [0, 1, 2, 3, 4, 5, 6, 7, 8, 9, 10, 11, 12, 13, 14, 15, 16, 17, 18, 19, 20, 21, 22, 23]"
  "[0..<25] = [0, 1, 2, 3, 4, 5, 6, 7, 8, 9, 10, 11, 12, 13, 14, 15, 16, 17, 18, 19, 20, 21, 22, 23, 24]"
  by (simp_all add: upt_rec)

abbreviation state25 :: "(nat \<Rightarrow> u64) \<Rightarrow> u64 list" where
  "state25 a \<equiv> [a 0, a 1, a 2, a 3, a 4, a 5, a 6, a 7, a 8, a 9, a 10, a 11, a 12, a 13, a 14, a 15, a 16, a 17, a 18, a 19, a 20, a 21, a 22, a 23, a 24]"

lemma list25:
  assumes "length st = 25"
  obtains a where "st = state25 a"
proof -
  have "st = map (\<lambda>i. st ! i) [0..<25]" using map_nth [of st] assms by simp
  then show thesis unfolding upt_small list.map by (rule that [of "\<lambda>i. st ! i"])
qed

lemma ROTL64_rot: "y < 64 \<Longrightarrow> ROTL64 x y = rot y x"
proof (rule bit_word_eqI)
  fix n assume y: "y < 64" and "n < LENGTH(64)"
  then have n: "n < 64" by simp
  show "bit (ROTL64 x y) n \<longleftrightarrow> bit (rot y x) n"
  proof (cases "n < y")
    case True
    then have "(n + (64 - y)) mod 64 = 64 - y + n" using y n by simp
    then show ?thesis using True y n by (simp add: ROTL64_def rot_def bit_or_iff bit_push_bit_iff bit_drop_bit_eq bit_word_rotl_iff)
  next
    case False
    then have "(n + (64 - y)) mod 64 = n - y" using y n by (simp add: le_mod_geq)
    moreover have "\<not> bit x (64 - y + n)" using False bit_imp_le_length [of x "64 - y + n"] by auto
    ultimately show ?thesis using False y n by (simp add: ROTL64_def rot_def bit_or_iff bit_push_bit_iff bit_drop_bit_eq bit_word_rotl_iff)
  qed
qed

lemma theta_core:
  "fold (\<lambda>i st. fold (\<lambda>j st. st[j + i := st ! (j + i) XOR t i]) [0, 5, 10, 15, 20] st) [0..<5] (state25 a) =
   [a 0 XOR t 0, a 1 XOR t 1, a 2 XOR t 2, a 3 XOR t 3, a 4 XOR t 4, a 5 XOR t 0, a 6 XOR t 1, a 7 XOR t 2, a 8 XOR t 3, a 9 XOR t 4, a 10 XOR t 0, a 11 XOR t 1, a 12 XOR t 2, a 13 XOR t 3, a 14 XOR t 4, a 15 XOR t 0, a 16 XOR t 1, a 17 XOR t 2, a 18 XOR t 3, a 19 XOR t 4, a 20 XOR t 0, a 21 XOR t 1, a 22 XOR t 2, a 23 XOR t 3, a 24 XOR t 4]" for a t :: "nat \<Rightarrow> u64"
  by (simp add: upt_small)

lemma theta_is:
  assumes "length st = 25"
  shows "theta st = list_of (theta_step (lanes_of st))"
proof -
  obtain a where st: "st = state25 a" using assms by (rule list25)
  show ?thesis
    unfolding st theta_def Let_def theta_core theta_step_def list_of_def lanes_of_def by (simp add: upt_small ROTL64_rot)
qed

lemma chi_core:
  "fold (\<lambda>i st. st[j + i := st ! (j + i) XOR (NOT (bc ! ((i + 1) mod 5)) AND bc ! ((i + 2) mod 5))]) [0..<5] st =
   st[j := st ! j XOR (NOT (bc ! 1) AND bc ! 2), j + 1 := st ! (j + 1) XOR (NOT (bc ! 2) AND bc ! 3),
      j + 2 := st ! (j + 2) XOR (NOT (bc ! 3) AND bc ! 4), j + 3 := st ! (j + 3) XOR (NOT (bc ! 4) AND bc ! 0),
      j + 4 := st ! (j + 4) XOR (NOT (bc ! 0) AND bc ! 1)]" for st :: "u64 list"
  by (simp add: upt_small flip: numeral_2_eq_2)

lemma chi_is:
  assumes "length st = 25"
  shows "chi st = list_of (chi_step (lanes_of st))"
proof -
  obtain a where st: "st = state25 a" using assms by (rule list25)
  show ?thesis
    unfolding st chi_def Let_def chi_core chi_step_def list_of_def lanes_of_def by (simp add: upt_small)
qed

lemma rho_offsets:
  "rho_offset 0 0 = 0" "rho_offset (Suc 0) 0 = Suc 0" "rho_offset 2 0 = 62" "rho_offset 3 0 = 28" "rho_offset 4 0 = 27" "rho_offset 0 (Suc 0) = 36" "rho_offset (Suc 0) (Suc 0) = 44" "rho_offset 2 (Suc 0) = 6" "rho_offset 3 (Suc 0) = 55" "rho_offset 4 (Suc 0) = 20" "rho_offset 0 2 = 3" "rho_offset (Suc 0) 2 = 10" "rho_offset 2 2 = 43" "rho_offset 3 2 = 25" "rho_offset 4 2 = 39" "rho_offset 0 3 = 41" "rho_offset (Suc 0) 3 = 45" "rho_offset 2 3 = 15" "rho_offset 3 3 = 21" "rho_offset 4 3 = 8" "rho_offset 0 4 = 18" "rho_offset (Suc 0) 4 = 2" "rho_offset 2 4 = 61" "rho_offset 3 4 = 56" "rho_offset 4 4 = 14"
  by code_simp+

lemma rot_0: "rot 0 w = w"
  by (rule bit_word_eqI) (simp add: rot_def bit_word_rotl_iff)

lemma rho_pi_is:
  assumes "length st = 25"
  shows "rho_pi st = list_of (pi_step (rho_step (lanes_of st)))"
proof -
  obtain a where st: "st = state25 a" using assms by (rule list25)
  show ?thesis
    unfolding st rho_pi_def Let_def pi_step_def rho_step_def list_of_def lanes_of_def by (simp add: upt_small keccakf_piln_def keccakf_rotc_def ROTL64_rot rho_offsets rot_0)
qed

text \<open>The first 168 output bits of the register.\<close>

fun lfsr_bits :: "nat \<Rightarrow> bool list \<Rightarrow> bool list" where
  "lfsr_bits 0 R = []"
| "lfsr_bits (Suc n) R = R ! 0 # lfsr_bits n (lfsr_step R)"

lemma nth_lfsr_bits: "i < n \<Longrightarrow> lfsr_bits n (lfsr k) ! i = lfsr (k + i) ! 0"
proof (induction n arbitrary: i k)
  case (Suc n)
  then show ?case using Suc.IH [of "i - 1" "Suc k"] by (cases i) simp_all
qed simp

definition lfsr_table :: "bool list" where
  "lfsr_table = [True, False, False, False, False, False, False, False, True, False, True, True, False, False, False, True, True, True, True, False, True, False, False, False, False, True, True, True, True, True, True, True, True, False, False, True, False, False, False, False, True, False, True, False, False, True, True, True, True, True, False, True, False, True, False, True, False, True, True, True, False, False, False, False, False, True, True, False, False, False, True, False, True, False, True, True, False, False, True, True, False, False, True, False, True, True, True, True, True, True, False, True, True, True, True, False, False, True, True, False, True, True, True, False, True, True, True, False, False, True, False, True, False, True, False, False, True, False, True, False, False, False, True, False, False, True, False, True, True, False, True, False, False, False, True, True, False, False, True, True, True, False, False, True, True, True, True, False, False, False, True, True, False, True, True, False, False, False, False, True, False, False, False, True, False, True, True, True]"

lemma lfsr_table_is: "lfsr_bits 168 [True, False, False, False, False, False, False, False] = lfsr_table"
  by code_simp

lemma lfsr_output: "t < 168 \<Longrightarrow> lfsr t ! 0 = lfsr_table ! t"
  using nth_lfsr_bits [of t 168 0] by (simp add: lfsr_table_is)

lemma round_constant_table:
  assumes "ir < 24"
  shows "round_constant ir = fold (\<lambda>j w. if lfsr_table ! (j + 7 * ir) then w OR 2 ^ (2 ^ j - 1) else w) [0..<7] 0"
  unfolding round_constant_def using assms by (intro fold_cong refl ext) (auto simp: lfsr_output)

lemma round_constants: "list_all (\<lambda>ir. fold (\<lambda>j w. if lfsr_table ! (j + 7 * ir) then w OR 2 ^ (2 ^ j - 1) else w) [0..<7] 0 = keccakf_rndc ! ir) [0..<24]"
  by code_simp

lemma length_list_of [simp]: "length (list_of A) = 25"
  by (simp add: list_of_def)

lemma lanes_of_list_of: "x < 5 \<Longrightarrow> y < 5 \<Longrightarrow> lanes_of (list_of A) x y = A x y"
  by (simp add: lanes_of_def list_of_def)

lemma list_of_cong: "(\<And>x y. x < 5 \<Longrightarrow> y < 5 \<Longrightarrow> A x y = B x y) \<Longrightarrow> list_of A = list_of B"
  unfolding list_of_def by (rule map_cong) auto

lemma list_of_steps:
  "list_of (theta_step (lanes_of (list_of A))) = list_of (theta_step A)"
  "list_of (pi_step (rho_step (lanes_of (list_of A)))) = list_of (pi_step (rho_step A))"
  "list_of (chi_step (lanes_of (list_of A))) = list_of (chi_step A)"
  by (rule list_of_cong; simp add: theta_step_def pi_step_def rho_step_def chi_step_def lanes_of_list_of)+

lemma iota_is:
  assumes "length st = 25" "ir < 24"
  shows "iota ir st = list_of (iota_step ir (lanes_of st))"
proof (rule nth_equalityI)
  have "keccakf_rndc ! ir = round_constant ir"
    using round_constants assms(2) by (simp add: round_constant_table list_all_iff)
  then show "iota ir st ! i = list_of (iota_step ir (lanes_of st)) ! i" if "i < length (iota ir st)" for i
    using that assms by (cases "i = 0") (auto simp: iota_def list_of_def iota_step_def lanes_of_def)
qed (simp add: iota_def assms)

lemma list_of_iota: "list_of (iota_step ir (lanes_of (list_of A))) = list_of (iota_step ir A)"
  by (rule list_of_cong) (simp add: iota_step_def lanes_of_list_of)

lemma round_is:
  assumes "length st = 25" "ir < 24"
  shows "iota ir (chi (rho_pi (theta st))) = list_of (keccak_round ir (lanes_of st))"
  unfolding keccak_round_def
  by (simp add: theta_is [OF assms(1)] rho_pi_is chi_is iota_is assms(2) list_of_steps list_of_iota)

text \<open>\<^verbatim>\<open>keccakf\<close> on \<open>n\<close> rounds, by the step mappings.\<close>

definition keccak_p :: "nat \<Rightarrow> u64 list \<Rightarrow> u64 list" where
  "keccak_p n st = fold (\<lambda>ir st. list_of (keccak_round ir (lanes_of st))) [0..<n] st"

lemma keccakf_is: "length st = 25 \<Longrightarrow> n \<le> 24 \<Longrightarrow> keccakf st n = keccak_p n st \<and> length (keccak_p n st) = 25"
proof (induction n)
  case (Suc n)
  then have "keccakf st n = keccak_p n st" "length (keccak_p n st) = 25" by simp_all
  moreover have "keccakf st (Suc n) = iota n (chi (rho_pi (theta (keccakf st n))))" by (simp add: keccakf_def)
  moreover have "keccak_p (Suc n) st = list_of (keccak_round n (lanes_of (keccak_p n st)))" by (simp add: keccak_p_def)
  ultimately show ?case using Suc.prems(2) by (simp add: round_is)
qed (simp add: keccakf_def keccak_p_def)

section \<open>The sponge construction\<close>

lemma length_xor_block [simp]: "length (xor_block n inp st) = length st"
  unfolding xor_block_def by (induction n arbitrary: st) simp_all

text \<open>The padding of the original Keccak submission, $1 0^* 1$, least significant bit first.\<close>

definition pad :: "nat \<Rightarrow> bytes \<Rightarrow> bytes" where
  "pad r m =
    (let z = r - length m mod r
     in m @ (if z = 1 then [0x81] else [0x01] @ replicate (z - 2) 0 @ [0x80]))"

fun absorb :: "nat \<Rightarrow> nat \<Rightarrow> bytes \<Rightarrow> u64 list \<Rightarrow> u64 list" where
  "absorb r 0 m st = st"
| "absorb r (Suc n) m st = absorb r n (drop r m) (keccak_p 24 (xor_block (r div 8) (take r m) st))"

definition sponge :: "nat \<Rightarrow> bytes \<Rightarrow> bytes" where
  "sponge r m = concat (map mem64 (absorb r (length (pad r m) div r) (pad r m) (replicate 25 0)))"

lemma xor_block_take:
  assumes "n * 8 \<le> r"
  shows "xor_block n (take r m) st = xor_block n m st"
proof -
  have "load64 (drop (8 * i) (take r m)) = load64 (drop (8 * i) m)" if "i < n" for i
    using that assms by (simp add: load64_def drop_take min_def)
  then show ?thesis unfolding xor_block_def by (intro fold_cong refl ext) simp
qed

lemma absorb_blocks_is:
  assumes "0 < r" "length st = 25"
  shows "\<exists>st'. absorb_blocks r st m = Some (st', drop (r * (length m div r)) m) \<and> length st' = 25 \<and>
    (\<forall>e. length e + length m mod r = r \<longrightarrow>
      absorb r (length (m @ e) div r) (m @ e) st = keccak_p 24 (xor_block (r div 8) (drop (r * (length m div r)) m @ e) st'))"
  using assms(2)
proof (induction "length m" arbitrary: m st rule: less_induct)
  case less
  show ?case
  proof (cases "r \<le> length m")
    case False
    then have "length m div r = 0" "length m mod r = length m" by simp_all
    moreover have "absorb_blocks r st m = Some (st, m)" using False by (simp add: absorb_blocks.simps)
    moreover have "absorb r (length (m @ e) div r) (m @ e) st = keccak_p 24 (xor_block (r div 8) (m @ e) st)"
      if "length e + length m = r" for e
    proof -
      have "length (m @ e) div r = Suc 0" using that assms(1) by (simp add: add.commute)
      then show ?thesis using that by (simp add: add.commute)
    qed
    ultimately show ?thesis using less.prems by simp
  next
    case True
    define st1 where "st1 = keccakf (xor_block (r div 8) m st) 24"
    have l: "length st1 = 25" and p: "st1 = keccak_p 24 (xor_block (r div 8) (take r m) st)"
      using keccakf_is [of "xor_block (r div 8) m st" 24] less.prems xor_block_take [of "r div 8" r m st] by (simp_all add: st1_def)
    have d: "length m div r = Suc (length (drop r m) div r)" "length m mod r = length (drop r m) mod r"
      using True assms(1) by (simp_all add: le_div_geq le_mod_geq)
    have "length (drop r m) < length m" using True assms(1) by simp
    from less.hyps [OF this l] obtain st' where
      s: "absorb_blocks r st1 (drop r m) = Some (st', drop (r * (length (drop r m) div r)) (drop r m))" "length st' = 25"
      and a: "\<And>e. length e + length (drop r m) mod r = r \<Longrightarrow>
        absorb r (length (drop r m @ e) div r) (drop r m @ e) st1 =
        keccak_p 24 (xor_block (r div 8) (drop (r * (length (drop r m) div r)) (drop r m) @ e) st')" by blast
    have "drop (r * (length (drop r m) div r)) (drop r m) = drop (r * (length m div r)) m"
      unfolding d(1) by (simp add: add.commute)
    note e = this
    have "absorb_blocks r st m = Some (st', drop (r * (length m div r)) m)"
      using s(1) True unfolding e by (subst absorb_blocks.simps) (simp add: st1_def)
    moreover have "absorb r (length (m @ e) div r) (m @ e) st = keccak_p 24 (xor_block (r div 8) (drop (r * (length m div r)) m @ e) st')"
      if "length e + length m mod r = r" for e
    proof -
      have "length (m @ e) div r = Suc (length (drop r m @ e) div r)"
        using True assms(1) by (simp add: le_div_geq)
      then show ?thesis using a [of e] that True unfolding d(2) e [symmetric] by (simp add: p)
    qed
    ultimately show ?thesis using s(2) by blast
  qed
qed

lemma last_block:
  fixes l :: bytes
  assumes "length l < r"
  defines "t \<equiv> l @ [1] @ replicate (r - (length l + 1)) 0"
  shows "t[r - 1 := t ! (r - 1) OR 0x80] = l @ (if r - length l = 1 then [0x81] else [0x01] @ replicate (r - length l - 2) 0 @ [0x80])"
proof (cases "r - length l = 1")
  case True
  then have "r = length l + 1" by simp
  then show ?thesis by (simp add: t_def nth_append list_update_append)
next
  case False
  then have "r = length l + (r - length l - 2) + 2" using assms(1) by simp
  then obtain k where k: "r = length l + k + 2" by blast
  have "t = (l @ [1] @ replicate k 0) @ [0]" by (simp add: t_def k replicate_append_same)
  moreover have "length (l @ [1] @ replicate k (0 :: byte)) = r - 1" by (simp add: k)
  ultimately have "t[r - 1 := t ! (r - 1) OR 0x80] = (l @ [1] @ replicate k 0) @ [0x80]"
    by (metis append_Cons list_update_length nth_append_length or.left_neutral)
  then show ?thesis using False by (simp add: k)
qed

definition rate :: "int \<Rightarrow> nat" where
  "rate mdlen = (if 200 = mdlen then 136 else 200 - 2 * nat mdlen)"

lemma keccak_sponge:
  assumes "28 < mdlen \<and> mdlen < 100 \<or> mdlen = 200"
  shows "keccak m mdlen = Some (Inr (take (nat mdlen) (sponge (rate mdlen) m)))"
proof -
  define r where "r = rate mdlen"
  have r: "0 < r" "r \<le> 142" using assms by (auto simp: r_def rate_def)
  define l where "l = drop (r * (length m div r)) m"
  have ll: "length l = length m mod r" by (simp add: l_def minus_mult_div_eq_mod)
  define e where "e = (if r - length m mod r = 1 then [0x81] else [0x01] @ replicate (r - length m mod r - 2) 0 @ [0x80 :: byte])"
  have m: "length m mod r < r" using r by simp
  obtain st' where s: "absorb_blocks r (replicate 25 0) m = Some (st', l)" "length st' = 25"
    and a: "\<And>e. length e + length m mod r = r \<Longrightarrow>
      absorb r (length (m @ e) div r) (m @ e) (replicate 25 0) = keccak_p 24 (xor_block (r div 8) (l @ e) st')"
    using absorb_blocks_is [OF r(1), of "replicate 25 0" m] unfolding l_def by auto
  have "length e + length m mod r = r" using m by (auto simp: e_def)
  note a = a [OF this]
  have p: "pad r m = m @ e" by (simp add: pad_def e_def)
  define t where "t = l @ [1] @ replicate (r - (length l + 1)) 0"
  have t: "t[r - 1 := t ! (r - 1) OR 0x80] = l @ e" using last_block [of l r] m by (simp add: t_def e_def ll)
  have k: "keccakf (xor_block (r div 8) (l @ e) st') 24 = keccak_p 24 (xor_block (r div 8) (l @ e) st')"
    using keccakf_is [of "xor_block (r div 8) (l @ e) st'" 24] s(2) by simp
  have "r div 8 * 8 \<le> 144" using r by simp
  then have g: "\<not> (length l + 1 \<ge> 144 \<or> length l > r \<or> r - length l + length l + 1 \<ge> 144 \<or> r = 0 \<or> r - 1 \<ge> 144 \<or> r div 8 * 8 > 144)"
    using m r unfolding ll [symmetric] by auto
  have "keccak m mdlen = (case absorb_blocks r (replicate 25 0) m of None \<Rightarrow> None | Some (st, inp) \<Rightarrow>
      if length inp + 1 \<ge> 144 \<or> length inp > r \<or> r - length inp + length inp + 1 \<ge> 144 \<or> r = 0 \<or> r - 1 \<ge> 144 \<or> r div 8 * 8 > 144
      then Some (Inl Bad_keccak_use)
      else let t = inp @ [1] @ replicate (r - (length inp + 1)) 0
           in Some (Inr (take (nat mdlen) (concat (map mem64 (keccakf (xor_block (r div 8) (t[r - 1 := t ! (r - 1) OR 0x80]) st) 24))))))"
    using assms unfolding keccak_def Let_def r_def [unfolded rate_def, symmetric] by auto
  also have "\<dots> = Some (Inr (take (nat mdlen) (concat (map mem64 (keccakf (xor_block (r div 8) (l @ e) st') 24)))))"
    unfolding s(1) option.case prod.case if_not_P [OF g] Let_def t [unfolded t_def] ..
  finally show ?thesis unfolding k sponge_def r_def [symmetric] p a .
qed

lemma absorb_blocks_diverges: "absorb_blocks 0 st m = None"
proof -
  have "r \<noteq> 0" if "absorb_blocks r st m = Some y" for r y
    using absorb_blocks.raw_induct [of "\<lambda>r st m y. r \<noteq> 0" r st m y] that by (auto split: if_splits)
  then show ?thesis by (cases "absorb_blocks 0 st m") auto
qed

lemma absorb_blocks_total: "0 < r \<Longrightarrow> \<exists>st'. absorb_blocks r (replicate 25 0) m = Some (st', drop (r * (length m div r)) m)"
  using absorb_blocks_is [of r "replicate 25 0" m] by auto

lemma keccak_bad:
  assumes "mdlen \<le> 28 \<or> 100 < mdlen \<and> mdlen \<noteq> 200"
  shows "keccak m mdlen = Some (Inl Bad_keccak_use)"
proof (cases "mdlen \<le> 0 \<or> 100 < mdlen \<and> mdlen \<noteq> 200")
  case False
  define r where "r = 200 - 2 * nat mdlen"
  have r: "0 < r" "144 \<le> r" using assms False by (auto simp: r_def)
  obtain st' l where s: "absorb_blocks r (replicate 25 0) m = Some (st', l)" "length l = length m mod r"
    using absorb_blocks_total [OF r(1), of m] by (auto simp: minus_mult_div_eq_mod)
  then have "r - length l + length l + 1 \<ge> 144" using r by (simp add: mod_le_divisor)
  moreover have "200 \<noteq> mdlen" using assms False by auto
  ultimately show ?thesis using False r s(1) unfolding keccak_def Let_def r_def [symmetric] by simp
next
  case True
  then have "mdlen \<le> 0 \<or> 100 < mdlen \<and> 200 \<noteq> mdlen" by auto
  then show ?thesis by (simp only: keccak_def if_P)
qed

lemma keccak_100: "keccak m 100 = None"
  by (simp add: keccak_def absorb_blocks_diverges)

lemma mem64_concat_length: "length (concat (map mem64 st)) = 8 * length st"
  by (induction st) simp_all

lemma length_absorb: "length st = 25 \<Longrightarrow> length (absorb r n m st) = 25"
proof (induction n arbitrary: m st)
  case (Suc n)
  then show ?case using keccakf_is [of "xor_block (r div 8) (take r m) st" 24] by simp
qed simp

lemma length_sponge [simp]: "length (sponge r m) = 200"
  by (simp add: sponge_def mem64_concat_length length_absorb)

text \<open>The value \<^verbatim>\<open>cn_fast_hash\<close> writes, which by the property below it always does.\<close>

definition cn_fast_hash :: "bytes \<Rightarrow> bytes" where
  "cn_fast_hash data = (case cn_fast_hash_call data of Some (Inr h) \<Rightarrow> h | _ \<Rightarrow> [])"

lemma cn_fast_hash_returns: "cn_fast_hash_call data = Some (Inr (cn_fast_hash data))"
  "cn_fast_hash data = take 32 (sponge 136 data)" "length (cn_fast_hash data) = 32"
  using keccak_sponge [of 200 data]
  by (simp_all add: cn_fast_hash_def cn_fast_hash_call_def hash_process_def keccak1600_def rate_def)

section \<open>The properties\<close>

text \<open>
  C11.  The permutation is that of FIPS 202: on every state of 25 lanes and for up to 24 rounds, the
  in-place loops of \<^verbatim>\<open>keccakf\<close> with their tables of round constants, rotations and positions compute
  the composition of the step mappings, with round constants from the feedback shift
  register and rotation offsets from the walk on the lanes.
\<close>

theorem keccakf_step_mappings:
  assumes "length st = 25" "rounds \<le> 24"
  shows "keccakf st rounds = fold (\<lambda>ir st. list_of (keccak_round ir (lanes_of st))) [0..<rounds] st"
  using keccakf_is [OF assms] by (simp add: keccak_p_def)

theorem keccakf_step_mappings_witness:
  "keccakf (replicate 25 0) 24 = fold (\<lambda>ir st. list_of (keccak_round ir (lanes_of st))) [0..<24] (replicate 25 0)"
  by (rule keccakf_step_mappings) simp_all



text \<open>
  C33.  When \<^verbatim>\<open>keccak\<close> returns: on every message it returns a digest for the lengths above, reports bad use
  for all others but 100, and for 100, where the rate is zero, its loop never ends, although the
  code below the loop tests for that case.
\<close>

theorem keccak_returns:
  "keccak m mdlen =
    (if mdlen = 100 then None
     else if 28 < mdlen \<and> mdlen < 100 \<or> mdlen = 200 then Some (Inr (take (nat mdlen) (sponge (rate mdlen) m)))
     else Some (Inl Bad_keccak_use))"
  using keccak_sponge [of mdlen m] keccak_bad [of mdlen m] keccak_100 [of m] by auto

end
