(* ===== verification/Base58.thy ===== *)
theory Base58
  imports Keccak Varint "HOL-Library.Monad_Syntax"
begin

text \<open>
  \<^verbatim>\<open>src/src/common/base58.cpp\<close>: the encoding of byte strings in blocks of eight bytes as eleven letters,
  and addresses with a tag and a checksum.  A \<^verbatim>\<open>std::string\<close> is a list of bytes.  A function that
  returns \<^verbatim>\<open>false\<close>, and a write outside of the block that is being encoded, is \<^const>\<open>None\<close>.
\<close>

section \<open>Tables\<close>

definition alphabet :: bytes where
  "alphabet = map of_char ''123456789ABCDEFGHJKLMNPQRSTUVWXYZabcdefghijkmnopqrstuvwxyz''"

definition encoded_block_sizes :: "nat list" where
  "encoded_block_sizes = [0, 2, 3, 5, 6, 7, 9, 10, 11]"

definition reverse_data :: "int list" where
  "reverse_data =
    fold (\<lambda>i m_data. m_data[nat (sint (alphabet ! i) - sint (alphabet ! 0)) := int i]) [0..<58]
      (replicate (nat (sint (alphabet ! 57) - sint (alphabet ! 0) + 1)) (- 1))"

definition reverse_alphabet :: "byte \<Rightarrow> int" where
  "reverse_alphabet letter =
    (let idx = nat ((sint letter - sint (alphabet ! 0)) mod 2 ^ 64)
     in if idx < length reverse_data then reverse_data ! idx else - 1)"

definition decoded_data :: "int list" where
  "decoded_data = fold (\<lambda>i m_data. m_data[encoded_block_sizes ! i := int i]) [0..<9] (replicate 12 (- 1))"

definition decoded_block_sizes :: "nat \<Rightarrow> int option" where
  "decoded_block_sizes encoded_block_size =
    (if encoded_block_size \<le> 11 then Some (decoded_data ! encoded_block_size) else None)"

section \<open>Blocks\<close>

text \<open>The fall-through switch shifts the bytes in from the first on.\<close>

definition uint_8be_to_64 :: "bytes \<Rightarrow> nat \<Rightarrow> u64" where
  "uint_8be_to_64 data sz = fold (\<lambda>b res. push_bit 8 res OR ucast b) (take sz data) 0"

definition uint_64_to_8be :: "u64 \<Rightarrow> nat \<Rightarrow> bytes" where
  "uint_64_to_8be num sz = take sz (drop (8 - sz) (mem64 (SWAP64 num)))"

function encode_loop :: "u64 \<Rightarrow> int \<Rightarrow> bytes \<Rightarrow> bytes option" where
  "encode_loop num i res =
    (if 0 < num then
       if 0 \<le> i then encode_loop (num div 58) (i - 1) (res[nat i := alphabet ! unat (num mod 58)])
       else None
     else Some res)"
  by auto
termination by (relation "measure (\<lambda>(num, i, res). nat (i + 1))") auto

declare encode_loop.simps [simp del]

text \<open>\<open>res\<close> is the part of the result that the block is written to, which holds the letter 1.\<close>

definition encode_block :: "bytes \<Rightarrow> nat \<Rightarrow> bytes \<Rightarrow> bytes option" where
  "encode_block block sz res =
    (if 1 \<le> sz \<and> sz \<le> 8
     then encode_loop (uint_8be_to_64 block sz) (int (encoded_block_sizes ! sz) - 1) res
     else None)"

text \<open>The loop of \<^verbatim>\<open>decode_block\<close> over the letters, the last one first.\<close>

fun decode_loop :: "bytes \<Rightarrow> u64 \<Rightarrow> u64 \<Rightarrow> u64 option" where
  "decode_loop [] res_num order = Some res_num"
| "decode_loop (c # cs) res_num order =
    (let digit = reverse_alphabet c
     in if digit < 0 then None
        else do {
          (lo, product_hi) \<leftarrow> mul128 order (word_of_int digit);
          let tmp = res_num + lo
          in if tmp < res_num \<or> 0 \<noteq> product_hi then None
             else decode_loop cs tmp (order * 58) })"

definition decode_block :: "bytes \<Rightarrow> nat \<Rightarrow> bytes option" where
  "decode_block block sz =
    (if 1 \<le> sz \<and> sz \<le> 11 then do {
       res_size \<leftarrow> decoded_block_sizes sz;
       if res_size \<le> 0 then None
       else do {
         res_num \<leftarrow> decode_loop (rev (take sz block)) 0 1;
         if res_size < 8 \<and> push_bit (8 * nat res_size) 1 \<le> res_num then None
         else Some (uint_64_to_8be res_num (nat res_size)) } }
     else None)"

section \<open>Strings\<close>

fun encode_full :: "nat \<Rightarrow> bytes \<Rightarrow> bytes option" where
  "encode_full 0 data = Some []"
| "encode_full (Suc n) data = do {
     b \<leftarrow> encode_block data 8 (replicate 11 (alphabet ! 0));
     r \<leftarrow> encode_full n (drop 8 data);
     Some (b @ r) }"

definition encode :: "bytes \<Rightarrow> bytes option" where
  "encode data =
    (if data = [] then Some []
     else
       let full_block_count = length data div 8;
           last_block_size = length data mod 8
       in do {
         r \<leftarrow> encode_full full_block_count data;
         l \<leftarrow> (if 0 < last_block_size
               then encode_block (drop (full_block_count * 8) data) last_block_size
                      (replicate (encoded_block_sizes ! last_block_size) (alphabet ! 0))
               else Some []);
         Some (r @ l) })"

fun decode_full :: "nat \<Rightarrow> bytes \<Rightarrow> bytes option" where
  "decode_full 0 enc = Some []"
| "decode_full (Suc n) enc = do {
     b \<leftarrow> decode_block enc 11;
     r \<leftarrow> decode_full n (drop 11 enc);
     Some (b @ r) }"

definition decode :: "bytes \<Rightarrow> bytes option" where
  "decode enc =
    (if enc = [] then Some []
     else
       let full_block_count = length enc div 11;
           last_block_size = length enc mod 11
       in do {
         last_block_decoded_size \<leftarrow> decoded_block_sizes last_block_size;
         if last_block_decoded_size < 0 then None
         else do {
           r \<leftarrow> decode_full full_block_count enc;
           l \<leftarrow> (if 0 < last_block_size then decode_block (drop (full_block_count * 11) enc) last_block_size else Some []);
           Some (r @ l) } })"

definition encode_addr :: "u64 \<Rightarrow> bytes \<Rightarrow> bytes option" where
  "encode_addr tag data =
    (let buf = write_varint tag @ data;
         buf = buf @ take 4 (cn_fast_hash buf)
     in encode buf)"

definition decode_addr :: "bytes \<Rightarrow> (u64 \<times> bytes) option" where
  "decode_addr addr = do {
     addr_data \<leftarrow> decode addr;
     if length addr_data \<le> 4 then None
     else
       let checksum = drop (length addr_data - 4) addr_data;
           addr_data = take (length addr_data - 4) addr_data
       in if take 4 (cn_fast_hash addr_data) \<noteq> checksum then None
          else case read_varint 64 addr_data of
              Read read tag rest \<Rightarrow> if read = 0 then None else Some (tag, drop read addr_data)
            | EVARINT_OVERFLOW \<Rightarrow> None
            | EVARINT_REPRESENT \<Rightarrow> None }"

section \<open>Digits\<close>

text \<open>The \<open>n\<close> digits of \<open>v\<close> in base \<open>B\<close>, most significant first, and the value of digits.\<close>

fun to_digits :: "int \<Rightarrow> nat \<Rightarrow> int \<Rightarrow> int list" where
  "to_digits B 0 v = []"
| "to_digits B (Suc n) v = to_digits B n (v div B) @ [v mod B]"

definition of_digits :: "int \<Rightarrow> int list \<Rightarrow> int" where
  "of_digits B ds = fold (\<lambda>d v. v * B + d) ds 0"

lemma length_to_digits [simp]: "length (to_digits B n v) = n"
  by (induction n arbitrary: v) simp_all

lemma of_digits_snoc [simp]: "of_digits B [] = 0" "of_digits B (ds @ [d]) = of_digits B ds * B + d"
  by (simp_all add: of_digits_def)

lemma of_to_digits: "0 < B \<Longrightarrow> of_digits B (to_digits B n v) = v mod B ^ n"
proof (induction n arbitrary: v)
  case (Suc n)
  then show ?case by (simp add: zmod_zmult2_eq mult.commute)
qed simp

lemma to_of_digits: "list_all (\<lambda>d. 0 \<le> d \<and> d < B) ds \<Longrightarrow> to_digits B (length ds) (of_digits B ds) = ds"
  by (induction ds rule: rev_induct) auto

lemma to_digits_range: "0 < B \<Longrightarrow> list_all (\<lambda>d. 0 \<le> d \<and> d < B) (to_digits B n v)"
  by (induction n arbitrary: v) simp_all

lemma of_digits_range: "list_all (\<lambda>d. 0 \<le> d \<and> d < B) ds \<Longrightarrow> 0 \<le> of_digits B ds \<and> of_digits B ds < B ^ length ds"
proof (induction ds rule: rev_induct)
  case (snoc d ds)
  then have d: "0 \<le> of_digits B ds" "of_digits B ds + 1 \<le> B ^ length ds" "0 \<le> d" "d < B" by auto
  then have "(of_digits B ds + 1) * B \<le> B ^ length ds * B" by (intro mult_right_mono) auto
  with d show ?case by (simp add: algebra_simps)
qed simp

section \<open>The tables\<close>

lemma length_alphabet [simp]: "length alphabet = 58"
  by (simp add: alphabet_def)

definition alphabet_codes :: "int list" where
  "alphabet_codes = [49, 50, 51, 52, 53, 54, 55, 56, 57, 65, 66, 67, 68, 69, 70, 71, 72, 74, 75, 76, 77, 78, 80, 81, 82, 83, 84, 85, 86, 87, 88, 89, 90, 97, 98, 99, 100, 101, 102, 103, 104, 105, 106, 107, 109, 110, 111, 112, 113, 114, 115, 116, 117, 118, 119, 120, 121, 122]"

definition reverse_table :: "int list" where
  "reverse_table = [0, 1, 2, 3, 4, 5, 6, 7, 8, - 1, - 1, - 1, - 1, - 1, - 1, - 1, 9, 10, 11, 12, 13, 14, 15, 16, - 1, 17, 18, 19, 20, 21, - 1, 22, 23, 24, 25, 26, 27, 28, 29, 30, 31, 32, - 1, - 1, - 1, - 1, - 1, - 1, 33, 34, 35, 36, 37, 38, 39, 40, 41, 42, 43, - 1, 44, 45, 46, 47, 48, 49, 50, 51, 52, 53, 54, 55, 56, 57]"

lemma alphabet_is: "map sint alphabet = alphabet_codes"
  by code_simp

lemma sint_alphabet: "i < 58 \<Longrightarrow> sint (alphabet ! i) = alphabet_codes ! i"
  by (simp only: alphabet_is [symmetric] nth_map length_alphabet)

lemma reverse_data_is: "reverse_data = reverse_table"
proof -
  have "reverse_data = fold (\<lambda>i m_data. m_data[nat (alphabet_codes ! i - alphabet_codes ! 0) := int i]) [0..<58]
      (replicate (nat (alphabet_codes ! 57 - alphabet_codes ! 0 + 1)) (- 1))"
    unfolding reverse_data_def by (intro fold_cong ext) (simp_all add: sint_alphabet)
  also have "\<dots> = reverse_table" by code_simp
  finally show ?thesis .
qed

lemma table_inverse:
  "list_all (\<lambda>i. 49 \<le> alphabet_codes ! i \<and> alphabet_codes ! i - 49 < 74 \<and> reverse_table ! nat (alphabet_codes ! i - 49) = int i) [0..<58]"
  "list_all (\<lambda>idx. reverse_table ! idx < 0 \<or> reverse_table ! idx < 58 \<and> alphabet_codes ! nat (reverse_table ! idx) = int idx + 49) [0..<74]"
  "length reverse_table = 74" "alphabet_codes ! 0 = 49"
  by code_simp+

lemma reverse_alphabet_is:
  "reverse_alphabet c = (if 49 \<le> sint c \<and> sint c - 49 < 74 then reverse_table ! nat (sint c - 49) else - 1)"
proof -
  have c: "- 128 \<le> sint c" "sint c < 128" using sint_range_size [of c] by (simp_all add: word_size)
  have "(sint c - 49) mod 2 ^ 64 = (if 49 \<le> sint c then sint c - 49 else sint c - 49 + 2 ^ 64)"
  proof (cases "49 \<le> sint c")
    case False
    then have "(sint c - 49 + 2 ^ 64) mod 2 ^ 64 = sint c - 49 + 2 ^ 64" using c by (intro mod_pos_pos_trivial) simp_all
    then show ?thesis using False by (simp only: mod_add_self2 if_False)
  qed (use c in simp)
  then show ?thesis using c
    by (auto simp: reverse_alphabet_def Let_def reverse_data_is table_inverse(3) sint_alphabet table_inverse(4) nat_less_iff)
qed

lemma alphabet_lookup: "i < 58 \<Longrightarrow> reverse_alphabet (alphabet ! i) = int i"
  using table_inverse(1) by (simp add: reverse_alphabet_is sint_alphabet list_all_iff)

lemma reverse_lookup:
  assumes "0 \<le> reverse_alphabet c"
  shows "reverse_alphabet c < 58" "alphabet ! nat (reverse_alphabet c) = c"
proof -
  define idx where "idx = nat (sint c - 49)"
  have i: "idx < 74" "reverse_alphabet c = reverse_table ! idx" "sint c = int idx + 49"
    using assms by (auto simp: reverse_alphabet_is idx_def split: if_splits)
  then have r: "reverse_alphabet c < 58" "alphabet_codes ! nat (reverse_alphabet c) = int idx + 49"
    using table_inverse(2) assms unfolding list_all_iff i(2) by (metis atLeast0LessThan lessThan_iff linorder_not_less set_upt)+
  then have "sint (alphabet ! nat (reverse_alphabet c)) = sint c" using assms i(3) by (simp add: sint_alphabet)
  with r(1) show "reverse_alphabet c < 58" "alphabet ! nat (reverse_alphabet c) = c" by (simp_all add: signed_word_eqI)
qed

lemma decoded_table: "decoded_data = [0, - 1, 1, 2, - 1, 3, 4, 5, - 1, 6, 7, 8]"
  by code_simp

section \<open>Bytes and numbers\<close>

lemma uint_bytes_digits: "list_all (\<lambda>d. 0 \<le> d \<and> d < 256) (map uint (bs :: bytes))"
  by (simp add: list_all_iff uint_byte)

lemma uint_8be_value:
  fixes bs :: bytes
  assumes "length bs \<le> 8"
  shows "uint (fold (\<lambda>b res. push_bit 8 res OR ucast b) bs (0 :: u64)) = of_digits 256 (map uint bs)"
  using assms
proof (induction bs rule: rev_induct)
  case (snoc b bs)
  define r where "r = fold (\<lambda>b res. push_bit 8 res OR ucast b) bs (0 :: u64)"
  have ih: "uint r = of_digits 256 (map uint bs)" using snoc by (simp add: r_def)
  have "(256 :: int) ^ length bs \<le> 256 ^ 7" using snoc.prems by (intro power_increasing) simp_all
  then have "uint r < 2 ^ 56" using of_digits_range [OF uint_bytes_digits [of bs]] ih by simp
  then have p: "uint (push_bit 8 r) = uint r * 2 ^ 8" by (simp add: push_bit_eq_mult uint_word_ariths)
  have u: "uint (ucast b :: u64) = uint b" using uint_byte(2) [of b] by (simp add: unsigned_ucast_eq take_bit_int_eq_self)
  have "uint (push_bit 8 r OR ucast b) = uint b OR (uint r * 2 ^ 8)" by (simp only: unsigned_or_eq p u or.commute)
  also have "\<dots> = uint b + uint r * 2 ^ 8" by (rule or_shift_add) (use uint_byte [of b] in simp_all)
  finally show ?case using ih by (simp add: r_def)
qed simp

lemma le_bytes_Suc: "le_bytes (Suc n) v = word_of_int v # le_bytes n (v div 256)"
  by (simp add: le_bytes_def upt_conv_Cons map_Suc_upt [symmetric] zdiv_zmult2_eq [symmetric] del: upt_Suc)

lemma rev_le_bytes: "rev (le_bytes n v) = map word_of_int (to_digits 256 n v)"
proof (induction n arbitrary: v)
  case (Suc n)
  have "(word_of_int (v mod 256) :: byte) = word_of_int v" by (simp add: word_uint_eq_iff uint_word_of_int)
  then show ?case by (simp add: le_bytes_Suc Suc)
qed (simp add: le_bytes_def)

lemma uint_64_to_8be_value:
  assumes "n \<le> 8"
  shows "uint_64_to_8be num n = map word_of_int (to_digits 256 n (uint num))"
proof -
  have "mem64 num = le_bytes 8 (uint num)" using le_bytes_le_val [of "mem64 num" 8] by (simp add: mem64_value)
  moreover have "take n (le_bytes 8 (uint num)) = le_bytes n (uint num)" using assms by (simp add: le_bytes_def take_map)
  ultimately have "rev (take n (mem64 num)) = map word_of_int (to_digits 256 n (uint num))" by (simp add: rev_le_bytes)
  then show ?thesis using assms by (simp add: uint_64_to_8be_def mem64_SWAP64 drop_rev)
qed

section \<open>A block\<close>

definition letters :: "nat \<Rightarrow> int \<Rightarrow> bytes" where
  "letters n v = map (\<lambda>d. alphabet ! nat d) (to_digits 58 n v)"

lemma letters_0: "letters n 0 = replicate n (alphabet ! 0)"
proof -
  have "to_digits 58 n 0 = replicate n 0" by (induction n) (simp_all add: replicate_append_same)
  then show ?thesis by (simp add: letters_def)
qed

lemma letters_Suc: "letters (Suc n) v = letters n (v div 58) @ [alphabet ! nat (v mod 58)]"
  by (simp add: letters_def)

lemma encode_loop_value:
  assumes "uint num < 58 ^ n" "take n res = replicate n (alphabet ! 0)" "n \<le> length res"
  shows "encode_loop num (int n - 1) res = Some (letters n (uint num) @ drop n res)"
  using assms
proof (induction n arbitrary: num res)
  case 0
  then have "num = 0" by (simp add: word_uint_eq_iff) (metis uint_ge_0 order_antisym zle_add1_eq_le add_0)
  then show ?case by (simp add: encode_loop.simps letters_def)
next
  case (Suc n)
  show ?case
  proof (cases "num = 0")
    case True
    then show ?thesis using Suc.prems append_take_drop_id [of "Suc n" res]
      by (simp add: encode_loop.simps letters_0 del: append_take_drop_id)
  next
    case False
    define a where "a = alphabet ! unat (num mod 58)"
    have d: "uint (num div 58) = uint num div 58" "uint (num mod 58) = uint num mod 58"
      by (simp_all add: uint_div_distrib uint_mod_distrib)
    have a: "a = alphabet ! nat (uint num mod 58)" by (simp add: a_def d(2) [symmetric])
    have "encode_loop num (int n) res = encode_loop (num div 58) (int n - 1) (res[n := a])"
      using False by (subst encode_loop.simps) (simp add: a_def word_neq_0_conv [symmetric])
    moreover have "uint (num div 58) < 58 ^ n" unfolding d using Suc.prems(1) by (intro div_less_of_less) simp_all
    moreover have "take n (take (Suc n) res) = take n (replicate (Suc n) (alphabet ! 0))" by (simp only: Suc.prems(2))
    then have "take n (res[n := a]) = replicate n (alphabet ! 0)" by (simp only: take_take take_replicate) simp
    ultimately have "encode_loop num (int n) res = Some (letters n (uint num div 58) @ drop n (res[n := a]))"
      using Suc.IH [of "num div 58" "res[n := a]"] Suc.prems(3) d by simp
    moreover have "drop n (res[n := a]) = a # drop (Suc n) res" using Suc.prems(3)
      by (simp add: drop_update_swap Cons_nth_drop_Suc [symmetric])
    ultimately show ?thesis by (simp add: letters_Suc a)
  qed
qed

lemma less_9_cases:
  fixes n :: nat
  assumes "1 \<le> n" "n \<le> 8"
  obtains "n = 1" | "n = 2" | "n = 3" | "n = 4" | "n = 5" | "n = 6" | "n = 7" | "n = 8"
  using assms by linarith

lemma encode_block_value:
  assumes "1 \<le> n" "n \<le> 8" "n \<le> length bs"
  shows "encode_block bs n (replicate (encoded_block_sizes ! n) (alphabet ! 0)) =
    Some (letters (encoded_block_sizes ! n) (of_digits 256 (map uint (take n bs))))"
proof -
  define N where "N = encoded_block_sizes ! n"
  define v where "v = uint_8be_to_64 bs n"
  have v: "uint v = of_digits 256 (map uint (take n bs))"
    using uint_8be_value [of "take n bs"] assms by (simp add: v_def uint_8be_to_64_def)
  have "uint v < 256 ^ n" using of_digits_range [OF uint_bytes_digits [of "take n bs"]] assms by (simp add: v)
  moreover have "(256 :: int) ^ n \<le> 58 ^ N" using assms(1,2) by (cases n rule: less_9_cases) (simp_all add: N_def encoded_block_sizes_def)
  ultimately have "encode_loop v (int N - 1) (replicate N (alphabet ! 0)) = Some (letters N (uint v))"
    using encode_loop_value [of v N "replicate N (alphabet ! 0)"] by simp
  then show ?thesis using assms unfolding encode_block_def v_def [symmetric] N_def [symmetric] v [symmetric] by simp
qed

definition letter_values :: "bytes \<Rightarrow> int list" where
  "letter_values cs = map reverse_alphabet cs"

definition all_letters :: "bytes \<Rightarrow> bool" where
  "all_letters cs \<longleftrightarrow> list_all (\<lambda>c. 0 \<le> reverse_alphabet c) cs"

lemma all_letters_digits: "all_letters cs \<Longrightarrow> list_all (\<lambda>d. 0 \<le> d \<and> d < 58) (letter_values cs)"
  using reverse_lookup(1) by (simp add: all_letters_def letter_values_def list_all_iff)

lemma mul128_split:
  obtains lo hi where "mul128 x y = Some (lo, hi)" "uint hi * 2 ^ 64 + uint lo = uint x * uint y"
  using mul128_value [of x y] by blast

lemma decode_loop_value:
  assumes "k + length cs \<le> 11"
  shows "decode_loop cs num (word_of_int (58 ^ k)) =
    (if all_letters cs \<and> uint num + 58 ^ k * of_digits 58 (letter_values (rev cs)) < 2 ^ 64
     then Some (word_of_int (uint num + 58 ^ k * of_digits 58 (letter_values (rev cs)))) else None)"
  using assms
proof (induction cs arbitrary: k num)
  case (Cons c cs)
  define d where "d = reverse_alphabet c"
  define V where "V = of_digits 58 (letter_values (rev cs))"
  have V: "of_digits 58 (letter_values (rev (c # cs))) = V * 58 + d" by (simp add: letter_values_def V_def d_def)
  show ?case
  proof (cases "0 \<le> d")
    case True
    have d: "0 \<le> d" "d < 58" using True reverse_lookup(1) [of c] by (simp_all add: d_def)
    have "(58 :: int) ^ k \<le> 58 ^ 10" using Cons.prems by (intro power_increasing) simp_all
    then have o: "uint (word_of_int (58 ^ k) :: u64) = 58 ^ k" unfolding uint_word_of_int by (intro mod_pos_pos_trivial) simp_all
    have dd: "uint (word_of_int d :: u64) = d" using d by (simp add: uint_word_of_int)
    obtain lo hi where m: "mul128 (word_of_int (58 ^ k)) (word_of_int d) = Some (lo, hi)" "uint hi * 2 ^ 64 + uint lo = 58 ^ k * d"
      using mul128_split [of "word_of_int (58 ^ k)" "word_of_int d"] unfolding o dd by blast
    show ?thesis
    proof (cases "uint num + 58 ^ k * d < 2 ^ 64")
      case fits: True
      have "uint hi = 0"
      proof (rule ccontr)
        assume "uint hi \<noteq> 0"
        then have "1 * 2 ^ 64 \<le> uint hi * 2 ^ 64" using uint_ge_0 [of hi] by (intro mult_right_mono) (linarith, simp)
        then show False using m(2) fits uint_ge_0 [of num] uint_ge_0 [of lo] by linarith
      qed
      then have hi: "hi = 0" and lo: "uint lo = 58 ^ k * d" using m(2) by (simp_all add: word_uint_eq_iff)
      have t: "uint (num + lo) = uint num + 58 ^ k * d" using fits lo by (simp add: uint_plus_if' lo)
      have "0 \<le> (58 :: int) ^ k * d" using d by simp
      then have "\<not> num + lo < num" by (simp add: word_less_def t)
      then have "decode_loop (c # cs) num (word_of_int (58 ^ k)) = decode_loop cs (num + lo) (word_of_int (58 ^ (k + 1)))"
        using True m(1) by (simp add: d_def [symmetric] hi mult.commute)
      also have "\<dots> = (if all_letters cs \<and> uint (num + lo) + 58 ^ (k + 1) * V < 2 ^ 64
          then Some (word_of_int (uint (num + lo) + 58 ^ (k + 1) * V)) else None)"
        unfolding V_def by (rule Cons.IH) (use Cons.prems in simp)
      also have "uint (num + lo) + 58 ^ (k + 1) * V = uint num + 58 ^ k * (V * 58 + d)" unfolding t by (simp add: algebra_simps)
      finally show ?thesis unfolding V using True by (simp add: all_letters_def d_def)
    next
      case False
      have "num + lo < num \<or> 0 \<noteq> hi"
      proof (rule ccontr)
        assume "\<not> ?thesis"
        then have h: "hi = 0" "\<not> num + lo < num" by auto
        then have "uint (num + lo) = uint num + uint lo" using uint_add_carry [of num lo] by simp
        then have "uint num + uint lo < 2 ^ 64" using uint_lt2p [of "num + lo"] by simp
        then show False using False m(2) h(1) by simp
      qed
      then have "decode_loop (c # cs) num (word_of_int (58 ^ k)) = None"
        using True m(1) by (auto simp: d_def [symmetric])
      moreover have "\<not> uint num + 58 ^ k * (V * 58 + d) < 2 ^ 64" if "all_letters cs"
      proof -
        have "all_letters (rev cs)" using that by (simp add: all_letters_def)
        from of_digits_range [OF all_letters_digits [OF this]] have "0 \<le> V" by (simp add: V_def)
        then have "58 ^ k * d \<le> 58 ^ k * (V * 58 + d)" by (intro mult_left_mono) simp_all
        then show ?thesis using False by linarith
      qed
      ultimately show ?thesis unfolding V by (auto simp: all_letters_def)
    qed
  next
    case False
    then show ?thesis by (simp add: d_def all_letters_def)
  qed
next
  case Nil
  then show ?case using uint_lt2p [of num] by (simp add: all_letters_def letter_values_def)
qed

lemma decode_block_value:
  assumes k: "1 \<le> k" "k \<le> 8" and l: "length cs = encoded_block_sizes ! k"
  defines "V \<equiv> of_digits 58 (letter_values cs)"
  shows "decode_block (cs @ ys) (encoded_block_sizes ! k) =
    (if all_letters cs \<and> V < 256 ^ k then Some (map word_of_int (to_digits 256 k V)) else None)"
proof -
  define N where "N = encoded_block_sizes ! k"
  have N: "1 \<le> N" "N \<le> 11" "decoded_block_sizes N = Some (int k)"
    using k by (cases k rule: less_9_cases; simp add: N_def encoded_block_sizes_def decoded_block_sizes_def decoded_table)+
  have pk: "(256 :: int) ^ k \<le> 256 ^ 8" using k by (intro power_increasing) simp_all
  have lp: "decode_loop (rev cs) 0 1 = (if all_letters cs \<and> V < 2 ^ 64 then Some (word_of_int V) else None)"
    using decode_loop_value [of 0 "rev cs" 0] N(2) l by (simp add: N_def V_def all_letters_def)
  have "decode_block (cs @ ys) N = (case decode_loop (rev cs) 0 1 of None \<Rightarrow> None | Some res_num \<Rightarrow>
      if int k < 8 \<and> push_bit (8 * k) 1 \<le> res_num then None else Some (uint_64_to_8be res_num k))"
    using N k l by (simp add: decode_block_def N_def split: option.split)
  also have "\<dots> = (if all_letters cs \<and> V < 256 ^ k then Some (map word_of_int (to_digits 256 k V)) else None)"
  proof (cases "all_letters cs \<and> V < 2 ^ 64")
    case True
    have "0 \<le> V" using of_digits_range [OF all_letters_digits [of cs]] True by (simp add: V_def)
    then have u: "uint (word_of_int V :: u64) = V" using True by (simp add: uint_word_of_int)
    have "push_bit (8 * k) 1 \<le> (word_of_int V :: u64) \<longleftrightarrow> 256 ^ k \<le> V" if "k < 8"
    proof -
      have "(256 :: int) ^ k \<le> 256 ^ 7" using that by (intro power_increasing) simp_all
      moreover have "(push_bit (8 * k) 1 :: u64) = word_of_int (256 ^ k)" by (simp add: push_bit_eq_mult power_mult)
      ultimately have "uint (push_bit (8 * k) 1 :: u64) = 256 ^ k"
        by (simp only: uint_word_of_int) (intro mod_pos_pos_trivial, simp_all)
      then show ?thesis by (simp add: word_le_def u)
    qed
    moreover have "k = 8" if "\<not> k < 8" using that k by simp
    ultimately show ?thesis using True k by (cases "k < 8") (auto simp: lp uint_64_to_8be_value u)
  next
    case False
    then have "\<not> (all_letters cs \<and> V < 256 ^ k)" using pk by auto
    then show ?thesis using False by (simp only: lp if_False option.case)
  qed
  finally show ?thesis by (simp only: N_def)
qed

lemma word_digits: "list_all (\<lambda>d. 0 \<le> d \<and> d < 256) ds \<Longrightarrow> map uint (map word_of_int ds :: bytes) = ds"
  by (induction ds) (simp_all add: uint_word_of_int)

lemma letters_inverse:
  assumes "0 \<le> v" "v < 58 ^ n"
  shows "all_letters (letters n v)" "of_digits 58 (letter_values (letters n v)) = v"
proof -
  have d: "list_all (\<lambda>d. 0 \<le> d \<and> d < 58) (to_digits 58 n v)" by (rule to_digits_range) simp
  then have "map (\<lambda>d. reverse_alphabet (alphabet ! nat d)) (to_digits 58 n v) = to_digits 58 n v"
    by (intro map_idI) (auto simp: alphabet_lookup list_all_iff nat_less_iff)
  then have v: "letter_values (letters n v) = to_digits 58 n v" by (simp add: letter_values_def letters_def comp_def)
  then show "of_digits 58 (letter_values (letters n v)) = v" using assms by (simp add: of_to_digits)
  show "all_letters (letters n v)" using v d by (simp add: all_letters_def letter_values_def list_all_iff) (metis list.set_map image_eqI)
qed

lemma letters_values: "all_letters cs \<Longrightarrow> letters (length cs) (of_digits 58 (letter_values cs)) = cs"
proof -
  assume a: "all_letters cs"
  then have "map (\<lambda>d. alphabet ! nat d) (letter_values cs) = cs"
    unfolding letter_values_def map_map by (intro map_idI) (simp add: all_letters_def list_all_iff reverse_lookup(2))
  moreover have "to_digits 58 (length cs) (of_digits 58 (letter_values cs)) = letter_values cs"
    using to_of_digits [OF all_letters_digits [OF a]] by (simp add: letter_values_def)
  ultimately show ?thesis by (simp only: letters_def)
qed

lemma sizes_bound: "1 \<le> k \<Longrightarrow> k \<le> 8 \<Longrightarrow> (256 :: int) ^ k \<le> 58 ^ (encoded_block_sizes ! k)"
  by (cases k rule: less_9_cases) (simp_all add: encoded_block_sizes_def)

lemma block_roundtrip:
  assumes "1 \<le> k" "k \<le> 8" "length bs = k"
  shows "\<exists>e. length e = encoded_block_sizes ! k \<and>
    (\<forall>ys. encode_block (bs @ ys) k (replicate (encoded_block_sizes ! k) (alphabet ! 0)) = Some e \<and>
      decode_block (e @ ys) (encoded_block_sizes ! k) = Some bs)"
proof -
  define v where "v = of_digits 256 (map uint bs)"
  define N where "N = encoded_block_sizes ! k"
  have v: "0 \<le> v" "v < 256 ^ k" using of_digits_range [OF uint_bytes_digits [of bs]] assms(3) by (simp_all add: v_def)
  then have "v < 58 ^ N" using sizes_bound [OF assms(1,2)] by (simp add: N_def)
  note i = letters_inverse [OF v(1) this]
  have l: "length (letters N v) = encoded_block_sizes ! k" by (simp add: letters_def N_def)
  have "to_digits 256 k v = map uint bs" using to_of_digits [OF uint_bytes_digits [of bs]] assms(3) by (simp add: v_def)
  then have "decode_block (letters N v @ ys) N = Some bs" for ys
    using decode_block_value [OF assms(1,2) l, of ys] i v(2) by (simp add: N_def [symmetric] map_idI)
  moreover have "encode_block (bs @ ys) k (replicate N (alphabet ! 0)) = Some (letters N v)" for ys
    using encode_block_value [of k "bs @ ys"] assms by (simp add: N_def v_def)
  ultimately show ?thesis using l unfolding N_def by blast
qed

lemma block_canonical:
  assumes "1 \<le> k" "k \<le> 8" "length e = encoded_block_sizes ! k" "decode_block (e @ ys) (encoded_block_sizes ! k) = Some bs"
  shows "length bs = k \<and> encode_block (bs @ zs) k (replicate (encoded_block_sizes ! k) (alphabet ! 0)) = Some e"
proof -
  define V where "V = of_digits 58 (letter_values e)"
  have a: "all_letters e" "V < 256 ^ k" "bs = map word_of_int (to_digits 256 k V)"
    using decode_block_value [OF assms(1-3), of ys] assms(4) by (auto simp: V_def split: if_splits)
  have "0 \<le> V" using of_digits_range [OF all_letters_digits [OF a(1)]] by (simp add: V_def)
  then have "of_digits 256 (map uint bs) = V"
    unfolding a(3) word_digits [OF to_digits_range [of 256 k V, simplified]] using a(2) by (simp add: of_to_digits)
  moreover have "letters (encoded_block_sizes ! k) V = e" using letters_values [OF a(1)] assms(3) by (simp add: V_def)
  ultimately show ?thesis using encode_block_value [of k "bs @ zs"] assms(1,2) a(3) by simp
qed

section \<open>Strings\<close>

lemma full_size: "encoded_block_sizes ! 8 = 11"
  by (simp add: encoded_block_sizes_def)

lemma full_roundtrip:
  assumes "8 * n \<le> length data"
  shows "\<exists>e. encode_full n data = Some e \<and> length e = 11 * n \<and> (\<forall>ys. decode_full n (e @ ys) = Some (take (8 * n) data))"
  using assms
proof (induction n arbitrary: data)
  case (Suc n)
  have l: "length (take 8 data) = 8" using Suc.prems by simp
  obtain b where b: "length b = 11" "\<And>ys. encode_block (take 8 data @ ys) 8 (replicate 11 (alphabet ! 0)) = Some b"
    "\<And>ys. decode_block (b @ ys) 11 = Some (take 8 data)"
    using block_roundtrip [OF _ _ l] by (auto simp: full_size)
  obtain e where e: "encode_full n (drop 8 data) = Some e" "length e = 11 * n" "\<And>ys. decode_full n (e @ ys) = Some (take (8 * n) (drop 8 data))"
    using Suc.IH [of "drop 8 data"] Suc.prems by fastforce
  have "encode_full (Suc n) data = Some (b @ e)" using b(2) [of "drop 8 data"] e(1) by simp
  moreover have "take (8 * Suc n) data = take 8 data @ take (8 * n) (drop 8 data)" by (simp add: take_add)
  ultimately show ?case using b e by auto
qed simp

lemma full_canonical:
  assumes "11 * n \<le> length enc" "decode_full n enc = Some d"
  shows "length d = 8 * n \<and> (\<forall>ys. encode_full n (d @ ys) = Some (take (11 * n) enc))"
  using assms
proof (induction n arbitrary: enc d)
  case (Suc n)
  obtain b r where b: "decode_block enc 11 = Some b" "decode_full n (drop 11 enc) = Some r" "d = b @ r"
    using Suc.prems(2) by (auto simp: bind_eq_Some_conv)
  have l: "length (take 11 enc) = encoded_block_sizes ! 8" using Suc.prems(1) by (simp add: full_size)
  have "decode_block (take 11 enc @ drop 11 enc) (encoded_block_sizes ! 8) = Some b" using b(1) by (simp add: full_size)
  from block_canonical [OF _ _ l this] have c: "length b = 8" "\<And>zs. encode_block (b @ zs) 8 (replicate 11 (alphabet ! 0)) = Some (take 11 enc)"
    by (simp_all add: full_size)
  have "length r = 8 * n" "\<And>ys. encode_full n (r @ ys) = Some (take (11 * n) (drop 11 enc))"
    using Suc.IH [OF _ b(2)] Suc.prems(1) by simp_all
  moreover have "take (11 * Suc n) enc = take 11 enc @ take (11 * n) (drop 11 enc)" by (simp add: take_add)
  ultimately show ?case using b(3) c by simp
qed simp

lemma sizes_table:
  assumes "1 \<le> k" "k \<le> 7"
  shows "0 < encoded_block_sizes ! k" "encoded_block_sizes ! k < 11" "decoded_block_sizes (encoded_block_sizes ! k) = Some (int k)"
proof -
  have "k \<le> 8" using assms by simp
  with assms(1) show "0 < encoded_block_sizes ! k" "encoded_block_sizes ! k < 11" "decoded_block_sizes (encoded_block_sizes ! k) = Some (int k)"
    by (cases k rule: less_9_cases; use assms(2) in \<open>simp add: encoded_block_sizes_def decoded_block_sizes_def decoded_table\<close>)+
qed

lemma encode_decode: "\<exists>e. encode data = Some e \<and> decode e = Some data"
proof (cases "data = []")
  case False
  define n l where nl: "n = length data div 8" "l = length data mod 8"
  have d: "length data = 8 * n + l" "l < 8" by (simp_all add: nl)
  obtain e where e: "encode_full n data = Some e" "length e = 11 * n" "\<And>ys. decode_full n (e @ ys) = Some (take (8 * n) data)"
    using full_roundtrip [of n data] d by auto
  show ?thesis
  proof (cases "l = 0")
    case True
    then have "encode data = Some e" using False e(1) by (simp add: encode_def Let_def nl)
    moreover have "e \<noteq> []" using False d True e(2) by auto
    moreover have "decoded_block_sizes 0 = Some 0" by (simp add: decoded_block_sizes_def decoded_table)
    ultimately have "decode e = Some (take (8 * n) data)" using e(2) e(3) [of "[]"] by (simp add: decode_def)
    with \<open>encode data = Some e\<close> d True show ?thesis by simp
  next
    case l: False
    define m where "m = encoded_block_sizes ! l"
    have m: "0 < m" "m < 11" "decoded_block_sizes m = Some (int l)" using sizes_table [of l] d(2) l by (simp_all add: m_def)
    have ld: "length (drop (8 * n) data) = l" using d by simp
    obtain b where b: "length b = m" "encode_block (drop (8 * n) data) l (replicate m (alphabet ! 0)) = Some b"
      "decode_block b m = Some (drop (8 * n) data)"
      using block_roundtrip [OF _ _ ld] l d(2) unfolding m_def by (metis One_nat_def Suc_leI append_Nil2 less_imp_le_nat neq0_conv)
    have "encode data = Some (e @ b)" using False e(1) b(2) l by (simp add: encode_def Let_def nl [symmetric] m_def mult.commute)
    moreover have "decode (e @ b) = Some (take (8 * n) data @ drop (8 * n) data)"
      using e(2,3) b m by (auto simp: decode_def mult.commute)
    ultimately show ?thesis by simp
  qed
qed (simp add: encode_def decode_def)

lemma decode_encode:
  assumes "decode enc = Some data"
  shows "encode data = Some enc"
proof (cases "enc = []")
  case False
  define n l where nl: "n = length enc div 11" "l = length enc mod 11"
  have d: "length enc = 11 * n + l" "l < 11" by (simp_all add: nl)
  obtain k r b where k: "decoded_block_sizes l = Some k" "0 \<le> k" and r: "decode_full n enc = Some r"
    and b: "(if 0 < l then decode_block (drop (n * 11) enc) l else Some []) = Some b" "data = r @ b"
    using assms False by (auto simp: decode_def Let_def nl bind_eq_Some_conv split: if_splits)
  have f: "length r = 8 * n" "\<And>ys. encode_full n (r @ ys) = Some (take (11 * n) enc)"
    using full_canonical [OF _ r] d by auto
  show ?thesis
  proof (cases "l = 0")
    case True
    then have "data = r" "data \<noteq> []" using b f(1) False d by auto
    then show ?thesis using f(1) f(2) [of "[]"] True d by (simp add: encode_def)
  next
    case l: False
    have "\<exists>j. 1 \<le> j \<and> j \<le> 7 \<and> l = encoded_block_sizes ! j"
      using k l d(2) by (auto simp: decoded_block_sizes_def decoded_table nth_Cons' encoded_block_sizes_def split: if_splits)
    then obtain j where j: "1 \<le> j" "j \<le> 7" "l = encoded_block_sizes ! j" by blast
    have "length (drop (n * 11) enc) = encoded_block_sizes ! j" using d j(3) by simp
    moreover have "decode_block (drop (n * 11) enc @ []) (encoded_block_sizes ! j) = Some b" using b(1) l j(3) by simp
    ultimately have c: "length b = j" "encode_block b j (replicate l (alphabet ! 0)) = Some (drop (n * 11) enc)"
      using block_canonical [of j "drop (n * 11) enc" "[]" b "[]"] j by simp_all
    have "length data = 8 * n + j" using b(2) f(1) c(1) by simp
    then have "length data div 8 = n" "length data mod 8 = j" "data \<noteq> []" using j(1,2) by auto
    then show ?thesis using f(1) f(2) [of b] c(2) b(2) j(1,3) by (auto simp: encode_def mult.commute)
  qed
qed (use assms in \<open>simp add: encode_def decode_def\<close>)

section \<open>The properties\<close>

text \<open>
  C8.  Base 58 is a bijection between byte strings and the strings it accepts: every byte string is
  encoded, never writing outside of the result, and decoded back; and a string that decodes is the
  encoding of the result.
\<close>

theorem base58_roundtrip:
  "(\<exists>enc. encode data = Some enc \<and> decode enc = Some data) \<and>
   (decode s = Some d \<longrightarrow> encode d = Some s)"
  using encode_decode decode_encode by blast

theorem base58_roundtrip_witness:
  "decode [0x31, 0x32] = Some [1] \<and> encode [1] = Some [0x31, 0x32]"
proof -
  have "decode [0x31, 0x32] = Some [1]"
    using decode_block_value [of 1 "[0x31, 0x32]" "[]"]
    by (simp add: decode_def decoded_block_sizes_def decoded_table encoded_block_sizes_def all_letters_def letter_values_def
        reverse_alphabet_is reverse_table_def of_digits_def flip: numeral_2_eq_2)
  with base58_roundtrip [of "[]" "[0x31, 0x32]" "[1]"] show ?thesis by blast
qed

text \<open>
  C12.  Addresses round-trip: \<^verbatim>\<open>decode_addr\<close> recovers the tag and the data that \<^verbatim>\<open>encode_addr\<close> was given.  An
  accepted address is the encoding of some bytes followed by the first four bytes of their hash, and
  these bytes are the tag as a varint followed by the data, unless each of them announces another
  one and the data is empty.
\<close>

theorem address_roundtrip:
  "(\<exists>a. encode_addr tag data = Some a \<and> decode_addr a = Some (tag, data)) \<and>
   (decode_addr s = Some (t, d) \<longrightarrow>
     (\<exists>buf. encode (buf @ take 4 (cn_fast_hash buf)) = Some s \<and>
       (buf = write_varint t @ d \<or> d = [] \<and> unfinished buf)))"
proof (intro conjI impI)
  define buf where "buf = write_varint tag @ data"
  obtain a where a: "encode (buf @ take 4 (cn_fast_hash buf)) = Some a" "decode a = Some (buf @ take 4 (cn_fast_hash buf))"
    using encode_decode by blast
  have w: "read_varint 64 buf = Read (length (write_varint tag)) tag data" "0 < length (write_varint tag)"
    using read_back(1) [of tag data] read_back(2) [of tag] by (simp_all add: buf_def)
  then have "0 < length buf" by (simp add: buf_def)
  then have "decode_addr a = Some (tag, data)"
    using w by (simp add: decode_addr_def a(2) cn_fast_hash_returns(3) Let_def) (simp add: buf_def)
  then show "\<exists>a. encode_addr tag data = Some a \<and> decode_addr a = Some (tag, data)"
    using a(1) by (simp add: encode_addr_def buf_def)
  assume "decode_addr s = Some (t, d)"
  then obtain x n rest where x: "decode s = Some x" "4 < length x" "take 4 (cn_fast_hash (take (length x - 4) x)) = drop (length x - 4) x"
    "read_varint 64 (take (length x - 4) x) = Read n t rest" "d = drop n (take (length x - 4) x)"
    by (auto simp: decode_addr_def bind_eq_Some_conv Let_def split: if_splits varint_result.splits)
  define b where "b = take (length x - 4) x"
  have "encode (b @ take 4 (cn_fast_hash b)) = Some s"
    unfolding b_def x(3) append_take_drop_id by (rule decode_encode [OF x(1)])
  moreover have "b = write_varint t @ d \<or> d = [] \<and> unfinished b"
    using read_inverse [OF x(4)] x(5) by (auto simp: b_def [symmetric])
  ultimately show "\<exists>buf. encode (buf @ take 4 (cn_fast_hash buf)) = Some s \<and> (buf = write_varint t @ d \<or> d = [] \<and> unfinished buf)"
    by blast
qed

theorem address_roundtrip_witness:
  "\<exists>a buf. encode_addr 18 [1, 2, 3] = Some a \<and> encode (buf @ take 4 (cn_fast_hash buf)) = Some a"
proof -
  obtain a where a: "encode_addr 18 [1, 2, 3] = Some a" "decode_addr a = Some (18, [1, 2, 3])"
    using address_roundtrip [of 18 "[1, 2, 3]"] by blast
  with address_roundtrip [of 18 "[1, 2, 3]" a 18 "[1, 2, 3]"] show ?thesis by blast
qed

end
