(* ===== verification/Tree_Hash.thy ===== *)
theory Tree_Hash
  imports Keccak "HOL-Library.Monad_Syntax"
begin

text \<open>
  \<^verbatim>\<open>src/src/crypto/tree-hash.c\<close>: the Merkle root of the hashes of a block.  An array of hashes is a list of
  byte strings; failed assertions are \<^const>\<open>None\<close>.
\<close>

section \<open>Operations\<close>

text \<open>The loop \<^verbatim>\<open>while (pow < count) pow <<= 1\<close>; \<^const>\<open>None\<close> when it never ends.\<close>

partial_function (option) pow_loop :: "nat \<Rightarrow> nat \<Rightarrow> nat option" where
  "pow_loop count pow = (if pow < count then pow_loop count (pow * 2) else Some pow)"

definition tree_hash_cnt :: "nat \<Rightarrow> nat option" where
  "tree_hash_cnt count =
    (if count \<ge> 3 \<and> count \<le> 0x10000000 then do { pow \<leftarrow> pow_loop count 2; Some (pow div 2) } else None)"

text \<open>\<^verbatim>\<open>for (j = first; j < cnt; i += 2, ++j) cn_fast_hash(src[i], 64, ints[j])\<close>; returns \<^verbatim>\<open>i\<close> as well.\<close>

definition hash_pairs :: "bytes list \<Rightarrow> nat \<Rightarrow> nat \<Rightarrow> bytes list \<Rightarrow> nat \<times> bytes list" where
  "hash_pairs hashes first cnt ints =
    fold (\<lambda>j (i, ints). (i + 2, ints[j := cn_fast_hash (hashes ! i @ hashes ! (i + 1))])) [first..<cnt] (first, ints)"

text \<open>One round \<^verbatim>\<open>for (i = 0, j = 0; j < cnt; i += 2, ++j) cn_fast_hash(ints[i], 64, ints[j])\<close> in place.\<close>

definition hash_in_place :: "nat \<Rightarrow> bytes list \<Rightarrow> bytes list" where
  "hash_in_place cnt ints =
    snd (fold (\<lambda>j (i, ints). (i + 2, ints[j := cn_fast_hash (ints ! i @ ints ! (i + 1))])) [0..<cnt] (0, ints))"

function reduce :: "nat \<Rightarrow> bytes list \<Rightarrow> bytes list" where
  "reduce cnt ints = (if cnt > 2 then reduce (cnt div 2) (hash_in_place (cnt div 2) ints) else ints)"
  by auto
termination by (relation "measure fst") auto

declare reduce.simps [simp del]

definition tree_hash :: "bytes list \<Rightarrow> bytes option" where
  "tree_hash hashes =
    (let count = length hashes
     in if count = 0 then None
        else if count = 1 then Some (hashes ! 0)
        else if count = 2 then Some (cn_fast_hash (hashes ! 0 @ hashes ! 1))
        else do {
          cnt \<leftarrow> tree_hash_cnt count;
          let ints = replicate cnt (replicate 32 0);
              ints = take (2 * cnt - count) hashes @ drop (2 * cnt - count) ints;
              (i, ints) = hash_pairs hashes (2 * cnt - count) cnt ints
          in if i \<noteq> count then None
             else let ints = reduce cnt ints
                  in Some (cn_fast_hash (ints ! 0 @ ints ! 1)) })"

section \<open>The tree\<close>

text \<open>The parents of a row of nodes, and the root above a row of $2^k$ nodes.\<close>

fun parents :: "bytes list \<Rightarrow> bytes list" where
  "parents (a # b # xs) = cn_fast_hash (a @ b) # parents xs"
| "parents xs = []"

primrec root :: "nat \<Rightarrow> bytes list \<Rightarrow> bytes" where
  "root 0 xs = xs ! 0"
| "root (Suc k) xs = root k (parents xs)"

lemma length_parents: "length (parents xs) = length xs div 2"
  by (induction xs rule: parents.induct) simp_all

lemma nth_parents: "2 * j + 1 < length xs \<Longrightarrow> parents xs ! j = cn_fast_hash (xs ! (2 * j) @ xs ! (2 * j + 1))"
proof (induction xs arbitrary: j rule: parents.induct)
  case (1 a b xs)
  then show ?case by (cases j) simp_all
qed simp_all

lemma pow_loop_value:
  assumes "0 < pow"
  shows "\<exists>k. pow_loop count pow = Some (pow * 2 ^ k) \<and> count \<le> pow * 2 ^ k \<and> (k = 0 \<or> pow * 2 ^ k < 2 * count)"
  using assms
proof (induction "count - pow" arbitrary: pow rule: less_induct)
  case less
  show ?case
  proof (cases "pow < count")
    case True
    with less.prems have "count - pow * 2 < count - pow" by simp
    from less.hyps [OF this] less.prems obtain k where
      k: "pow_loop count (pow * 2) = Some (pow * 2 * 2 ^ k)" "count \<le> pow * 2 * 2 ^ k" "k = 0 \<or> pow * 2 * 2 ^ k < 2 * count" by auto
    have "pow_loop count pow = Some (pow * 2 ^ Suc k)" using k(1) True by (simp add: pow_loop.simps [of count pow] mult.assoc)
    moreover have "pow * 2 ^ Suc k < 2 * count" using k(3) True by (auto simp: mult.assoc)
    ultimately show ?thesis using k(2) by (intro exI [of _ "Suc k"]) (simp add: mult.assoc)
  next
    case False
    then show ?thesis by (intro exI [of _ 0]) (simp add: pow_loop.simps)
  qed
qed

lemma tree_hash_cnt_value:
  assumes "3 \<le> count" "count \<le> 0x10000000"
  shows "\<exists>k. tree_hash_cnt count = Some (2 ^ Suc k) \<and> 2 ^ Suc k < count \<and> count \<le> 2 * 2 ^ Suc k"
proof -
  obtain k where k: "pow_loop count 2 = Some (2 * 2 ^ k)" "count \<le> 2 * 2 ^ k" "k = 0 \<or> 2 * 2 ^ k < 2 * count"
    using pow_loop_value [of 2 count] by auto
  have "k \<noteq> 0" using k(2) assms(1) by (cases k) auto
  then obtain j where "k = Suc j" by (cases k) auto
  then show ?thesis using k assms by (intro exI [of _ j]) (simp add: tree_hash_cnt_def)
qed

lemma fold_step2:
  "fold (\<lambda>j (i, ints). (i + 2, f j i ints)) [m..<n] (a, s) =
    (a + 2 * (n - m), fold (\<lambda>j ints. f j (a + 2 * (j - m)) ints) [m..<n] s)"
proof (induction n)
  case (Suc n)
  then show ?case by (cases "m \<le> n") (simp_all add: Suc_diff_le)
qed simp

lemma fold_set: "i < length s \<Longrightarrow> fold (\<lambda>j ints. ints[j := g j]) [m..<n] s ! i = (if m \<le> i \<and> i < n then g i else s ! i)"
  "length (fold (\<lambda>j ints. ints[j := g j]) [m..<n] s) = length s"
proof -
  show l: "length (fold (\<lambda>j ints. ints[j := g j]) [m..<n] s) = length s" for n
    by (induction n) simp_all
  show "i < length s \<Longrightarrow> fold (\<lambda>j ints. ints[j := g j]) [m..<n] s ! i = (if m \<le> i \<and> i < n then g i else s ! i)"
  proof (induction n)
    case (Suc n)
    then show ?case by (cases "m \<le> n") (auto simp: nth_list_update l less_Suc_eq)
  qed simp
qed

lemma hash_pairs_value:
  assumes "length ints = cnt" "first \<le> cnt" "length hashes = first + 2 * (cnt - first)" "take first ints = take first hashes"
  shows "hash_pairs hashes first cnt ints = (length hashes, take first hashes @ parents (drop first hashes))"
proof -
  define g where "g j = cn_fast_hash (hashes ! (first + 2 * (j - first)) @ hashes ! (first + 2 * (j - first) + 1))" for j
  have "hash_pairs hashes first cnt ints = (first + 2 * (cnt - first), fold (\<lambda>j ints. ints[j := g j]) [first..<cnt] ints)"
    unfolding hash_pairs_def g_def by (rule fold_step2)
  moreover have "fold (\<lambda>j ints. ints[j := g j]) [first..<cnt] ints = take first hashes @ parents (drop first hashes)"
  proof (rule nth_equalityI)
    show "length (fold (\<lambda>j ints. ints[j := g j]) [first..<cnt] ints) = length (take first hashes @ parents (drop first hashes))"
      using assms by (simp add: fold_set length_parents)
    fix i assume "i < length (fold (\<lambda>j ints. ints[j := g j]) [first..<cnt] ints)"
    then have i: "i < cnt" using assms by (simp add: fold_set)
    show "fold (\<lambda>j ints. ints[j := g j]) [first..<cnt] ints ! i = (take first hashes @ parents (drop first hashes)) ! i"
    proof (cases "i < first")
      case True
      then have "ints ! i = hashes ! i" using arg_cong [OF assms(4), of "\<lambda>l. l ! i"] by simp
      then show ?thesis using True i assms by (simp add: fold_set nth_append)
    next
      case False
      have "2 * (i - first) + 1 < length (drop first hashes)" using False i assms by simp
      from nth_parents [OF this] show ?thesis using False i assms by (simp add: fold_set nth_append g_def)
    qed
  qed
  ultimately show ?thesis using assms by simp
qed

lemma hash_in_place_value:
  assumes "2 * cnt \<le> length ints"
  shows "take cnt (hash_in_place cnt ints) = parents (take (2 * cnt) ints) \<and> length (hash_in_place cnt ints) = length ints"
proof -
  define h where "h n = fold (\<lambda>j ints. ints[j := cn_fast_hash (ints ! (2 * j) @ ints ! (2 * j + 1))]) [0..<n] ints" for n
  have e: "hash_in_place cnt ints = h cnt" unfolding hash_in_place_def h_def by (subst fold_step2) simp
  have "length (h n) = length ints \<and> (\<forall>i. h n ! i = (if i < n then cn_fast_hash (ints ! (2 * i) @ ints ! (2 * i + 1)) else ints ! i))"
    if "n \<le> cnt" for n
    using that
  proof (induction n)
    case (Suc n)
    have "h (Suc n) = (h n)[n := cn_fast_hash (h n ! (2 * n) @ h n ! (2 * n + 1))]" by (simp add: h_def)
    then show ?case using Suc assms by (auto simp: nth_list_update less_Suc_eq)
  qed (simp add: h_def)
  then have h: "length (h cnt) = length ints" "\<And>i. i < cnt \<Longrightarrow> h cnt ! i = cn_fast_hash (ints ! (2 * i) @ ints ! (2 * i + 1))" by simp_all
  have "take cnt (h cnt) = parents (take (2 * cnt) ints)"
    by (rule nth_equalityI) (use assms h in \<open>simp_all add: length_parents nth_parents\<close>)
  then show ?thesis using h(1) e by simp
qed

lemma reduce_value:
  assumes "2 ^ Suc k \<le> length ints"
  shows "cn_fast_hash (reduce (2 ^ Suc k) ints ! 0 @ reduce (2 ^ Suc k) ints ! 1) = root (Suc k) (take (2 ^ Suc k) ints)"
  using assms
proof (induction k arbitrary: ints)
  case 0
  then obtain a b xs where "ints = a # b # xs" by (cases ints rule: parents.cases) auto
  then show ?case by (simp add: reduce.simps)
next
  case (Suc k)
  have r: "reduce (2 ^ Suc (Suc k)) ints = reduce (2 ^ Suc k) (hash_in_place (2 ^ Suc k) ints)"
    using power_strict_increasing [of 1 "Suc (Suc k)" "2 :: nat"] by (subst reduce.simps) simp
  note h = hash_in_place_value [of "2 ^ Suc k" ints]
  have "2 * 2 ^ Suc k \<le> length ints" using Suc.prems by simp
  with h have t: "take (2 ^ Suc k) (hash_in_place (2 ^ Suc k) ints) = parents (take (2 ^ Suc (Suc k)) ints)"
    "2 ^ Suc k \<le> length (hash_in_place (2 ^ Suc k) ints)" by simp_all
  show ?case unfolding r using Suc.IH [OF t(2)] t(1) by simp
qed

section \<open>Collisions\<close>

text \<open>
  The strings that are hashed on the way to a root.  Two different rows of hashes of the same length
  with the same root make two different of these strings collide.
\<close>

fun joined :: "bytes list \<Rightarrow> bytes list" where
  "joined (a # b # xs) = (a @ b) # joined xs"
| "joined xs = []"

primrec joined_above :: "nat \<Rightarrow> bytes list \<Rightarrow> bytes list" where
  "joined_above 0 xs = []"
| "joined_above (Suc k) xs = joined xs @ joined_above k (parents xs)"

definition collide :: "bytes list \<Rightarrow> bytes list \<Rightarrow> bool" where
  "collide A B \<longleftrightarrow> (\<exists>x\<in>set A. \<exists>y\<in>set B. x \<noteq> y \<and> cn_fast_hash x = cn_fast_hash y)"

lemma collide_mono: "collide A B \<Longrightarrow> set A \<subseteq> set A' \<Longrightarrow> set B \<subseteq> set B' \<Longrightarrow> collide A' B'"
  unfolding collide_def by blast

lemma collide_intros:
  "collide A B \<Longrightarrow> collide (A @ A') (B @ B')" "collide A' B' \<Longrightarrow> collide (A @ A') (B @ B')" "collide A B \<Longrightarrow> collide (a # A) (b # B)"
  by (erule collide_mono; auto)+

definition hashes_ok :: "bytes list \<Rightarrow> bool" where
  "hashes_ok xs \<longleftrightarrow> list_all (\<lambda>h. length h = 32) xs"

lemma hashes_ok_parents: "hashes_ok (parents xs)"
  by (induction xs rule: parents.induct) (simp_all add: hashes_ok_def cn_fast_hash_returns(3))

lemma parents_inject:
  assumes "hashes_ok xs" "hashes_ok ys" "length xs = length ys" "even (length xs)" "parents xs = parents ys"
  shows "xs = ys \<or> collide (joined xs) (joined ys)"
  using assms
proof (induction xs arbitrary: ys rule: parents.induct)
  case (1 a b xs)
  then obtain c d zs where y: "ys = c # d # zs" by (cases ys rule: parents.cases) auto
  have p: "cn_fast_hash (a @ b) = cn_fast_hash (c @ d)" "parents xs = parents zs" using "1.prems" y by simp_all
  have "xs = zs \<or> collide (joined xs) (joined zs)" using "1.IH" [of zs] "1.prems" y p by (simp add: hashes_ok_def)
  moreover have "collide (a # xs) (c # zs)" if "cn_fast_hash a = cn_fast_hash c" "a \<noteq> c" for a c xs zs
    using that by (auto simp: collide_def)
  moreover have "a = c \<and> b = d" if "a @ b = c @ d" using that "1.prems" y by (simp add: hashes_ok_def)
  ultimately show ?case using p(1) y by (cases "a @ b = c @ d") (auto intro: collide_intros)
qed auto

lemma root_inject:
  assumes "hashes_ok xs" "hashes_ok ys" "length xs = 2 ^ k" "length ys = 2 ^ k" "root k xs = root k ys"
  shows "xs = ys \<or> collide (joined_above k xs) (joined_above k ys)"
  using assms
proof (induction k arbitrary: xs ys)
  case 0
  then show ?case by (auto simp: length_Suc_conv)
next
  case (Suc k)
  have "parents xs = parents ys \<or> collide (joined_above k (parents xs)) (joined_above k (parents ys))"
    by (rule Suc.IH) (use Suc.prems in \<open>simp_all add: hashes_ok_parents length_parents\<close>)
  moreover have "xs = ys \<or> collide (joined xs) (joined ys)" if "parents xs = parents ys"
    using parents_inject [OF _ _ _ _ that] Suc.prems by simp
  ultimately show ?case by (auto intro: collide_intros)
qed

section \<open>The properties\<close>

lemma tree_hash_value:
  assumes "tree_hash_cnt (length hashes) = Some (2 ^ Suc k)" "3 \<le> length hashes" "2 ^ Suc k < length hashes" "length hashes \<le> 2 * 2 ^ Suc k"
  defines "n \<equiv> 2 * 2 ^ Suc k - length hashes"
  shows "tree_hash hashes = Some (root (Suc k) (take n hashes @ parents (drop n hashes)))"
proof -
  define c :: nat where "c = 2 ^ Suc k"
  have nc: "n = 2 * c - length hashes" by (simp add: n_def c_def)
  define ints where "ints = take n hashes @ drop n (replicate c (replicate 32 0))"
  have n: "n \<le> c" "n + 2 * (c - n) = length hashes" using assms(3,4) [folded c_def] by (simp_all add: nc)
  then have p: "hash_pairs hashes n c ints = (length hashes, take n hashes @ parents (drop n hashes))"
    by (intro hash_pairs_value) (simp_all add: ints_def)
  have l: "length (take n hashes @ parents (drop n hashes)) = c" using n by (simp add: length_parents)
  then have r: "cn_fast_hash (reduce c (take n hashes @ parents (drop n hashes)) ! 0 @ reduce c (take n hashes @ parents (drop n hashes)) ! 1) =
      root (Suc k) (take n hashes @ parents (drop n hashes))"
    using reduce_value [of k "take n hashes @ parents (drop n hashes)", folded c_def] by (simp only: take_all order_refl)
  have c: "tree_hash_cnt (length hashes) = Some c" by (simp only: c_def assms(1))
  have "length hashes \<noteq> 0" "length hashes \<noteq> 1" "length hashes \<noteq> 2" using assms(2) by linarith+
  then show ?thesis
    unfolding tree_hash_def Let_def c Option.bind.simps nc [symmetric] ints_def [symmetric] p prod.case r by simp
qed

text \<open>All strings that \<^verbatim>\<open>tree_hash\<close> hashes.\<close>

definition tree_inputs :: "bytes list \<Rightarrow> bytes list" where
  "tree_inputs hashes =
    (if length hashes = 1 then []
     else if length hashes = 2 then joined hashes
     else case tree_hash_cnt (length hashes) of None \<Rightarrow> []
       | Some cnt \<Rightarrow> let n = 2 * cnt - length hashes
                     in joined (drop n hashes) @ joined_above cnt (take n hashes @ parents (drop n hashes)))"

lemma joined_above_mono: "k \<le> n \<Longrightarrow> set (joined_above k xs) \<subseteq> set (joined_above n xs)"
proof (induction k arbitrary: n xs)
  case (Suc k)
  then show ?case by (cases n) fastforce+
qed simp

lemma tree_inputs_value:
  assumes "tree_hash_cnt (length hashes) = Some (2 ^ Suc k)" "3 \<le> length hashes"
  defines "n \<equiv> 2 * 2 ^ Suc k - length hashes"
  shows "set (joined (drop n hashes)) \<subseteq> set (tree_inputs hashes)"
    "set (joined_above (Suc k) (take n hashes @ parents (drop n hashes))) \<subseteq> set (tree_inputs hashes)"
proof -
  have "Suc k \<le> 2 ^ Suc k" using less_exp [of "Suc k"] by (rule less_imp_le)
  note m = joined_above_mono [OF this, of "take n hashes @ parents (drop n hashes)"]
  have e: "tree_inputs hashes = joined (drop n hashes) @ joined_above (2 ^ Suc k) (take n hashes @ parents (drop n hashes))"
    using assms(1,2) by (simp add: tree_inputs_def n_def Let_def del: joined_above.simps)
  show "set (joined (drop n hashes)) \<subseteq> set (tree_inputs hashes)"
    "set (joined_above (Suc k) (take n hashes @ parents (drop n hashes))) \<subseteq> set (tree_inputs hashes)"
    unfolding e using m by auto
qed

lemma tree_hash_binding:
  assumes "3 \<le> length xs" "length xs \<le> 0x10000000" "length ys = length xs" "hashes_ok xs" "hashes_ok ys" "tree_hash xs = tree_hash ys"
  shows "xs = ys \<or> collide (tree_inputs xs) (tree_inputs ys)"
proof -
  obtain k where k: "tree_hash_cnt (length xs) = Some (2 ^ Suc k)" "2 ^ Suc k < length xs" "length xs \<le> 2 * 2 ^ Suc k"
    using tree_hash_cnt_value [OF assms(1,2)] by blast
  define n where "n = 2 * 2 ^ Suc k - length xs"
  define row where "row zs = take n zs @ parents (drop n zs)" for zs
  have v: "tree_hash zs = Some (root (Suc k) (row zs))" if "length zs = length xs" for zs
    using tree_hash_value [of zs k] that assms(1) k unfolding row_def n_def by simp
  have l: "length (row zs) = 2 ^ Suc k" if "length zs = length xs" for zs
    using that k(2,3) unfolding row_def by (simp add: length_parents n_def)
  have o: "hashes_ok (row zs)" if "hashes_ok zs" for zs
    using that hashes_ok_parents [of "drop n zs"] by (auto simp: row_def hashes_ok_def list_all_iff dest: in_set_takeD)
  have rt: "root (Suc k) (row xs) = root (Suc k) (row ys)" using v [of xs] v [of ys] assms(3,6) by simp
  have h: "set (joined (drop n zs)) \<subseteq> set (tree_inputs zs)" "set (joined_above (Suc k) (row zs)) \<subseteq> set (tree_inputs zs)"
    if "length zs = length xs" for zs
    using tree_inputs_value [of zs k, unfolded that, OF k(1) assms(1)] unfolding row_def n_def by (blast, blast)
  from root_inject [OF o [OF assms(4)] o [OF assms(5)] l [OF refl] l [OF assms(3)] rt]
  consider "row xs = row ys" | "collide (joined_above (Suc k) (row xs)) (joined_above (Suc k) (row ys))" by blast
  then show ?thesis
  proof cases
    case 1
    have "length (take n xs) = length (take n ys)" using assms(3) by simp
    with 1 have e: "take n xs = take n ys" "parents (drop n xs) = parents (drop n ys)" by (simp_all add: row_def)
    have "even (length (drop n xs))" using k(2,3) by (simp add: n_def)
    then have "drop n xs = drop n ys \<or> collide (joined (drop n xs)) (joined (drop n ys))"
      using e(2) assms(3-5) by (intro parents_inject) (auto simp: hashes_ok_def list_all_iff dest: in_set_dropD)
    then show ?thesis
    proof
      assume "drop n xs = drop n ys"
      with e(1) have "xs = ys" by (metis append_take_drop_id)
      then show ?thesis ..
    next
      assume "collide (joined (drop n xs)) (joined (drop n ys))"
      then show ?thesis using collide_mono [OF _ h(1) [OF refl] h(1) [OF assms(3)]] by blast
    qed
  next
    case 2
    then show ?thesis using collide_mono [OF _ h(2) [OF refl] h(2) [OF assms(3)]] by blast
  qed
qed

text \<open>
  C9.  \<^verbatim>\<open>tree_hash\<close> computes a Merkle root: for 3 to $2^{28}$ hashes there is a power of two $c = 2^{k + 1}$ below their
  number and at least half of it; the last hashes are joined in pairs so that $c$ nodes remain, and
  the result is the root of the full binary tree above these.  The in-place rounds never read a
  node they have already overwritten.
\<close>

theorem tree_hash_merkle:
  assumes "3 \<le> length hashes" "length hashes \<le> 0x10000000"
  shows "\<exists>k. 2 ^ Suc k < length hashes \<and> length hashes \<le> 2 * 2 ^ Suc k \<and>
    (let n = 2 * 2 ^ Suc k - length hashes
     in tree_hash hashes = Some (root (Suc k) (take n hashes @ parents (drop n hashes))))"
proof -
  obtain k where k: "tree_hash_cnt (length hashes) = Some (2 ^ Suc k)" "2 ^ Suc k < length hashes" "length hashes \<le> 2 * 2 ^ Suc k"
    using tree_hash_cnt_value [OF assms] by blast
  from tree_hash_value [OF k(1) assms(1) k(2,3)] k(2,3) show ?thesis unfolding Let_def by blast
qed

theorem tree_hash_merkle_witness:
  "\<exists>k. 2 ^ Suc k < (3 :: nat) \<and> (3 :: nat) \<le> 2 * 2 ^ Suc k \<and>
    (let n = 2 * 2 ^ Suc k - 3
     in tree_hash (replicate 3 (cn_fast_hash [])) =
       Some (root (Suc k) (take n (replicate 3 (cn_fast_hash [])) @ parents (drop n (replicate 3 (cn_fast_hash []))))))"
  using tree_hash_merkle [of "replicate 3 (cn_fast_hash [])"] unfolding length_replicate by simp



text \<open>
  C34.  \<^verbatim>\<open>tree_hash_cnt\<close> ends for every number of hashes it admits, and returns the largest power of two that
  is strictly smaller; for a power of two itself that is half of it, where the comment in the code
  says that it is the power of two of the rounded-down logarithm.
\<close>

theorem tree_hash_cnt_returns:
  assumes "3 \<le> count" "count \<le> 0x10000000"
  shows "\<exists>k. tree_hash_cnt count = Some (2 ^ Suc k) \<and> 2 ^ Suc k < count \<and> count \<le> 2 * 2 ^ Suc k"
  by (rule tree_hash_cnt_value [OF assms])

theorem tree_hash_cnt_returns_witness:
  "tree_hash_cnt 8 = Some 4"
proof -
  obtain k where k: "tree_hash_cnt 8 = Some (2 ^ Suc k)" "2 ^ Suc k < (8 :: nat)" "8 \<le> 2 * (2 :: nat) ^ Suc k"
    using tree_hash_cnt_returns [of 8] by auto
  have "k = 1"
  proof (rule ccontr)
    assume "k \<noteq> 1"
    then consider "k = 0" | "2 \<le> k" by linarith
    then show False using k(2,3) power_increasing [of 2 k "2 :: nat"] by cases auto
  qed
  then show ?thesis using k(1) by simp
qed

end
