(* ===== verification/Difficulty.thy ===== *)
theory Difficulty
  imports Keccak "HOL-Library.Monad_Syntax"
begin

text \<open>
  \<^verbatim>\<open>src/src/cryptonote_basic/difficulty.cpp\<close>: the test of a hash against a difficulty and the difficulty of the
  next block.  Unsigned 64-bit numbers are words; a failed assertion and a division by zero are \<^const>\<open>None\<close>.
\<close>

section \<open>Testing a hash\<close>

text \<open>The two versions of \<^verbatim>\<open>mul\<close>, for x86-64 and for other machines.\<close>

definition mul :: "u64 \<Rightarrow> u64 \<Rightarrow> (u64 \<times> u64) option" where
  "mul a b = mul128 a b"

definition mul_portable :: "u64 \<Rightarrow> u64 \<Rightarrow> u64 \<times> u64" where
  "mul_portable a b =
    (let aLow = a AND 0xFFFFFFFF;
         aHigh = drop_bit 32 a;
         bLow = b AND 0xFFFFFFFF;
         bHigh = drop_bit 32 b;
         res = aLow * bLow;
         lowRes1 = res AND 0xFFFFFFFF;
         carry = drop_bit 32 res;
         res = aHigh * bLow + carry;
         highResHigh1 = drop_bit 32 res;
         highResLow1 = res AND 0xFFFFFFFF;
         res = aLow * bHigh;
         lowRes2 = res AND 0xFFFFFFFF;
         carry = drop_bit 32 res;
         res = aHigh * bHigh + carry;
         highResHigh2 = drop_bit 32 res;
         highResLow2 = res AND 0xFFFFFFFF;
         r = highResLow1 + lowRes2;
         carry = drop_bit 32 r;
         low = push_bit 32 r OR lowRes1;
         r = highResHigh1 + highResLow2 + carry;
         d3 = r AND 0xFFFFFFFF;
         carry = drop_bit 32 r;
         r = highResHigh2 + carry;
         high = d3 OR push_bit 32 r
     in (low, high))"

definition cadd :: "u64 \<Rightarrow> u64 \<Rightarrow> bool" where
  "cadd a b \<longleftrightarrow> a + b < a"

definition cadc :: "u64 \<Rightarrow> u64 \<Rightarrow> bool \<Rightarrow> bool" where
  "cadc a b c \<longleftrightarrow> a + b < a \<or> (c \<and> a + b = - 1)"

definition check_hash :: "bytes \<Rightarrow> u64 \<Rightarrow> bool option" where
  "check_hash hash difficulty = do {
     (top, high) \<leftarrow> mul (load64 (drop 24 hash)) difficulty;
     if high \<noteq> 0 then Some False
     else do {
       (low, cur) \<leftarrow> mul (load64 hash) difficulty;
       (low, high) \<leftarrow> mul (load64 (drop 8 hash)) difficulty;
       let carry = cadd cur low;
           cur = high
       in do {
         (low, high) \<leftarrow> mul (load64 (drop 16 hash)) difficulty;
         let carry = cadc cur low carry;
             carry = cadc high top carry
         in Some (\<not> carry) } } }"

section \<open>The next difficulty\<close>

definition DIFFICULTY_WINDOW :: nat where "DIFFICULTY_WINDOW = 720"
definition DIFFICULTY_CUT :: nat where "DIFFICULTY_CUT = 60"
definition DIFFICULTY_WINDOW_V2 :: nat where "DIFFICULTY_WINDOW_V2 = 70"
definition DIFFICULTY_BLOCKS_COUNT_V12 :: nat where "DIFFICULTY_BLOCKS_COUNT_V12 = DIFFICULTY_WINDOW_V2"

text \<open>\<^verbatim>\<open>std::vector::resize\<close>.\<close>

definition resize :: "nat \<Rightarrow> u64 list \<Rightarrow> u64 list" where
  "resize n xs = take n xs @ replicate (n - length xs) 0"

text \<open>
  The common part of the first two versions: the time span and the work of the window, after
  the outliers have been cut off; \<open>Inl\<close> is an early return.
\<close>

definition window_span :: "u64 list \<Rightarrow> u64 list \<Rightarrow> (u64 + u64 \<times> u64) option" where
  "window_span timestamps cumulative_difficulties =
    (let (timestamps, cumulative_difficulties) =
           (if length timestamps > DIFFICULTY_WINDOW
            then (resize DIFFICULTY_WINDOW timestamps, resize DIFFICULTY_WINDOW cumulative_difficulties)
            else (timestamps, cumulative_difficulties));
         len = length timestamps
     in if len \<noteq> length cumulative_difficulties then None
        else if len \<le> 1 then Some (Inl 1)
        else if \<not> len \<le> DIFFICULTY_WINDOW then None
        else
          let timestamps = sort timestamps;
              (cut_begin, cut_end) =
                (if len \<le> DIFFICULTY_WINDOW - 2 * DIFFICULTY_CUT then (0, len)
                 else let cut_begin = (len - (DIFFICULTY_WINDOW - 2 * DIFFICULTY_CUT) + 1) div 2
                      in (cut_begin, cut_begin + (DIFFICULTY_WINDOW - 2 * DIFFICULTY_CUT)))
          in if \<not> (cut_begin + 2 \<le> cut_end \<and> cut_end \<le> len) then None
             else
               let time_span = timestamps ! (cut_end - 1) - timestamps ! cut_begin;
                   time_span = (if time_span = 0 then 1 else time_span);
                   total_work = cumulative_difficulties ! (cut_end - 1) - cumulative_difficulties ! cut_begin
               in if total_work > 0 then Some (Inr (time_span, total_work)) else None)"

definition next_difficulty :: "u64 list \<Rightarrow> u64 list \<Rightarrow> u64 \<Rightarrow> u64 option" where
  "next_difficulty timestamps cumulative_difficulties target_seconds = do {
     w \<leftarrow> window_span timestamps cumulative_difficulties;
     case w of
       Inl d \<Rightarrow> Some d
     | Inr (time_span, total_work) \<Rightarrow> do {
         (low, high) \<leftarrow> mul total_work target_seconds;
         Some ((low + time_span - 1) div time_span) } }"

definition next_difficulty_v2 :: "u64 list \<Rightarrow> u64 list \<Rightarrow> u64 \<Rightarrow> u64 option" where
  "next_difficulty_v2 timestamps cumulative_difficulties target_seconds = do {
     w \<leftarrow> window_span timestamps cumulative_difficulties;
     case w of
       Inl d \<Rightarrow> Some d
     | Inr (time_span, total_work) \<Rightarrow> do {
         (low, high) \<leftarrow> mul total_work target_seconds;
         if high \<noteq> 0 \<or> low + time_span - 1 < low then Some 1
         else Some ((low + time_span - 1) div time_span) } }"

text \<open>
  \<^verbatim>\<open>median\<close> of \<^verbatim>\<open>src/contrib/epee/include/misc_language.h\<close> at 64-bit unsigned numbers.
\<close>

definition median :: "u64 list \<Rightarrow> u64" where
  "median v =
    (if v = [] then 0
     else if length v = 1 then v ! 0
     else let n = length v div 2;
              v = sort v
          in if length v mod 2 \<noteq> 0 then v ! n else (v ! (n - 1) + v ! n) div 2)"

text \<open>
  The part of \<^verbatim>\<open>next_difficulty_v4\<close> that may shorten the window.  The third loop starts at
  \<^verbatim>\<open>DIFFICULTY_BLOCKS_COUNT_V12*-10\<close>, a negative \<^verbatim>\<open>int\<close> converted to an unsigned number.
\<close>

definition v4_window :: "u64 list \<Rightarrow> u64 list \<Rightarrow> u64 list \<times> u64 list" where
  "v4_window timestamps cumulative_difficulties =
    (let (timestamps, cumulative_difficulties) =
           (if length timestamps > DIFFICULTY_BLOCKS_COUNT_V12
            then (resize DIFFICULTY_BLOCKS_COUNT_V12 timestamps, resize DIFFICULTY_BLOCKS_COUNT_V12 cumulative_difficulties)
            else (timestamps, cumulative_difficulties));
         length_cumul_diff = length cumulative_difficulties
     in if length_cumul_diff \<ge> DIFFICULTY_BLOCKS_COUNT_V12 - 1 then
          let first_diffs = map (\<lambda>i. cumulative_difficulties ! i) [0..<DIFFICULTY_BLOCKS_COUNT_V12 - 30];
              mid_diffs = map (\<lambda>i. cumulative_difficulties ! i) [DIFFICULTY_BLOCKS_COUNT_V12 - 30..<DIFFICULTY_BLOCKS_COUNT_V12 - 10];
              last_diffs = map (\<lambda>i. cumulative_difficulties ! i)
                [nat ((int DIFFICULTY_BLOCKS_COUNT_V12 * - 10) mod 2 ^ 64)..<DIFFICULTY_BLOCKS_COUNT_V12];
              median_first = median first_diffs;
              median_mid = median mid_diffs;
              median_last = median last_diffs
          in if median_first > median_mid * 6 div 5 \<and> median_mid > median_last * 10 div 9
             then (resize 25 timestamps, resize 25 cumulative_difficulties)
             else if median_mid > median_first * 6 div 5 \<and> median_last > median_mid * 10 div 9
             then (resize 25 timestamps, resize 25 cumulative_difficulties)
             else (timestamps, cumulative_difficulties)
        else (timestamps, cumulative_difficulties))"

record v4_state =
  previous_max :: u64
  weighted_timespans :: u64
  nbShortTsLastNBlocks :: int
  lastTimeWasShort :: bool
  lastShortTimeInARaw :: int
  nbLongTsLastNBlocks :: int

text \<open>One round of the loop over the timestamps.\<close>

definition v4_step :: "u64 list \<Rightarrow> u64 \<Rightarrow> nat \<Rightarrow> v4_state \<Rightarrow> v4_state" where
  "v4_step timestamps target_seconds i s =
    (let len = length timestamps;
         max_timestamp = (if timestamps ! i > previous_max s then timestamps ! i else previous_max s);
         timespan = max_timestamp - previous_max s;
         timespan = (if timespan = 0 then 1 else if timespan > 11 * target_seconds then 11 * target_seconds else timespan);
         s = (if int i \<ge> (int len - 7) mod 2 ^ 64 then
                let s = (if timespan < 30
                         then s\<lparr>nbShortTsLastNBlocks := nbShortTsLastNBlocks s + 1, lastTimeWasShort := True,
                                 lastShortTimeInARaw := lastShortTimeInARaw s + 1\<rparr>
                         else s\<lparr>lastTimeWasShort := False, lastShortTimeInARaw := 0\<rparr>)
                in if timespan > 100 then s\<lparr>nbLongTsLastNBlocks := nbLongTsLastNBlocks s + 1\<rparr> else s
              else s)
     in s\<lparr>weighted_timespans := weighted_timespans s + of_nat i * timespan, previous_max := max_timestamp\<rparr>)"

text \<open>The adjustment for many short time spans.\<close>

definition v4_adjust :: "v4_state \<Rightarrow> u64" where
  "v4_adjust s =
    (let w = weighted_timespans s;
         row = (\<lambda>n w. if lastShortTimeInARaw s = n then w * 7 div 8 else w)
     in if lastTimeWasShort s then
          if nbShortTsLastNBlocks s \<ge> 7 then w * 1 div 2
          else if nbShortTsLastNBlocks s = 6 then row 6 (w * 3 div 5)
          else if nbShortTsLastNBlocks s = 5 then row 5 (w * 4 div 5)
          else if nbShortTsLastNBlocks s = 4 then row 4 (w * 9 div 10)
          else if nbShortTsLastNBlocks s = 3 then row 3 (w * 11 div 12)
          else w
        else w)"

definition next_difficulty_v4 :: "u64 list \<Rightarrow> u64 list \<Rightarrow> u64 \<Rightarrow> u64 option" where
  "next_difficulty_v4 timestamps cumulative_difficulties target_seconds =
    (let (timestamps, cumulative_difficulties) = v4_window timestamps cumulative_difficulties;
         len = length timestamps
     in if len \<noteq> length cumulative_difficulties then None
        else if len \<le> 1 then Some 1
        else
          let s = fold (v4_step timestamps target_seconds) [1..<len]
                    \<lparr>previous_max = timestamps ! 0, weighted_timespans = 0, nbShortTsLastNBlocks = 0,
                     lastTimeWasShort = False, lastShortTimeInARaw = 0, nbLongTsLastNBlocks = 0\<rparr>;
              weighted_timespans = v4_adjust s;
              target = 99 * (((of_nat len + 1) div 2) * target_seconds) div 100;
              minimum_timespan = target_seconds * of_nat len div 2;
              weighted_timespans = (if weighted_timespans < minimum_timespan then minimum_timespan else weighted_timespans);
              total_work = last cumulative_difficulties - hd cumulative_difficulties
          in if \<not> total_work > 0 then None
             else do {
               (low, high) \<leftarrow> mul total_work target;
               if high \<noteq> 0 then Some 0
               else if weighted_timespans = 0 then None
               else Some (low div weighted_timespans) })"

section \<open>Multiplication\<close>

lemma mul_values:
  obtains lo hi where "mul x y = Some (lo, hi)" "uint hi * 2 ^ 64 + uint lo = uint x * uint y"
  using mul128_value [of x y] unfolding mul_def by blast

lemma split_unique:
  fixes a b c d :: int
  assumes "a * 2 ^ 64 + b = c * 2 ^ 64 + d" "0 \<le> b" "b < 2 ^ 64" "0 \<le> d" "d < 2 ^ 64"
  shows "a = c" "b = d"
proof -
  have "(a * 2 ^ 64 + b) div 2 ^ 64 = a" "(c * 2 ^ 64 + d) div 2 ^ 64 = c" using assms(2-) by simp_all
  then show "a = c" using assms(1) by simp
  then show "b = d" using assms(1) by simp
qed

lemma or_push32: "uint x < 2 ^ 32 \<Longrightarrow> uint y < 2 ^ 32 \<Longrightarrow> uint (y OR push_bit 32 x) = uint x * 2 ^ 32 + uint y" for x y :: u64
  using uint_or_push32 [of y x] by (simp only: or.commute)

lemma uint_add_small: "uint x + uint y < 2 ^ 64 \<Longrightarrow> uint (x + y) = uint x + uint y" for x y :: u64
  by (simp add: uint_plus_if')

lemma product_bound: "uint x < 2 ^ 32 \<Longrightarrow> uint y < 2 ^ 32 \<Longrightarrow> uint x * uint y \<le> (2 ^ 32 - 1) * (2 ^ 32 - 1)" for x y :: u64
  by (intro mult_mono) simp_all

lemma mul_portable_value:
  obtains lo hi where "mul_portable x y = (lo, hi)" "uint hi * 2 ^ 64 + uint lo = uint x * uint y"
proof -
  define a b c d where abcd: "a = lo_dword x" "b = hi_dword x" "c = lo_dword y" "d = hi_dword y"
  note w = uint_dwords(4) [of x, folded abcd] uint_dwords(3) [of x, folded abcd] uint_dwords(4) [of y, folded abcd] uint_dwords(3) [of y, folded abcd]
  note B = product_bound
  define p where "p = a * c"
  have p: "uint p = uint a * uint c" unfolding p_def using w by (intro uint_mult_small)
  define q where "q = b * c + hi_dword p"
  have q: "uint q = uint b * uint c + uint (hi_dword p)"
    unfolding q_def using B [OF w(2,3)] uint_dwords(3) [of p] by (subst uint_add_small) (simp_all add: uint_mult_small [OF w(2,3)])
  define r where "r = a * d"
  have r: "uint r = uint a * uint d" unfolding r_def using w by (intro uint_mult_small)
  define s where "s = b * d + hi_dword r"
  have s: "uint s = uint b * uint d + uint (hi_dword r)"
    unfolding s_def using B [OF w(2,4)] uint_dwords(3) [of r] by (subst uint_add_small) (simp_all add: uint_mult_small [OF w(2,4)])
  define t where "t = lo_dword q + lo_dword r"
  have t: "uint t = uint (lo_dword q) + uint (lo_dword r)"
    unfolding t_def using uint_dwords(4) [of q] uint_dwords(4) [of r] by (intro uint_add_small) simp
  define lo where "lo = push_bit 32 t OR lo_dword p"
  define u where "u = hi_dword q + lo_dword s + hi_dword t"
  have u: "uint u = uint (hi_dword q) + uint (lo_dword s) + uint (hi_dword t)"
    unfolding u_def using uint_dwords(3) [of q] uint_dwords(4) [of s] uint_dwords(3) [of t]
    by (subst uint_add_small; subst uint_add_small) simp_all
  define v where "v = hi_dword s + hi_dword u"
  have v: "uint v = uint (hi_dword s) + uint (hi_dword u)"
    unfolding v_def using uint_dwords(3) [of s] uint_dwords(3) [of u] by (intro uint_add_small) simp
  define hi where "hi = lo_dword u OR push_bit 32 v"
  have e: "mul_portable x y = (lo, hi)"
    unfolding mul_portable_def Let_def lo_def hi_def v_def u_def t_def s_def r_def q_def p_def abcd hi_dword_def lo_dword_def ..
  have "push_bit 32 t = push_bit 32 (lo_dword t)"
    by (rule word_uint_eqI) (simp only: uint_push32, simp add: uint_dwords(2))
  then have lo: "uint lo = uint (lo_dword t) * 2 ^ 32 + uint (lo_dword p)"
    unfolding lo_def using uint_dwords(4) [of t] uint_dwords(4) [of p] by (simp only: uint_or_push32)
  have x: "uint x * uint y = uint b * uint d * 2 ^ 64 + (uint b * uint c + uint a * uint d) * 2 ^ 32 + uint a * uint c"
    unfolding uint_dwords(5) [of x] uint_dwords(5) [of y] abcd by (simp add: algebra_simps)
  have vv: "uint v * 2 ^ 96 + uint (lo_dword u) * 2 ^ 64 + uint lo = uint x * uint y"
    unfolding x lo using p q r s t u v uint_dwords(5) [of p] uint_dwords(5) [of q] uint_dwords(5) [of r] uint_dwords(5) [of s]
      uint_dwords(5) [of t] uint_dwords(5) [of u] by (simp add: algebra_simps)
  have "uint x * uint y < 2 ^ 64 * 2 ^ 64" using uint_lt2p [of x] uint_lt2p [of y] by (intro mult_strict_mono) simp_all
  moreover have "0 \<le> uint (lo_dword u) * 2 ^ 64" by simp
  moreover have "(2 :: int) ^ 64 * 2 ^ 64 = 2 ^ 32 * 2 ^ 96" by simp
  ultimately have "uint v * 2 ^ 96 < 2 ^ 32 * 2 ^ 96" using vv uint_ge_0 [of lo] by linarith
  then have "uint v < 2 ^ 32" by simp
  then have "uint hi = uint v * 2 ^ 32 + uint (lo_dword u)"
    unfolding hi_def using uint_dwords(4) [of u] by (rule or_push32)
  then have "uint hi * 2 ^ 64 + uint lo = uint x * uint y" using vv by simp
  with e show thesis by (rule that)
qed

section \<open>The test\<close>

lemma cadd_value: "cadd a b \<longleftrightarrow> 2 ^ 64 \<le> uint a + uint b"
proof -
  have "uint (a + b) < uint a \<longleftrightarrow> 2 ^ 64 \<le> uint a + uint b"
    using uint_lt2p [of a] uint_lt2p [of b] uint_ge_0 [of b] by (auto simp: uint_plus_if')
  then show ?thesis by (simp add: cadd_def word_less_def)
qed

lemma cadc_value: "cadc a b c \<longleftrightarrow> 2 ^ 64 \<le> uint a + uint b + of_bool c"
proof -
  have m: "uint (- 1 :: u64) = 2 ^ 64 - 1" by (simp add: unsigned_minus_1_eq_mask mask_eq_exp_minus_1)
  have "a + b = - 1 \<longleftrightarrow> uint (a + b) = 2 ^ 64 - 1" unfolding word_uint_eq_iff [of "a + b"] m ..
  then have "cadc a b c \<longleftrightarrow> 2 ^ 64 \<le> uint a + uint b \<or> c \<and> uint (a + b) = 2 ^ 64 - 1"
    using cadd_value [of a b] by (simp add: cadc_def cadd_def)
  also have "\<dots> \<longleftrightarrow> 2 ^ 64 \<le> uint a + uint b + of_bool c"
    using uint_lt2p [of a] uint_lt2p [of b] by (auto simp: uint_plus_if')
  finally show ?thesis .
qed

lemma load64_value: "8 \<le> length s \<Longrightarrow> uint (load64 s) = le_val (take 8 s)"
  using le_val_less [of "take 8 s"] by (simp add: load64_def uint_word_of_int)

lemma le_val_words:
  assumes "length hash = 32"
  shows "le_val hash = uint (load64 hash) + 2 ^ 64 * uint (load64 (drop 8 hash)) + 2 ^ 128 * uint (load64 (drop 16 hash)) +
    2 ^ 192 * uint (load64 (drop 24 hash))"
proof -
  have s: "le_val xs = le_val (take 8 xs) + 2 ^ 64 * le_val (drop 8 xs)" if "8 \<le> length xs" for xs
    using le_val_split [of xs 8] that by (simp add: min_def)
  have t: "take 8 (drop 24 hash) = drop 24 hash" using assms by simp
  have "le_val hash = le_val (take 8 hash) + 2 ^ 64 * (le_val (take 8 (drop 8 hash)) + 2 ^ 64 * (le_val (take 8 (drop 16 hash)) +
      2 ^ 64 * le_val (drop 24 hash)))"
    using s [of hash] s [of "drop 8 hash"] s [of "drop 16 hash"] assms by simp
  then show ?thesis using assms by (simp add: load64_value t)
qed

lemma fits_iff: "0 \<le> r \<Longrightarrow> r < M \<Longrightarrow> 0 \<le> t \<Longrightarrow> r + M * t < M \<longleftrightarrow> t = 0" for r M t :: int
proof -
  assume r: "0 \<le> r" "r < M" "0 \<le> t"
  show ?thesis
  proof (cases "t = 0")
    case False
    then have "M * 1 \<le> M * t" using r by (intro mult_left_mono) linarith+
    then have "\<not> r + M * t < M" using r by linarith
    then show ?thesis using False by simp
  qed (use r in simp)
qed

lemma check_hash_value:
  assumes "length hash = 32"
  shows "check_hash hash difficulty = Some (le_val hash * uint difficulty < 2 ^ 256)"
proof -
  define h0 h1 h2 h3 where h: "h0 = load64 hash" "h1 = load64 (drop 8 hash)" "h2 = load64 (drop 16 hash)" "h3 = load64 (drop 24 hash)"
  define D where "D = uint difficulty"
  obtain top high where m3: "mul h3 difficulty = Some (top, high)" "uint high * 2 ^ 64 + uint top = uint h3 * D" unfolding D_def by (rule mul_values)
  obtain l0 c0 where m0: "mul h0 difficulty = Some (l0, c0)" "uint c0 * 2 ^ 64 + uint l0 = uint h0 * D" unfolding D_def by (rule mul_values)
  obtain l1 c1 where m1: "mul h1 difficulty = Some (l1, c1)" "uint c1 * 2 ^ 64 + uint l1 = uint h1 * D" unfolding D_def by (rule mul_values)
  obtain l2 c2 where m2: "mul h2 difficulty = Some (l2, c2)" "uint c2 * 2 ^ 64 + uint l2 = uint h2 * D" unfolding D_def by (rule mul_values)
  define P where "P = le_val hash * D"
  have P: "P = uint l0 + 2 ^ 64 * (uint c0 + uint l1) + 2 ^ 128 * (uint c1 + uint l2) + 2 ^ 192 * (uint c2 + uint top) + 2 ^ 256 * uint high"
    using m0(2) m1(2) m2(2) m3(2) unfolding P_def le_val_words [OF assms] h [symmetric] by (simp add: algebra_simps)
  define k1 k2 k3 where k: "k1 = cadd c0 l1" "k2 = cadc c1 l2 k1" "k3 = cadc c2 top k2"
  have r: "0 \<le> uint w" "uint w < 2 ^ 64" for w :: u64 using uint_lt2p [of w] by simp_all
  define s0 s1 s2 where s: "s0 = uint c0 + uint l1 - 2 ^ 64 * of_bool k1" "s1 = uint c1 + uint l2 + of_bool k1 - 2 ^ 64 * of_bool k2"
    "s2 = uint c2 + uint top + of_bool k2 - 2 ^ 64 * of_bool k3"
  have s0: "0 \<le> s0" "s0 < 2 ^ 64" and s1: "0 \<le> s1" "s1 < 2 ^ 64" and s2: "0 \<le> s2" "s2 < 2 ^ 64"
    using r [of c0] r [of l1] r [of c1] r [of l2] r [of c2] r [of top] unfolding s k
    by (auto simp: cadd_value cadc_value)
  have "P = (uint l0 + 2 ^ 64 * s0 + 2 ^ 128 * s1 + 2 ^ 192 * s2) + 2 ^ 256 * (of_bool k3 + uint high)"
    unfolding P s by (simp add: algebra_simps)
  note e = this
  have b: "0 \<le> uint l0 + 2 ^ 64 * s0 + 2 ^ 128 * s1 + 2 ^ 192 * s2" "uint l0 + 2 ^ 64 * s0 + 2 ^ 128 * s1 + 2 ^ 192 * s2 < 2 ^ 256"
    using r [of l0] s0 s1 s2 by simp_all
  have "P < 2 ^ 256 \<longleftrightarrow> of_bool k3 + uint high = 0"
    unfolding e by (rule fits_iff [OF b]) (use r(1) [of high] in simp)
  also have "\<dots> \<longleftrightarrow> \<not> k3 \<and> uint high = 0" by (cases k3) (simp_all add: add_nonneg_eq_0_iff)
  finally have iff: "P < 2 ^ 256 \<longleftrightarrow> \<not> k3 \<and> high = 0" by (simp add: word_uint_eq_iff)
  have "check_hash hash difficulty = Some (high = 0 \<and> \<not> k3)"
    by (simp add: check_hash_def h [symmetric] m0(1) m1(1) m2(1) m3(1) k)
  with iff show ?thesis by (auto simp: P_def D_def)
qed

lemma mul_eq_portable: "mul a b = Some (mul_portable a b)"
proof -
  obtain lo hi where m: "mul a b = Some (lo, hi)" "uint hi * 2 ^ 64 + uint lo = uint a * uint b" by (rule mul_values)
  obtain lo' hi' where p: "mul_portable a b = (lo', hi')" "uint hi' * 2 ^ 64 + uint lo' = uint a * uint b"
    by (rule mul_portable_value)
  have "uint hi * 2 ^ 64 + uint lo = uint hi' * 2 ^ 64 + uint lo'" using m(2) p(2) by simp
  note u = split_unique [OF this]
  have "uint hi = uint hi'" "uint lo = uint lo'"
    using u unsigned_less [of lo, where 'a = int] unsigned_less [of lo', where 'a = int] by simp_all
  then show ?thesis using m(1) p(1) by (simp add: word_uint_eq_iff)
qed

section \<open>The window\<close>

definition increasing :: "u64 list \<Rightarrow> bool" where
  "increasing xs \<longleftrightarrow> sorted_wrt (<) xs"

lemma length_resize [simp]: "length (resize n xs) = n"
  by (simp add: resize_def)

lemma increasing_resize: "increasing xs \<Longrightarrow> n \<le> length xs \<Longrightarrow> increasing (resize n xs)"
  by (simp add: increasing_def resize_def sorted_wrt_take)

lemma word_diff_pos: "a < b \<Longrightarrow> 0 < b - a" for a b :: u64
  by (simp add: word_neq_0_conv [symmetric])

lemma increasing_diff: "increasing xs \<Longrightarrow> i < j \<Longrightarrow> j < length xs \<Longrightarrow> 0 < xs ! j - xs ! i"
  by (rule word_diff_pos) (simp add: increasing_def sorted_wrt_nth_less)

lemma window_span_value:
  assumes "length cds = length ts" "2 \<le> length ts" "increasing cds"
  shows "\<exists>S W. window_span ts cds = Some (Inr (S, W)) \<and> 0 < S \<and> 0 < W"
proof -
  define n where "n = min 720 (length ts)"
  define ts' where "ts' = (if length ts > 720 then resize 720 ts else ts)"
  define cds' where "cds' = (if length ts > 720 then resize 720 cds else cds)"
  have l: "length ts' = n" "length cds' = n" "2 \<le> n" "n \<le> 720" "increasing cds'"
    using assms increasing_resize [OF assms(3), of 720] by (auto simp: n_def ts'_def cds'_def)
  define b where "b = (if n \<le> 600 then 0 else (n - 600 + 1) div 2)"
  define e where "e = (if n \<le> 600 then n else b + 600)"
  have c: "b + 2 \<le> e" "e \<le> n" using l(3,4) by (auto simp: b_def e_def)
  have w: "0 < cds' ! (e - 1) - cds' ! b" using c l by (intro increasing_diff) auto
  have p: "(if length ts > 720 then (resize 720 ts, resize 720 cds) else (ts, cds)) = (ts', cds')"
    by (simp add: ts'_def cds'_def)
  have "window_span ts cds = Some (Inr (let d = sort ts' ! (e - 1) - sort ts' ! b in if d = 0 then 1 else d,
      cds' ! (e - 1) - cds' ! b))"
  proof (cases "n \<le> 600")
    case True
    then have be: "b = 0" "e = n" by (simp_all add: b_def e_def)
    show ?thesis unfolding window_span_def DIFFICULTY_WINDOW_def DIFFICULTY_CUT_def p
      using True l c w by (simp add: Let_def be)
  next
    case False
    then have be: "b = Suc (n - 600) div 2" "e = Suc (n - 600) div 2 + 600" by (simp_all add: b_def e_def)
    show ?thesis unfolding window_span_def DIFFICULTY_WINDOW_def DIFFICULTY_CUT_def p
      using False l c w by (simp add: Let_def be)
  qed
  then show ?thesis using w by (auto simp: Let_def word_gt_0)
qed

section \<open>The next difficulty\<close>

definition no_overflow :: "u64 \<Rightarrow> u64 \<Rightarrow> u64 \<Rightarrow> bool" where
  "no_overflow S W T \<longleftrightarrow> uint W * uint T + uint S - 1 < 2 ^ 64"

lemma quotient_value:
  assumes v: "uint high * 2 ^ 64 + uint low = uint W * uint T" and "0 < S"
  shows "(high \<noteq> 0 \<or> low + S - 1 < low) \<longleftrightarrow> \<not> no_overflow S W T"
    and "no_overflow S W T \<Longrightarrow> uint ((low + S - 1) div S) = (uint W * uint T + uint S - 1) div uint S"
proof -
  have S: "1 \<le> uint S" using assms(2) by (simp add: word_less_def int_one_le_iff_zero_less)
  have b: "uint low < 2 ^ 64" "0 \<le> uint low" "uint S < 2 ^ 64" "0 \<le> uint high"
    using unsigned_less [of low, where 'a = int] unsigned_less [of S, where 'a = int] by simp_all
  have s: "uint (S - 1) = uint S - 1" using S uint_sub_if' [of S 1] by simp
  have c: "uint (low + S - 1) = (if uint low + uint S - 1 < 2 ^ 64 then uint low + uint S - 1 else uint low + uint S - 1 - 2 ^ 64)"
    using uint_plus_if' [of low "S - 1"] s by (simp add: algebra_simps)
  have h: "high \<noteq> 0 \<longleftrightarrow> 1 \<le> uint high" unfolding word_uint_eq_iff using b(4) by (simp, linarith)
  have "(low + S - 1 < low) \<longleftrightarrow> \<not> uint low + uint S - 1 < 2 ^ 64"
    using c b S by (simp add: word_less_def)
  moreover have h1: "\<not> no_overflow S W T" if "1 \<le> uint high"
  proof -
    have "1 * 2 ^ 64 \<le> uint high * 2 ^ 64" using that by (intro mult_right_mono) simp_all
    then have "2 ^ 64 \<le> uint high * 2 ^ 64 + uint low + uint S - 1" using b(2) S by linarith
    then show ?thesis unfolding no_overflow_def v [symmetric] by linarith
  qed
  moreover have h0: "uint high = 0 \<Longrightarrow> no_overflow S W T \<longleftrightarrow> uint low + uint S - 1 < 2 ^ 64"
    unfolding no_overflow_def v [symmetric] by simp
  ultimately show "(high \<noteq> 0 \<or> low + S - 1 < low) \<longleftrightarrow> \<not> no_overflow S W T"
    using h by (cases "high = 0") auto
  show "uint ((low + S - 1) div S) = (uint W * uint T + uint S - 1) div uint S" if f: "no_overflow S W T"
  proof -
    have "uint high = 0" using h1 f b(4) by linarith
    then show ?thesis using h0 f c v by (simp add: uint_div_distrib)
  qed
qed

text \<open>
  C22.  On at least two blocks with strictly increasing cumulative difficulties
  \<^verbatim>\<open>next_difficulty_v2\<close> passes all its assertions: the window has a positive time span
  \<^term>\<open>S\<close> and positive work \<^term>\<open>W\<close>, the result is the work per target time
  \<^term>\<open>W * T / S\<close> rounded up when the computation no_overflow into 64 bits and 1 otherwise, and
  \<^verbatim>\<open>next_difficulty\<close> computes the same number whenever it no_overflow.
\<close>

theorem next_difficulty_v2_correct:
  assumes "length cds = length ts" "2 \<le> length ts" "increasing cds"
  shows "\<exists>S W. window_span ts cds = Some (Inr (S, W)) \<and> 0 < S \<and> 0 < W
    \<and> (if no_overflow S W T
       then \<exists>d. next_difficulty_v2 ts cds T = Some d \<and> next_difficulty ts cds T = Some d
              \<and> uint d = (uint W * uint T + uint S - 1) div uint S
       else next_difficulty_v2 ts cds T = Some 1)"
proof -
  obtain S W where sw: "window_span ts cds = Some (Inr (S, W))" "0 < S" "0 < W"
    using window_span_value [OF assms] by blast
  obtain low high where m: "mul W T = Some (low, high)" and v: "uint high * 2 ^ 64 + uint low = uint W * uint T"
    by (rule mul_values)
  have "next_difficulty ts cds T = Some ((low + S - 1) div S)" by (simp add: next_difficulty_def sw m)
  moreover have "next_difficulty_v2 ts cds T = (if no_overflow S W T then Some ((low + S - 1) div S) else Some 1)"
    unfolding next_difficulty_v2_def using quotient_value(1) [OF v sw(2)] by (simp add: sw m)
  ultimately show ?thesis using sw quotient_value(2) [OF v sw(2)] by auto
qed

theorem next_difficulty_v2_correct_witness:
  "\<exists>d. next_difficulty_v2 [60, 0, 130] [10, 30, 70] 60 = Some d \<and> uint d = (60 * 60 + 130 - 1) div 130"
  using next_difficulty_v2_correct [of "[10, 30, 70]" "[60, 0, 130]" 60]
  by (auto simp: increasing_def window_span_def DIFFICULTY_WINDOW_def DIFFICULTY_CUT_def no_overflow_def)

text \<open>
  C7.  The proof-of-work check is exact: on a 32-byte hash, read as a little-endian number,
  \<^verbatim>\<open>check_hash\<close> always answers, and accepts exactly when the product of hash and difficulty
  stays below \<^term>\<open>2 ^ 256\<close>; the portable multiplication of compilers without 128-bit
  intrinsics and the intrinsic one give the same words.
\<close>

theorem check_hash_exact:
  "length hash = 32 \<Longrightarrow>
    check_hash hash difficulty = Some (le_val hash * uint difficulty < 2 ^ 256) \<and> mul a b = Some (mul_portable a b)"
  by (simp add: check_hash_value mul_eq_portable)

theorem check_hash_exact_witness:
  "check_hash
      [0, 0, 0, 0, 0, 0, 0, 0, 0, 0, 0, 0, 0, 0, 0, 0, 0, 0, 0, 0, 0, 0, 0, 0, 0, 0, 0, 0, 0, 0, 0, 1] 256 = Some False \<and> mul 3 5 = Some (mul_portable 3 5)"
  using check_hash_exact
    [of "[0, 0, 0, 0, 0, 0, 0, 0, 0, 0, 0, 0, 0, 0, 0, 0, 0, 0, 0, 0, 0, 0, 0, 0, 0, 0, 0, 0, 0, 0, 0, 1]" 256 3 5]
  by simp

section \<open>The fourth version\<close>

lemma resize_take: "n \<le> length xs \<Longrightarrow> resize n xs = take n xs"
  by (simp add: resize_def)

lemma resize_twice: "n \<le> m \<Longrightarrow> resize n (resize m xs) = resize n xs"
  by (auto simp: resize_def min_def)

lemma sorted_of_increasing: "increasing xs \<Longrightarrow> sorted xs"
  by (simp add: increasing_def strict_sorted_imp_sorted)

lemma average_between:
  fixes a b :: u64
  assumes "a \<le> b" "uint b < 2 ^ 63"
  shows "a \<le> (a + b) div 2" "(a + b) div 2 \<le> b"
proof -
  have ab: "uint a \<le> uint b" using assms(1) by (simp add: word_le_def)
  have "uint ((a + b) div 2) = (uint a + uint b) div 2"
    using ab assms(2) uint_add_small [of a b] by (simp add: uint_div_distrib)
  then show "a \<le> (a + b) div 2" "(a + b) div 2 \<le> b" using ab unfolding word_le_def by linarith+
qed

lemma median_between:
  assumes "sorted v" "even (length v)" "2 \<le> length v" "\<forall>x\<in>set v. uint x < 2 ^ 63"
  shows "v ! (length v div 2 - 1) \<le> median v" "median v \<le> v ! (length v div 2)"
proof -
  have i: "length v div 2 < length v" using assms(3) by (intro div_less_dividend) auto
  have m: "median v = (v ! (length v div 2 - 1) + v ! (length v div 2)) div 2"
    using assms i by (auto simp: median_def Let_def sorted_sort_id)
  have "v ! (length v div 2 - 1) \<le> v ! (length v div 2)" using assms(1) i by (intro sorted_nth_mono) simp_all
  then show "v ! (length v div 2 - 1) \<le> median v" "median v \<le> v ! (length v div 2)"
    unfolding m using assms(4) i by (intro average_between; simp)+
qed

lemma segment: "b \<le> length xs \<Longrightarrow> map (\<lambda>i. xs ! i) [a..<b] = drop a (take b xs)"
  by (rule nth_equalityI) simp_all

lemma v4_window_cases:
  assumes "length cds = length ts"
  shows "v4_window ts cds = (take 70 ts, take 70 cds)
    \<or> 69 \<le> length ts \<and> v4_window ts cds = (take 25 ts, take 25 cds)"
proof (cases "length ts > 70")
  case True
  then show ?thesis using assms
    by (simp add: v4_window_def DIFFICULTY_BLOCKS_COUNT_V12_def DIFFICULTY_WINDOW_V2_def Let_def resize_twice resize_take)
next
  case False
  then show ?thesis using assms
    by (simp add: v4_window_def DIFFICULTY_BLOCKS_COUNT_V12_def DIFFICULTY_WINDOW_V2_def Let_def resize_take)
qed

lemma v4_window_eq:
  assumes "length cds = length ts" "xs = take 70 cds"
    and "69 \<le> length xs \<Longrightarrow> \<not> median (drop 0 (take 40 xs)) > median (drop 40 (take 60 xs)) * 6 div 5"
  shows "v4_window ts cds = (take 70 ts, xs)"
proof -
  have r: "(if length ts > 70 then (resize 70 ts, resize 70 cds) else (ts, cds)) = (take 70 ts, xs)"
    using assms(1,2) by (simp add: resize_take)
  have e: "[nat ((int 70 * - 10) mod 2 ^ 64)..<70] = []" by simp
  have c: "DIFFICULTY_BLOCKS_COUNT_V12 = 70" by (simp add: DIFFICULTY_BLOCKS_COUNT_V12_def DIFFICULTY_WINDOW_V2_def)
  have n: "(70::nat) - 30 = 40" "(70::nat) - 10 = 60" "(70::nat) - 1 = 69" by simp_all
  have m: "median [] = 0" by (simp add: median_def)
  show ?thesis
  proof (cases "69 \<le> length xs")
    case True
    then have "map (\<lambda>i. xs ! i) [0..<40] = drop 0 (take 40 xs)" "map (\<lambda>i. xs ! i) [40..<60] = drop 40 (take 60 xs)"
      by (simp_all only: segment)
    then show ?thesis using True assms(3) unfolding v4_window_def c r e n by (simp only: Let_def prod.case list.map m) simp
  next
    case False
    then show ?thesis unfolding v4_window_def c r n by (simp add: Let_def)
  qed
qed

lemma increasing_upt:
  fixes a b :: nat
  assumes "b \<le> 2 ^ 61"
  shows "increasing (map of_nat [a..<b])" "\<forall>x\<in>set (map (of_nat :: nat \<Rightarrow> u64) [a..<b]). uint x < 2 ^ 61"
proof -
  have u: "unat (of_nat i :: u64) = i" if "i < b" for i
    using that assms by (simp add: unat_of_nat take_bit_nat_eq_self)
  show "increasing (map of_nat [a..<b])" unfolding increasing_def sorted_wrt_map
    by (rule sorted_wrt_mono_rel [OF _ sorted_wrt_upt]) (simp add: word_less_nat_alt u)
  show "\<forall>x\<in>set (map (of_nat :: nat \<Rightarrow> u64) [a..<b]). uint x < 2 ^ 61"
  proof (clarsimp)
    fix i assume i: "i < b"
    have "uint (of_nat i :: u64) = int i" by (simp only: uint_nat u [OF i])
    then show "uint (of_nat i :: u64) < 2305843009213693952" using i assms by simp
  qed
qed

text \<open>
  The faster adjustment of \<^verbatim>\<open>next_difficulty_v4\<close>, which would cut the window to 25 blocks, is
  never taken: with increasing cumulative difficulties below \<^term>\<open>2 ^ 61\<close> the median of the first
  forty is at most the median of the next twenty, and the third list of difficulties is always
  empty because its loop starts at a negative number converted to an unsigned one.
\<close>

theorem next_difficulty_v4_never_cuts:
  assumes "length cds = length ts" "increasing cds" "\<forall>x\<in>set cds. uint x < 2 ^ 61"
  shows "v4_window ts cds = (take 70 ts, take 70 cds)"
proof -
  define xs where "xs = take 70 cds"
  have x: "sorted xs" "\<forall>x\<in>set xs. uint x < 2 ^ 61"
    using assms sorted_of_increasing [of xs] set_take_subset [of 70 cds]
    by (auto simp: xs_def increasing_def sorted_wrt_take)
  have *: "\<not> median (drop 0 (take 40 xs)) > median (drop 40 (take 60 xs)) * 6 div 5" if l: "69 \<le> length xs"
  proof -
    let ?f = "drop 0 (take 40 xs)" and ?m = "drop 40 (take 60 xs)"
    have s: "sorted ?f" "sorted ?m" "\<forall>x\<in>set ?f. uint x < 2 ^ 63" "\<forall>x\<in>set ?m. uint x < 2 ^ 63"
      using x by (auto simp: sorted_wrt_take sorted_wrt_drop dest!: in_set_takeD in_set_dropD)
    have f: "median ?f \<le> xs ! 20" and m: "xs ! 49 \<le> median ?m" "median ?m \<le> xs ! 50"
      using median_between [OF s(1) _ _ s(3)] median_between [OF s(2) _ _ s(4)] l by simp_all
    have "xs ! 20 \<le> xs ! 49" using x(1) l by (intro sorted_nth_mono) simp_all
    then have le: "uint (median ?f) \<le> uint (median ?m)" using f m(1) unfolding word_le_def by linarith
    have "uint (xs ! 50) < 2 ^ 61" using x(2) l by simp
    then have b: "uint (median ?m) < 2 ^ 61" using m(2) unfolding word_le_def by linarith
    have "uint (median ?m * 6) = uint (median ?m) * 6" using b uint_mult_lem [of "median ?m" 6] by simp
    then have "uint (median ?m * 6 div 5) = uint (median ?m) * 6 div 5" by (simp add: uint_div_distrib)
    then show ?thesis using le uint_ge_0 [of "median ?m"] unfolding word_less_def by linarith
  qed
  show ?thesis using v4_window_eq [OF assms(1) xs_def *] by (simp add: xs_def)
qed

theorem next_difficulty_v4_never_cuts_witness:
  "v4_window (map of_nat [2..<102]) (map of_nat [2..<102]) = (map of_nat [2..<72], map of_nat [2..<72])"
proof -
  have "(102::nat) \<le> 2 ^ 61" by simp
  note i = increasing_upt [OF this, of 2]
  have t: "take 70 [2..<102] = [2..<72]" using take_upt [of 2 70 102] by simp
  show ?thesis using next_difficulty_v4_never_cuts [OF refl i] by (simp only: take_map t)
qed

lemma v4_target_bound:
  fixes T :: u64
  assumes "2 \<le> n" "n \<le> 70" "0 < T" "uint T < 2 ^ 32"
  shows "0 < T * of_nat n div 2"
    and "uint (99 * (((of_nat n + 1) div 2) * T) div 100) \<le> 2 * uint (T * of_nat n div 2)"
proof -
  have T: "1 \<le> uint T" using assms(3) by (simp add: word_less_def int_one_le_iff_zero_less)
  have n: "uint (of_nat n :: u64) = int n" 
    using assms(2) by (simp only: uint_nat unat_of_nat) (simp add: take_bit_nat_eq_self)
  define h where "h = (int n + 1) div 2"
  have h: "0 \<le> h" "h \<le> 35" "2 * h \<le> int n + 1" using assms(1,2) by (auto simp: h_def)
  have Th: "uint T * h \<le> 2 ^ 32 * 35" "uint T * int n \<le> 2 ^ 32 * 70"
    using assms(2,4) h by (intro mult_mono; simp)+
  have uh: "uint ((of_nat n + 1 :: u64) div 2) = h"
    using assms(2) n uint_add_small [of "of_nat n" 1] by (simp add: uint_div_distrib h_def)
  then have u1: "uint (((of_nat n + 1) div 2) * T) = h * uint T"
    using Th(1) uint_mult_lem [of "(of_nat n + 1) div 2" T] by (simp add: mult.commute)
  then have u2: "uint (99 * (((of_nat n + 1) div 2) * T)) = 99 * (h * uint T)"
    using Th(1) uint_mult_lem [of 99 "((of_nat n + 1) div 2) * T"] by (simp add: mult.commute)
  have u3: "uint (T * of_nat n) = uint T * int n"
    using Th(2) n uint_mult_lem [of T "of_nat n"] by simp
  have m: "2 \<le> uint T * int n" using mult_mono [of 1 "uint T" 2 "int n"] T assms(1) by simp
  then show "0 < T * of_nat n div 2" using u3 by (simp add: word_less_def uint_div_distrib)
  have "uint T * (2 * h) \<le> uint T * (int n + 1)" using h T by (intro mult_left_mono) simp_all
  then have k: "2 * (h * uint T) \<le> uint T * int n + uint T" by (simp add: algebra_simps)
  have "2 * uint T \<le> uint T * int n" using assms(1) T by (simp add: mult.commute)
  then show "uint (99 * (((of_nat n + 1) div 2) * T) div 100) \<le> 2 * uint (T * of_nat n div 2)"
    using k m u2 u3 by (simp add: uint_div_distrib)
qed

lemma v4_window_shape:
  assumes "length cds = length ts" "2 \<le> length ts" "increasing cds" "v4_window ts cds = (ts', cds')"
  shows "length cds' = length ts'" "2 \<le> length ts'" "length ts' \<le> 70" "increasing cds'"
  using v4_window_cases [OF assms(1)] assms by (auto simp: increasing_def sorted_wrt_take)

lemma increasing_ends: "increasing xs \<Longrightarrow> 2 \<le> length xs \<Longrightarrow> 0 < last xs - hd xs"
  using increasing_diff [of xs 0 "length xs - 1"] by (cases xs) (auto simp: last_conv_nth hd_conv_nth)

lemma div_bound:
  fixes low w m t W :: int
  assumes "low = W * t" "t \<le> 2 * m" "m \<le> w" "0 < m" "0 \<le> W"
  shows "low div w \<le> 2 * W"
proof -
  have "W * t \<le> W * (2 * w)" using assms by (intro mult_left_mono) simp_all
  then have "low div w \<le> (2 * W) * w div w" using assms by (intro zdiv_mono1) simp_all
  then show ?thesis using assms by simp
qed

text \<open>
  C23.  \<^verbatim>\<open>next_difficulty_v4\<close> is safe on at least two blocks with strictly increasing cumulative
  difficulties and a target between one second and \<^term>\<open>2 ^ 32\<close>: whatever the timestamps are, it
  fails no assertion and divides by no zero, and the difficulty it returns is at most twice the
  work of the window.
\<close>

theorem next_difficulty_v4_safe:
  assumes "length cds = length ts" "2 \<le> length ts" "increasing cds" "0 < T" "uint T < 2 ^ 32"
  shows "\<exists>d. next_difficulty_v4 ts cds T = Some d
    \<and> uint d \<le> 2 * uint (last (snd (v4_window ts cds)) - hd (snd (v4_window ts cds)))"
proof -
  obtain ts' cds' where w: "v4_window ts cds = (ts', cds')" by fastforce
  note s = v4_window_shape [OF assms(1-3) w]
  define W where "W = last cds' - hd cds'"
  define t where "t = 99 * (((of_nat (length ts') + 1) div 2) * T) div 100"
  define m where "m = T * of_nat (length ts') div 2"
  have W: "0 < W" unfolding W_def using s by (intro increasing_ends) simp_all
  have tm: "0 < m" "uint t \<le> 2 * uint m"
    unfolding t_def m_def using s assms(4,5) by (intro v4_target_bound; simp)+
  obtain low high where mm: "mul W t = Some (low, high)" and v: "uint high * 2 ^ 64 + uint low = uint W * uint t"
    by (rule mul_values)
  obtain x where x: "next_difficulty_v4 ts cds T =
      (let w = if x < m then m else x in if high \<noteq> 0 then Some 0 else if w = 0 then None else Some (low div w))"
    using s W mm unfolding next_difficulty_v4_def w W_def t_def m_def by (auto simp: Let_def)
  define w' where "w' = (if x < m then m else x)"
  have w': "m \<le> w'" "w' \<noteq> 0" using tm(1) by (auto simp: w'_def)
  have "uint (low div w') \<le> 2 * uint W" if "high = 0"
    unfolding uint_div_distrib using that v tm w' 
    by (intro div_bound [of _ _ "uint t" "uint m"]) (simp_all add: word_le_def word_less_def)
  then show ?thesis using x w'(2) by (simp add: w W_def [symmetric] w'_def [symmetric])
qed

theorem next_difficulty_v4_safe_witness:
  "\<exists>d. next_difficulty_v4 [0, 0, 0] [5, 6, 9] 120 = Some d \<and> uint d \<le> 2 * 4"
  using next_difficulty_v4_safe [of "[5, 6, 9]" "[0, 0, 0]" 120]
  by (simp add: increasing_def v4_window_def DIFFICULTY_BLOCKS_COUNT_V12_def DIFFICULTY_WINDOW_V2_def)

end
