(* ===== verification/Hard_Fork.thy ===== *)
theory Hard_Fork
  imports Int_Util "HOL-Library.Monad_Syntax"
begin

text \<open>
  The hard fork logic of \<^verbatim>\<open>src/src/cryptonote_basic/hardfork.cpp\<close>: which block version is in force,
  decided by a schedule of forks and a rolling window of the votes of the last blocks.  Reads
  outside of \<^verbatim>\<open>heights\<close>, failed assertions and exceptions of the database give \<^term>\<open>None\<close>.
\<close>

section \<open>State\<close>

record blk =
  major_version :: byte
  minor_version :: byte

text \<open>
  What the class uses of the database: the blocks in the order of their heights and the table of
  hard fork versions by height.
\<close>

record chain_db =
  db_blocks :: "blk list"
  db_hf_versions :: "u64 \<rightharpoonup> byte"

record params =
  p_version :: byte
  p_threshold :: byte
  p_height :: u64
  p_time :: int

record hardfork =
  db :: chain_db
  forked_time :: int
  update_time :: int
  window_size :: u64
  default_threshold_percent :: byte
  original_version :: byte
  original_version_till_height :: u64
  heights :: "params list"
  versions :: "byte list"
  last_versions :: "byte \<Rightarrow> u32"
  current_fork_index :: nat

datatype hf_state = LikelyForked | UpdateNeeded | Ready

datatype hf_error = Window_size_zero | Threshold_over_100

section \<open>The database\<close>

definition db_height :: "hardfork \<Rightarrow> u64" where
  "db_height s = of_nat (length (db_blocks (db s)))"

definition get_block_from_height :: "hardfork \<Rightarrow> u64 \<Rightarrow> blk option" where
  "get_block_from_height s h = (if unat h < length (db_blocks (db s)) then Some (db_blocks (db s) ! unat h) else None)"

definition get_hard_fork_version :: "hardfork \<Rightarrow> u64 \<Rightarrow> byte option" where
  "get_hard_fork_version s h = db_hf_versions (db s) h"

definition set_hard_fork_version :: "u64 \<Rightarrow> byte \<Rightarrow> hardfork \<Rightarrow> hardfork" where
  "set_hard_fork_version h v s = s\<lparr>db := (db s)\<lparr>db_hf_versions := (db_hf_versions (db s))(h \<mapsto> v)\<rparr>\<rparr>"

section \<open>Operations\<close>

definition get_block_vote :: "blk \<Rightarrow> byte" where
  "get_block_vote b = (if minor_version b = 0 then 1 else minor_version b)"

definition get_block_version :: "blk \<Rightarrow> byte" where
  "get_block_version b = major_version b"

definition get_block_version_at :: "u64 \<Rightarrow> hardfork \<Rightarrow> byte option" where
  "get_block_version_at height s =
    (if height \<le> original_version_till_height s then Some (original_version s)
     else map_option get_block_version (get_block_from_height s height))"

text \<open>
  The constructor leaves \<^verbatim>\<open>last_versions\<close> and \<^verbatim>\<open>current_fork_index\<close> uninitialised: their contents are
  arguments here.
\<close>

definition HardFork :: "chain_db \<Rightarrow> byte \<Rightarrow> u64 \<Rightarrow> int \<Rightarrow> int \<Rightarrow> u64 \<Rightarrow> byte \<Rightarrow> (byte \<Rightarrow> u32) \<Rightarrow> nat \<Rightarrow> hf_error + hardfork" where
  "HardFork d original till forked update window percent counts index =
    (if window = 0 then Inl Window_size_zero
     else if percent > 100 then Inl Threshold_over_100
     else Inr \<lparr>db = d, forked_time = forked, update_time = update, window_size = window,
            default_threshold_percent = percent, original_version = original, original_version_till_height = till,
            heights = [], versions = [], last_versions = counts, current_fork_index = index\<rparr>)"

definition add_fork :: "byte \<Rightarrow> u64 \<Rightarrow> byte \<Rightarrow> int \<Rightarrow> hardfork \<Rightarrow> bool \<times> hardfork" where
  "add_fork version height threshold time s =
    (if version = 0 then (False, s)
     else if heights s \<noteq> []
       \<and> (version \<le> p_version (last (heights s)) \<or> height \<le> p_height (last (heights s)) \<or> time \<le> p_time (last (heights s)))
     then (False, s)
     else if threshold > 100 then (False, s)
     else (True, s\<lparr>heights := heights s @ [\<lparr>p_version = version, p_threshold = threshold, p_height = height, p_time = time\<rparr>]\<rparr>))"

definition add_fork_default :: "byte \<Rightarrow> u64 \<Rightarrow> int \<Rightarrow> hardfork \<Rightarrow> bool \<times> hardfork" where
  "add_fork_default version height time s = add_fork version height (default_threshold_percent s) time s"

definition get_effective_version :: "hardfork \<Rightarrow> byte \<Rightarrow> byte" where
  "get_effective_version s voting_version =
    (if heights s \<noteq> [] \<and> voting_version > p_version (last (heights s)) then p_version (last (heights s)) else voting_version)"

definition fork_at_index :: "hardfork \<Rightarrow> nat \<Rightarrow> params option" where
  "fork_at_index s n = (if n < length (heights s) then Some (heights s ! n) else None)"

definition do_check :: "hardfork \<Rightarrow> byte \<Rightarrow> byte \<Rightarrow> bool option" where
  "do_check s block_version voting_version = do {
     p \<leftarrow> fork_at_index s (current_fork_index s);
     Some (block_version = p_version p \<and> voting_version \<ge> p_version p) }"

definition check :: "hardfork \<Rightarrow> blk \<Rightarrow> bool option" where
  "check s b = do_check s (get_block_version b) (get_block_vote b)"

fun voted_loop :: "hardfork \<Rightarrow> u64 \<Rightarrow> nat \<Rightarrow> u32 \<Rightarrow> nat" where
  "voted_loop s h 0 accumulated_votes = current_fork_index s"
| "voted_loop s h (Suc n) accumulated_votes =
    (if Suc n > current_fork_index s then
       let p = heights s ! Suc n;
           accumulated_votes = accumulated_votes + last_versions s (p_version p);
           threshold = ucast ((window_size s * ucast (p_threshold p) + 99) div 100)
       in if h \<ge> p_height p \<and> accumulated_votes \<ge> threshold then Suc n
          else voted_loop s h n accumulated_votes
     else current_fork_index s)"

definition get_voted_fork_index :: "hardfork \<Rightarrow> u64 \<Rightarrow> nat option" where
  "get_voted_fork_index s h = (if heights s = [] then None else Some (voted_loop s h (length (heights s) - 1) 0))"

definition do_check_for_height :: "hardfork \<Rightarrow> byte \<Rightarrow> byte \<Rightarrow> u64 \<Rightarrow> bool option" where
  "do_check_for_height s block_version voting_version height = do {
     n \<leftarrow> get_voted_fork_index s height;
     p \<leftarrow> fork_at_index s n;
     Some (block_version = p_version p \<and> voting_version \<ge> p_version p) }"

definition check_for_height :: "hardfork \<Rightarrow> blk \<Rightarrow> u64 \<Rightarrow> bool option" where
  "check_for_height s b height = do_check_for_height s (get_block_version b) (get_block_vote b) height"

text \<open>The index returned is narrowed to 8 bits before it is compared.\<close>

definition apply_votes :: "u64 \<Rightarrow> hardfork \<Rightarrow> hardfork option" where
  "apply_votes height s = do {
     n \<leftarrow> get_voted_fork_index s height;
     let voted = (of_nat n :: byte);
     Some (if unat voted > current_fork_index s then s\<lparr>current_fork_index := unat voted\<rparr> else s) }"

definition push_version :: "byte \<Rightarrow> hardfork \<Rightarrow> hardfork" where
  "push_version v s = s\<lparr>last_versions := (last_versions s)(v := last_versions s v + 1), versions := versions s @ [v]\<rparr>"

fun trim :: "u64 \<Rightarrow> (byte \<Rightarrow> u32) \<Rightarrow> byte list \<Rightarrow> ((byte \<Rightarrow> u32) \<times> byte list) option" where
  "trim window counts [] = (if unat window \<le> 0 then None else Some (counts, []))"
| "trim window counts (old # vs) =
    (if unat window \<le> length (old # vs) then
       if counts old \<ge> 1 then trim window (counts(old := counts old - 1)) vs else None
     else Some (counts, old # vs))"

definition add :: "byte \<Rightarrow> byte \<Rightarrow> u64 \<Rightarrow> hardfork \<Rightarrow> (bool \<times> hardfork) option" where
  "add block_version voting_version height s = do {
     ok \<leftarrow> do_check s block_version voting_version;
     if \<not> ok then Some (False, s)
     else do {
       p \<leftarrow> fork_at_index s (current_fork_index s);
       let s = set_hard_fork_version height (p_version p) s;
       let voting_version = get_effective_version s voting_version;
       (counts, vs) \<leftarrow> trim (window_size s) (last_versions s) (versions s);
       s \<leftarrow> apply_votes (height + 1) (push_version voting_version (s\<lparr>last_versions := counts, versions := vs\<rparr>));
       Some (True, s) } }"

definition add_block :: "blk \<Rightarrow> u64 \<Rightarrow> hardfork \<Rightarrow> (bool \<times> hardfork) option" where
  "add_block b height s = add (get_block_version b) (get_block_vote b) height s"

definition clear :: "hardfork \<Rightarrow> hardfork" where
  "clear s = s\<lparr>versions := [], last_versions := (\<lambda>n. 0)\<rparr>"

text \<open>The loops that count the votes of the blocks at given heights and that add these blocks.\<close>

fun tally :: "nat list \<Rightarrow> hardfork \<Rightarrow> hardfork option" where
  "tally [] s = Some s"
| "tally (h # hs) s = do {
     b \<leftarrow> get_block_from_height s (of_nat h);
     tally hs (push_version (get_effective_version s (get_block_vote b)) s) }"

fun add_all :: "nat list \<Rightarrow> hardfork \<Rightarrow> hardfork option" where
  "add_all [] s = Some s"
| "add_all (h # hs) s = do {
     b \<leftarrow> get_block_from_height s (of_nat h);
     (r, s) \<leftarrow> add_block b (of_nat h) s;
     add_all hs s }"

fun unwind :: "params list \<Rightarrow> byte \<Rightarrow> nat \<Rightarrow> nat option" where
  "unwind ps start_version 0 = Some 0"
| "unwind ps start_version (Suc n) =
    (if Suc n < length ps then
       if p_version (ps ! Suc n) > start_version then unwind ps start_version n else Some (Suc n)
     else None)"

definition reorganize_from_block_height :: "u64 \<Rightarrow> hardfork \<Rightarrow> (bool \<times> hardfork) option" where
  "reorganize_from_block_height height s =
    (if height \<ge> db_height s then Some (False, s)
     else do {
       let s = clear s;
       let rescan_height = (if height \<ge> window_size s - 1 then height - (window_size s - 1) else 0);
       start_version \<leftarrow> (if height = 0 then Some (original_version s) else get_hard_fork_version s height);
       n \<leftarrow> unwind (heights s) start_version (current_fork_index s);
       s \<leftarrow> tally [unat rescan_height..<Suc (unat height)] (s\<lparr>current_fork_index := n\<rparr>);
       s \<leftarrow> apply_votes (height + 1) s;
       s \<leftarrow> add_all [Suc (unat height)..<unat (db_height s)] s;
       Some (True, s) })"

definition reorganize_from_chain_height :: "u64 \<Rightarrow> hardfork \<Rightarrow> (bool \<times> hardfork) option" where
  "reorganize_from_chain_height height s = (if height = 0 then Some (False, s) else reorganize_from_block_height (height - 1) s)"

fun find_version :: "params list \<Rightarrow> byte \<Rightarrow> nat" where
  "find_version (p # q # ps) v = (if p_version p \<noteq> v then Suc (find_version (q # ps) v) else 0)"
| "find_version ps v = 0"

definition rescan_from_block_height :: "u64 \<Rightarrow> hardfork \<Rightarrow> (bool \<times> hardfork) option" where
  "rescan_from_block_height height s =
    (if height \<ge> db_height s then Some (False, s)
     else do {
       s \<leftarrow> tally [unat height..<unat (db_height s)] (clear s);
       lastv \<leftarrow> get_hard_fork_version s (db_height s - 1);
       s \<leftarrow> apply_votes (db_height s) (s\<lparr>current_fork_index := find_version (heights s) lastv\<rparr>);
       Some (True, s) })"

definition rescan_from_chain_height :: "u64 \<Rightarrow> hardfork \<Rightarrow> (bool \<times> hardfork) option" where
  "rescan_from_chain_height height s = (if height = 0 then Some (False, s) else rescan_from_block_height (height - 1) s)"

definition init :: "hardfork \<Rightarrow> hardfork option" where
  "init s =
    (let s = (if heights s = []
              then s\<lparr>heights := [\<lparr>p_version = original_version s, p_threshold = 0, p_height = 0, p_time = 0\<rparr>]\<rparr> else s);
         s = (clear s)\<lparr>current_fork_index := 0\<rparr>;
         height = db_height s;
         height = (if height > window_size s then height - (window_size s - 1) else 1)
     in if get_hard_fork_version s 0 = None then do {
          (r, s) \<leftarrow> reorganize_from_chain_height 1 s;
          Some (set_hard_fork_version 0 (original_version s) s) }
        else do {
          (r, s) \<leftarrow> rescan_from_chain_height height s;
          Some s })"

definition get_state :: "int \<Rightarrow> hardfork \<Rightarrow> hf_state" where
  "get_state t s =
    (if length (heights s) \<le> 1 then Ready
     else let t_last_fork = p_time (last (heights s))
          in if t \<ge> t_last_fork + forked_time s then LikelyForked
             else if t \<ge> t_last_fork + update_time s then UpdateNeeded
             else Ready)"

definition get_current_version :: "hardfork \<Rightarrow> byte option" where
  "get_current_version s = map_option p_version (fork_at_index s (current_fork_index s))"

definition get :: "u64 \<Rightarrow> hardfork \<Rightarrow> byte option" where
  "get height s =
    (if height > db_height s then None
     else if height = db_height s then get_current_version s
     else get_hard_fork_version s height)"

definition get_ideal_version :: "hardfork \<Rightarrow> byte option" where
  "get_ideal_version s = (if heights s = [] then None else Some (p_version (last (heights s))))"

fun last_fork :: "params list \<Rightarrow> (params \<Rightarrow> bool) \<Rightarrow> nat \<Rightarrow> nat option" where
  "last_fork ps P 0 = None"
| "last_fork ps P (Suc n) = (if P (ps ! Suc n) then Some (Suc n) else last_fork ps P n)"

definition get_ideal_version_at :: "u64 \<Rightarrow> hardfork \<Rightarrow> byte option" where
  "get_ideal_version_at height s =
    (if heights s = [] then None
     else case last_fork (heights s) (\<lambda>p. height \<ge> p_height p) (length (heights s) - 1) of
       Some n \<Rightarrow> Some (p_version (heights s ! n))
     | None \<Rightarrow> Some (original_version s))"

definition get_earliest_ideal_height_for_version :: "byte \<Rightarrow> hardfork \<Rightarrow> u64 option" where
  "get_earliest_ideal_height_for_version version s =
    (if heights s = [] then None
     else case last_fork (heights s) (\<lambda>p. p_version p \<le> version) (length (heights s) - 1) of
       Some n \<Rightarrow> Some (p_height (heights s ! n))
     | None \<Rightarrow> Some 0)"

definition get_next_version :: "hardfork \<Rightarrow> byte option" where
  "get_next_version s =
    (if heights s = [] then None
     else case last_fork (heights s) (\<lambda>p. db_height s \<ge> p_height p) (length (heights s) - 1) of
       Some n \<Rightarrow> Some (p_version (heights s ! (if n < length (heights s) - 1 then n + 1 else n)))
     | None \<Rightarrow> Some (original_version s))"

record voting_info =
  vi_window :: u32
  vi_votes :: u32
  vi_threshold :: u32
  vi_earliest_height :: u64
  vi_voting :: byte
  vi_enabled :: bool

definition get_voting_info :: "byte \<Rightarrow> hardfork \<Rightarrow> voting_info option" where
  "get_voting_info version s = do {
     p \<leftarrow> fork_at_index s (current_fork_index s);
     earliest_height \<leftarrow> get_earliest_ideal_height_for_version version s;
     voting \<leftarrow> get_ideal_version s;
     let window = (of_nat (length (versions s)) :: u32);
     let votes = sum_list (map (\<lambda>n. last_versions s (of_nat n)) [unat version..<256]);
     Some \<lparr>vi_window = window, vi_votes = votes, vi_threshold = (window * ucast (p_threshold p) + 99) div 100,
       vi_earliest_height = earliest_height, vi_voting = voting, vi_enabled = p_version p \<ge> version\<rparr> }"

section \<open>The schedules\<close>

text \<open>The tables of forks of the three networks and the loop that adds them, which ignores the answers.\<close>

definition fork :: "byte \<Rightarrow> u64 \<Rightarrow> byte \<Rightarrow> int \<Rightarrow> params" where
  "fork v h t time = \<lparr>p_version = v, p_threshold = t, p_height = h, p_time = time\<rparr>"

definition mainnet_hard_forks :: "params list" where
  "mainnet_hard_forks =
    [fork 1 1 0 1509360534,
     fork 7 307003 0 1527663660,
     fork 8 307054 0 1527664267,
     fork 9 308110 0 1527780225,
     fork 10 310790 0 1528100874,
     fork 11 310860 0 1528100953,
     fork 12 333690 0 1528100954,
     fork 13 337496 0 1530783171,
     fork 14 337816 0 1530884769,
     fork 15 337838 0 1530885769,
     fork 16 500060 0 1541902465,
     fork 17 570000 0 1546327363,
     fork 18 659000 0 1551802541,
     fork 19 739800 0 1555050968,
     fork 21 1132900 0 1582695928,
     fork 22 1132935 0 1582765436,
     fork 23 1183409 0 1585987920,
     fork 24 1714428 0 1620374695,
     fork 25 1911970 0 1640962704,
     fork 26 3559855 0 1751404627]"

definition testnet_hard_forks :: "params list" where
  "testnet_hard_forks =
    [fork 1 1 0 1509360534,
     fork 7 307003 0 1526030397,
     fork 8 307054 0 1526030997,
     fork 9 308110 0 1526625013,
     fork 10 310790 0 1526625023,
     fork 11 310860 0 1526625043,
     fork 12 333690 0 1527629671,
     fork 13 337496 0 1527629791,
     fork 14 337816 0 1527629871,
     fork 15 337838 0 1527629971,
     fork 16 492500 0 1527639871]"

definition stagenet_hard_forks :: "params list" where
  "stagenet_hard_forks =
    [fork 1 1 0 1509360534,
     fork 7 307003 0 1527663660,
     fork 8 307054 0 1527664267,
     fork 9 308110 0 1527780225,
     fork 10 310790 0 1528100874,
     fork 11 310860 0 1528100953,
     fork 12 333690 0 1528100954,
     fork 13 337496 0 1530783171,
     fork 14 337816 0 1530884769,
     fork 15 337838 0 1531318728,
     fork 16 492500 0 1531318798,
     fork 17 492530 0 1531319998]"

definition add_forks :: "params list \<Rightarrow> hardfork \<Rightarrow> hardfork" where
  "add_forks ps s = fold (\<lambda>p s. snd (add_fork (p_version p) (p_height p) (p_threshold p) (p_time p) s)) ps s"

section \<open>Specification\<close>

text \<open>
  The version in force at a height, as a function of the schedule \<open>ps\<close>, the size \<open>W\<close> of the window
  and the votes \<open>vs\<close> of the blocks below: a later fork is elected as soon as its height is reached
  and enough of the last \<open>W\<close> votes are for it or for a fork after it.
\<close>

definition window :: "nat \<Rightarrow> byte list \<Rightarrow> nat \<Rightarrow> byte list" where
  "window W vs n = drop (n - W) (take n vs)"

definition supporters :: "params list \<Rightarrow> nat \<Rightarrow> byte list \<Rightarrow> nat" where
  "supporters ps m win = length (filter (\<lambda>v. v \<in> p_version ` set (drop m ps)) win)"

definition required :: "params list \<Rightarrow> nat \<Rightarrow> nat \<Rightarrow> nat" where
  "required ps W m = (W * unat (p_threshold (ps ! m)) + 99) div 100"

definition elected :: "params list \<Rightarrow> nat \<Rightarrow> byte list \<Rightarrow> nat \<Rightarrow> nat \<Rightarrow> bool" where
  "elected ps W win h m \<longleftrightarrow> unat (p_height (ps ! m)) \<le> h \<and> required ps W m \<le> supporters ps m win"

definition elect :: "params list \<Rightarrow> nat \<Rightarrow> byte list \<Rightarrow> nat \<Rightarrow> nat \<Rightarrow> nat" where
  "elect ps W win h base = (case find (elected ps W win h) (rev [Suc base..<length ps]) of Some m \<Rightarrow> m | None \<Rightarrow> base)"

fun in_force :: "params list \<Rightarrow> nat \<Rightarrow> byte list \<Rightarrow> nat \<Rightarrow> nat" where
  "in_force ps W vs 0 = 0"
| "in_force ps W vs (Suc h) = elect ps W (window W vs (Suc h)) (Suc h) (in_force ps W vs h)"

definition counts_of :: "byte list \<Rightarrow> byte \<Rightarrow> u32" where
  "counts_of vs v = of_nat (count_list vs v)"

definition before :: "params \<Rightarrow> params \<Rightarrow> bool" where
  "before p q \<longleftrightarrow> p_version p < p_version q \<and> p_height p < p_height q"

definition schedule_ok :: "params list \<Rightarrow> bool" where
  "schedule_ok ps \<longleftrightarrow> ps \<noteq> [] \<and> sorted_wrt before ps \<and> (\<forall>p\<in>set ps. p_threshold p \<le> 100)"

section \<open>Elections\<close>

lemma before_nth: "schedule_ok ps \<Longrightarrow> i < j \<Longrightarrow> j < length ps \<Longrightarrow> before (ps ! i) (ps ! j)"
  by (simp add: schedule_ok_def sorted_wrt_nth_less)

lemma version_less_iff:
  assumes "schedule_ok ps" "i < length ps" "j < length ps"
  shows "p_version (ps ! i) < p_version (ps ! j) \<longleftrightarrow> i < j"
  using before_nth [OF assms(1), of i j] before_nth [OF assms(1), of j i] assms(2,3)
  unfolding before_def by (metis less_asym linorder_neqE_nat order_less_irrefl)

lemma version_eq_iff:
  assumes "schedule_ok ps" "i < length ps" "j < length ps"
  shows "p_version (ps ! i) = p_version (ps ! j) \<longleftrightarrow> i = j"
  using version_less_iff [OF assms] version_less_iff [OF assms(1,3,2)] by (metis linorder_neqE_nat order_less_irrefl)

lemma schedule_length: 
  assumes "schedule_ok ps" shows "length ps \<le> 256"
proof -
  have "inj_on (\<lambda>i. p_version (ps ! i)) {..<length ps}"
    by (rule inj_onI) (use version_eq_iff [OF assms] in auto)
  then have "card {..<length ps} \<le> card (UNIV :: byte set)"
    by (intro card_inj_on_le) auto
  then show ?thesis by (simp add: card_word)
qed

lemma supporters_Suc:
  assumes "schedule_ok ps" "m < length ps"
  shows "supporters ps m win = count_list win (p_version (ps ! m)) + supporters ps (Suc m) win"
proof -
  have d: "set (drop m ps) = insert (ps ! m) (set (drop (Suc m) ps))" using assms(2) by (simp add: Cons_nth_drop_Suc [symmetric])
  have n: "p_version (ps ! m) \<notin> p_version ` set (drop (Suc m) ps)"
  proof
    assume "p_version (ps ! m) \<in> p_version ` set (drop (Suc m) ps)"
    then obtain i where "i < length ps - Suc m" "p_version (ps ! m) = p_version (ps ! (Suc m + i))"
      by (auto simp: in_set_conv_nth)
    then show False using version_eq_iff [OF assms, of "Suc m + i"] by (simp add: less_diff_conv)
  qed
  show ?thesis unfolding supporters_def d by (induction win) (use n in auto)
qed

lemma supporters_le: "supporters ps m win \<le> length win"
  by (simp add: supporters_def)

lemma required_le:
  assumes "schedule_ok ps" "m < length ps" shows "required ps W m \<le> W"
proof -
  have "unat (p_threshold (ps ! m)) \<le> 100" using assms by (simp add: schedule_ok_def word_le_nat_alt)
  then have "W * unat (p_threshold (ps ! m)) \<le> W * 100" by (intro mult_left_mono) simp_all
  then show ?thesis unfolding required_def by linarith
qed

lemma find_SomeD: "find P xs = Some x \<Longrightarrow> x \<in> set xs \<and> P x"
  by (induction xs) (auto split: if_splits)

lemma elect_bounds: "base \<le> elect ps W win h base" "base < length ps \<Longrightarrow> elect ps W win h base < length ps"
  unfolding elect_def by (auto split: option.split dest!: find_SomeD)

lemma in_force_less: "ps \<noteq> [] \<Longrightarrow> in_force ps W vs n < length ps"
  by (induction n) (auto intro: elect_bounds)

lemma in_force_mono: "m \<le> n \<Longrightarrow> in_force ps W vs m \<le> in_force ps W vs n"
  by (induction n) (auto simp: le_Suc_eq intro: elect_bounds order_trans)

lemma window_append: "n \<le> length vs \<Longrightarrow> window W (vs @ us) n = window W vs n"
  by (simp add: window_def)

lemma in_force_append: "n \<le> length vs \<Longrightarrow> in_force ps W (vs @ us) n = in_force ps W vs n"
  by (induction n) (simp_all add: window_append)

lemma in_force_take: "n \<le> k \<Longrightarrow> k \<le> length vs \<Longrightarrow> in_force ps W (take k vs) n = in_force ps W vs n"
  using in_force_append [of n "take k vs" ps W "drop k vs"] by simp

section \<open>The counters\<close>

lemma counts_of_Nil [simp]: "counts_of [] = (\<lambda>v. 0)"
  by (simp add: counts_of_def fun_eq_iff)

lemma counts_of_snoc: "(counts_of vs)(v := counts_of vs v + 1) = counts_of (vs @ [v])"
  by (simp add: counts_of_def fun_eq_iff)

lemma counts_of_tail: "(counts_of (v # vs))(v := counts_of (v # vs) v - 1) = counts_of vs"
  by (simp add: counts_of_def fun_eq_iff)

lemma unat_counts: "length vs < 2 ^ 32 \<Longrightarrow> unat (counts_of vs v) = count_list vs v"
  using count_le_length [of vs v] by (simp add: counts_of_def unat_of_nat take_bit_nat_eq_self)

lemma trim_counts:
  "0 < unat W \<Longrightarrow> length vs < 2 ^ 32 \<Longrightarrow>
    trim W (counts_of vs) vs = Some (let us = drop (Suc (length vs) - unat W) vs in (counts_of us, us))"
proof (induction vs)
  case Nil
  then show ?case by simp
next
  case (Cons v vs)
  have "unat (counts_of (v # vs) v) = Suc (count_list vs v)" using unat_counts [OF Cons.prems(2), of v] by simp
  then have "counts_of (v # vs) v \<ge> 1" by (simp add: word_le_nat_alt)
  then show ?case using Cons by (auto simp: counts_of_tail Suc_diff_le Let_def)
qed

lemma threshold_value:
  assumes "schedule_ok (heights s)" "m < length (heights s)" "unat (window_size s) < 2 ^ 32"
  shows "unat (ucast ((window_size s * ucast (p_threshold (heights s ! m)) + 99) div 100) :: u32)
    = required (heights s) (unat (window_size s)) m"
proof -
  let ?t = "unat (p_threshold (heights s ! m))"
  have t: "?t \<le> 100" using assms(1,2) by (simp add: schedule_ok_def word_le_nat_alt)
  then have b: "unat (window_size s) * ?t \<le> 2 ^ 32 * 100" using assms(3) by (intro mult_mono) simp_all
  have u: "unat (ucast (p_threshold (heights s ! m)) :: u64) = ?t"
    using unsigned_less [of "p_threshold (heights s ! m)", where 'a = nat] by (simp add: unsigned_ucast_eq take_bit_nat_eq_self)
  have m: "unat (window_size s * ucast (p_threshold (heights s ! m))) = unat (window_size s) * ?t"
    using b unat_mult_lem [of "window_size s" "ucast (p_threshold (heights s ! m))"] by (simp add: u)
  then have "unat (window_size s * ucast (p_threshold (heights s ! m)) + 99) = unat (window_size s) * ?t + 99"
    using b unat_add_lem [of "window_size s * ucast (p_threshold (heights s ! m))" 99] by simp
  then have "unat ((window_size s * ucast (p_threshold (heights s ! m)) + 99) div 100)
      = required (heights s) (unat (window_size s)) m"
    by (simp add: unat_div_distrib required_def)
  moreover have "required (heights s) (unat (window_size s)) m < 2 ^ 32"
    using required_le [OF assms(1,2), of "unat (window_size s)"] assms(3) by linarith
  ultimately show ?thesis by (simp add: unsigned_ucast_eq take_bit_nat_eq_self)
qed

lemma voted_loop_elect:
  assumes ok: "schedule_ok (heights s)" and w: "unat (window_size s) < 2 ^ 32"
    and c: "last_versions s = counts_of (versions s)" "length (versions s) < 2 ^ 32"
  shows "n < length (heights s) \<Longrightarrow>
    voted_loop s h n (of_nat (supporters (heights s) (Suc n) (versions s))) =
      (case find (elected (heights s) (unat (window_size s)) (versions s) (unat h)) (rev [Suc (current_fork_index s)..<Suc n])
       of Some m \<Rightarrow> m | None \<Rightarrow> current_fork_index s)"
proof (induction n)
  case 0
  then show ?case by simp
next
  case (Suc n)
  let ?sup = "\<lambda>m. supporters (heights s) m (versions s)"
  have a: "of_nat (?sup (Suc (Suc n))) + last_versions s (p_version (heights s ! Suc n)) = (of_nat (?sup (Suc n)) :: u32)"
    using supporters_Suc [OF ok Suc.prems] by (simp add: c(1) counts_of_def add.commute)
  have "?sup (Suc n) < 2 ^ 32" using supporters_le [of "heights s" "Suc n" "versions s"] c(2) by linarith
  then have u: "unat (of_nat (?sup (Suc n)) :: u32) = ?sup (Suc n)" by (simp add: unat_of_nat take_bit_nat_eq_self)
  have e: "(h \<ge> p_height (heights s ! Suc n) \<and> (of_nat (?sup (Suc n)) :: u32) \<ge>
        ucast ((window_size s * ucast (p_threshold (heights s ! Suc n)) + 99) div 100))
      \<longleftrightarrow> elected (heights s) (unat (window_size s)) (versions s) (unat h) (Suc n)"
    unfolding elected_def word_le_nat_alt threshold_value [OF ok Suc.prems w] u by simp
  show ?case
  proof (cases "Suc n > current_fork_index s")
    case True
    then have "rev [Suc (current_fork_index s)..<Suc (Suc n)] = Suc n # rev [Suc (current_fork_index s)..<Suc n]" by simp
    then show ?thesis using Suc True by (simp add: Let_def a e del: upt_Suc)
  next
    case False
    then show ?thesis by simp
  qed
qed

lemma get_voted_fork_index_elect:
  assumes "schedule_ok (heights s)" "unat (window_size s) < 2 ^ 32"
    and "last_versions s = counts_of (versions s)" "length (versions s) < 2 ^ 32"
  shows "get_voted_fork_index s h = Some (elect (heights s) (unat (window_size s)) (versions s) (unat h) (current_fork_index s))"
proof -
  have ne: "heights s \<noteq> []" using assms(1) by (simp add: schedule_ok_def)
  then have "supporters (heights s) (Suc (length (heights s) - 1)) (versions s) = 0" by (simp add: supporters_def)
  then show ?thesis using voted_loop_elect [OF assms, of "length (heights s) - 1" h] ne
    by (simp add: get_voted_fork_index_def elect_def)
qed

lemma apply_votes_elect:
  assumes "schedule_ok (heights s)" "unat (window_size s) < 2 ^ 32"
    and "last_versions s = counts_of (versions s)" "length (versions s) < 2 ^ 32" "current_fork_index s < length (heights s)"
  shows "apply_votes h s = Some (s\<lparr>current_fork_index :=
    elect (heights s) (unat (window_size s)) (versions s) (unat h) (current_fork_index s)\<rparr>)"
proof -
  let ?e = "elect (heights s) (unat (window_size s)) (versions s) (unat h) (current_fork_index s)"
  have "?e < length (heights s)" using assms(5) by (rule elect_bounds)
  then have u: "unat (of_nat ?e :: byte) = ?e"
    using schedule_length [OF assms(1)] by (simp add: unat_of_nat take_bit_nat_eq_self)
  have "current_fork_index s \<le> ?e" by (rule elect_bounds)
  then show ?thesis unfolding apply_votes_def get_voted_fork_index_elect [OF assms(1-4)] by (auto simp: u Let_def)
qed

end
