(* ===== verification/Hard_Fork_Chain.thy ===== *)
theory Hard_Fork_Chain
  imports Hard_Fork
begin

text \<open>
  The hard fork object along the life of a node: blocks added, popped and reorganized over, and
  restarts.  Its state is a function of the chain, given by the specification in \<open>Hard_Fork\<close>.
\<close>

section \<open>States in step with the chain\<close>

abbreviation chain :: "hardfork \<Rightarrow> blk list" where
  "chain s \<equiv> db_blocks (db s)"

definition block_votes :: "hardfork \<Rightarrow> byte list" where
  "block_votes s = map (\<lambda>b. get_effective_version s (get_block_vote b)) (chain s)"

definition window_at :: "hardfork \<Rightarrow> nat \<Rightarrow> byte list" where
  "window_at s k = window (unat (window_size s)) (block_votes s) k"

definition index_at :: "hardfork \<Rightarrow> nat \<Rightarrow> nat" where
  "index_at s k = in_force (heights s) (unat (window_size s)) (block_votes s) k"

definition version_at :: "hardfork \<Rightarrow> nat \<Rightarrow> byte" where
  "version_at s k = p_version (heights s ! index_at s k)"

text \<open>The state a hard fork object should have when the chain has \<open>k\<close> blocks.\<close>

definition at_height :: "nat \<Rightarrow> hardfork \<Rightarrow> hardfork" where
  "at_height k s = s\<lparr>versions := window_at s k, last_versions := counts_of (window_at s k), current_fork_index := index_at s k\<rparr>"

definition config_ok :: "hardfork \<Rightarrow> bool" where
  "config_ok s \<longleftrightarrow> schedule_ok (heights s) \<and> p_version (heights s ! 0) = original_version s
    \<and> 0 < unat (window_size s) \<and> unat (window_size s) < 2 ^ 32 \<and> Suc (length (chain s)) < 2 ^ 64"

definition admissible :: "hardfork \<Rightarrow> nat \<Rightarrow> blk \<Rightarrow> bool" where
  "admissible s k b \<longleftrightarrow> get_block_version b = version_at s k \<and> version_at s k \<le> get_block_vote b"

definition chain_ok :: "hardfork \<Rightarrow> bool" where
  "chain_ok s \<longleftrightarrow> config_ok s \<and> (\<forall>h<length (chain s). admissible s h (chain s ! h))"

definition recorded :: "hardfork \<Rightarrow> bool" where
  "recorded s \<longleftrightarrow> (\<forall>h<length (chain s). get_hard_fork_version s (of_nat h) = Some (version_at s h))"

definition synced :: "hardfork \<Rightarrow> bool" where
  "synced s \<longleftrightarrow> chain_ok s \<and> recorded s \<and> s = at_height (length (chain s)) s"

lemma length_block_votes [simp]: "length (block_votes s) = length (chain s)"
  by (simp add: block_votes_def)

lemma length_window: "k \<le> length vs \<Longrightarrow> length (window W vs k) = min W k"
  by (simp add: window_def)

lemma window_Suc:
  assumes "k < length vs" "0 < W"
  shows "drop (Suc (length (window W vs k)) - W) (window W vs k) @ [vs ! k] = window W vs (Suc k)"
proof (cases "k < W")
  case True
  then show ?thesis using assms by (simp add: window_def take_Suc_conv_app_nth)
next
  case False
  then have "Suc (length (window W vs k)) - W = 1" using assms by (simp add: length_window)
  then show ?thesis using False assms by (simp add: window_def take_Suc_conv_app_nth Suc_diff_le)
qed

lemma same_config [simp]:
  "block_votes (s\<lparr>versions := a\<rparr>) = block_votes s" "block_votes (s\<lparr>last_versions := b\<rparr>) = block_votes s"
  "block_votes (s\<lparr>current_fork_index := c\<rparr>) = block_votes s"
  "block_votes (set_hard_fork_version h v s) = block_votes s"
  "heights (set_hard_fork_version h v s) = heights s" "window_size (set_hard_fork_version h v s) = window_size s"
  "chain (set_hard_fork_version h v s) = chain s" "original_version (set_hard_fork_version h v s) = original_version s"
  by (simp_all add: block_votes_def get_effective_version_def set_hard_fork_version_def)

lemma window_at_same [simp]:
  "window_at (s\<lparr>versions := a\<rparr>) k = window_at s k" "window_at (s\<lparr>last_versions := b\<rparr>) k = window_at s k"
  "window_at (s\<lparr>current_fork_index := c\<rparr>) k = window_at s k" "window_at (set_hard_fork_version h v s) k = window_at s k"
  by (simp_all add: window_at_def)

lemma index_at_same [simp]:
  "index_at (s\<lparr>versions := a\<rparr>) k = index_at s k" "index_at (s\<lparr>last_versions := b\<rparr>) k = index_at s k"
  "index_at (s\<lparr>current_fork_index := c\<rparr>) k = index_at s k" "index_at (set_hard_fork_version h v s) k = index_at s k"
  by (simp_all add: index_at_def)

lemma at_height_fields [simp]:
  "versions (at_height k s) = window_at s k" "last_versions (at_height k s) = counts_of (window_at s k)"
  "current_fork_index (at_height k s) = index_at s k" "heights (at_height k s) = heights s"
  "window_size (at_height k s) = window_size s" "db (at_height k s) = db s" "original_version (at_height k s) = original_version s"
  by (simp_all add: at_height_def)

lemma index_at_less: "config_ok s \<Longrightarrow> index_at s k < length (heights s)"
  by (simp add: index_at_def config_ok_def schedule_ok_def in_force_less)

lemma index_at_Suc:
  "index_at s (Suc k) = elect (heights s) (unat (window_size s)) (window_at s (Suc k)) (Suc k) (index_at s k)"
  by (simp add: index_at_def window_at_def)

lemma length_window_at: "k \<le> length (chain s) \<Longrightarrow> length (window_at s k) = min (unat (window_size s)) k"
  by (simp add: window_at_def length_window)

lemma window_at_small: "config_ok s \<Longrightarrow> k \<le> length (chain s) \<Longrightarrow> length (window_at s k) < 2 ^ 32"
  by (simp add: length_window_at config_ok_def min_less_iff_disj)

lemma unat_height: "config_ok s \<Longrightarrow> k \<le> length (chain s) \<Longrightarrow> unat (of_nat k :: u64) = k"
  by (simp add: config_ok_def unat_of_nat take_bit_nat_eq_self)

lemma unat_height_Suc:
  assumes "config_ok s" "k \<le> length (chain s)" shows "unat (of_nat k + 1 :: u64) = Suc k"
proof -
  have "(of_nat k + 1 :: u64) = of_nat (Suc k)" by simp
  then show ?thesis unfolding unat_of_nat using assms by (simp only: unat_of_nat config_ok_def) simp
qed

lemma elect_at_height:
  assumes "config_ok s" "Suc k \<le> length (chain s)"
  shows "apply_votes (of_nat k + 1) (s\<lparr>versions := window_at s (Suc k), last_versions := counts_of (window_at s (Suc k)),
      current_fork_index := index_at s k\<rparr>) = Some (at_height (Suc k) s)"
  using assms index_at_less [OF assms(1), of k] window_at_small [OF assms]
  by (subst apply_votes_elect)
    (simp_all add: config_ok_def unat_height_Suc [OF assms(1)] at_height_def index_at_Suc)

lemma add_block_step:
  assumes c: "config_ok s" and k: "k < length (chain s)" and a: "admissible s k (chain s ! k)"
  shows "add_block (chain s ! k) (of_nat k) (at_height k s)
    = Some (True, at_height (Suc k) (set_hard_fork_version (of_nat k) (version_at s k) s))"
proof -
  let ?s = "set_hard_fork_version (of_nat k) (version_at s k) s"
  have f: "fork_at_index (at_height k s) (index_at s k) = Some (heights s ! index_at s k)"
    using index_at_less [OF c] by (simp add: fork_at_index_def)
  have d: "do_check (at_height k s) (get_block_version (chain s ! k)) (get_block_vote (chain s ! k)) = Some True"
    using a f by (simp add: do_check_def admissible_def version_at_def)
  have h: "set_hard_fork_version (of_nat k) (version_at s k) (at_height k s) = at_height k ?s"
    by (simp add: at_height_def) (simp add: set_hard_fork_version_def)
  have t: "trim (window_size s) (counts_of (window_at s k)) (window_at s k)
      = Some (let us = drop (Suc (length (window_at s k)) - unat (window_size s)) (window_at s k) in (counts_of us, us))"
    using c k window_at_small [OF c, of k] by (intro trim_counts) (simp_all add: config_ok_def)
  have w: "drop (Suc (length (window_at s k)) - unat (window_size s)) (window_at s k)
      @ [get_effective_version s (get_block_vote (chain s ! k))] = window_at s (Suc k)"
    using window_Suc [of k "block_votes s" "unat (window_size s)"] c k by (simp add: window_at_def config_ok_def block_votes_def)
  have e: "get_effective_version (at_height k ?s) = get_effective_version s"
    by (simp add: get_effective_version_def fun_eq_iff)
  have c': "config_ok ?s" using c by (simp add: config_ok_def)
  define us where "us = drop (Suc (length (window_at s k)) - unat (window_size s)) (window_at s k)"
  have p: "push_version (get_effective_version s (get_block_vote (chain s ! k))) ((at_height k ?s)\<lparr>last_versions := counts_of us, versions := us\<rparr>)
      = ?s\<lparr>versions := window_at ?s (Suc k), last_versions := counts_of (window_at ?s (Suc k)), current_fork_index := index_at ?s k\<rparr>"
    using w by (simp add: push_version_def counts_of_snoc us_def [symmetric] at_height_def)
  have "apply_votes (of_nat k + 1) (push_version (get_effective_version s (get_block_vote (chain s ! k)))
      ((at_height k ?s)\<lparr>last_versions := counts_of us, versions := us\<rparr>)) = Some (at_height (Suc k) ?s)"
    unfolding p using k by (intro elect_at_height [OF c']) simp
  then show ?thesis
    unfolding add_block_def add_def d
    by (simp add: f h version_at_def [symmetric] e t us_def [symmetric] Let_def)
qed

section \<open>Replaying the chain\<close>

definition record_versions :: "nat list \<Rightarrow> hardfork \<Rightarrow> hardfork" where
  "record_versions hs s = fold (\<lambda>h. set_hard_fork_version (of_nat h) (version_at s h)) hs s"

lemma version_at_same [simp]:
  "version_at (s\<lparr>versions := a\<rparr>) k = version_at s k" "version_at (s\<lparr>last_versions := b\<rparr>) k = version_at s k"
  "version_at (s\<lparr>current_fork_index := c\<rparr>) k = version_at s k" "version_at (set_hard_fork_version h v s) k = version_at s k"
  by (simp_all add: version_at_def)

lemma config_ok_same [simp]:
  "config_ok (s\<lparr>versions := a\<rparr>) = config_ok s" "config_ok (s\<lparr>last_versions := b\<rparr>) = config_ok s"
  "config_ok (s\<lparr>current_fork_index := c\<rparr>) = config_ok s" "config_ok (set_hard_fork_version h v s) = config_ok s"
  by (simp_all add: config_ok_def)

lemma admissible_same [simp]:
  "admissible (set_hard_fork_version h v s) k b = admissible s k b"
  by (simp add: admissible_def)

lemma set_recorded [simp]: "get_hard_fork_version s h = Some v \<Longrightarrow> set_hard_fork_version h v s = s"
  by (simp add: get_hard_fork_version_def set_hard_fork_version_def fun_upd_idem)

lemma record_versions_Cons:
  "record_versions (h # hs) s = record_versions hs (set_hard_fork_version (of_nat h) (version_at s h) s)"
  by (simp add: record_versions_def)

lemma record_versions_idem: "recorded s \<Longrightarrow> set hs \<subseteq> {..<length (chain s)} \<Longrightarrow> record_versions hs s = s"
  by (induction hs) (simp_all add: record_versions_def recorded_def)

lemma at_height_db [simp]:
  "get_block_from_height (at_height k s) h = get_block_from_height s h" "db_height (at_height k s) = db_height s"
  "get_hard_fork_version (at_height k s) h = get_hard_fork_version s h"
  by (simp_all add: get_block_from_height_def db_height_def get_hard_fork_version_def)

lemma get_block_at: "config_ok s \<Longrightarrow> k < length (chain s) \<Longrightarrow> get_block_from_height s (of_nat k) = Some (chain s ! k)"
  by (simp add: get_block_from_height_def unat_height)

lemma add_all_replays:
  assumes "k \<le> n" "n \<le> length (chain s)" "config_ok s" "\<forall>h<length (chain s). admissible s h (chain s ! h)"
  shows "add_all [k..<n] (at_height k s) = Some (at_height n (record_versions [k..<n] s))"
  using assms
proof (induction k arbitrary: s rule: inc_induct)
  case base
  then show ?case by (simp add: record_versions_def)
next
  case (step k)
  let ?s = "set_hard_fork_version (of_nat k) (version_at s k) s"
  have "get_block_from_height (at_height k s) (of_nat k) = Some (chain s ! k)"
    using step get_block_at [of s k] by simp
  moreover have "add_block (chain s ! k) (of_nat k) (at_height k s) = Some (True, at_height (Suc k) ?s)"
    using step by (intro add_block_step) simp_all
  moreover have "add_all [Suc k..<n] (at_height (Suc k) ?s) = Some (at_height n (record_versions [Suc k..<n] ?s))"
    using step by (intro step.IH) simp_all
  moreover have "[k..<n] = k # [Suc k..<n]" using step by (simp add: upt_conv_Cons)
  ultimately show ?case by (simp only: add_all.simps record_versions_Cons) simp
qed

lemma tally_counts:
  assumes "a \<le> b" "b \<le> length (chain s)" "config_ok s" "last_versions s = counts_of (versions s)"
  shows "tally [a..<b] s = Some (s\<lparr>versions := versions s @ drop a (take b (block_votes s)),
    last_versions := counts_of (versions s @ drop a (take b (block_votes s)))\<rparr>)"
  using assms
proof (induction a arbitrary: s rule: inc_induct)
  case base
  then show ?case by simp
next
  case (step a)
  let ?v = "get_effective_version s (get_block_vote (chain s ! a))"
  have g: "get_block_from_height s (of_nat a) = Some (chain s ! a)" using step get_block_at [of s a] by simp
  have d: "drop a (take b (block_votes s)) = ?v # drop (Suc a) (take b (block_votes s))"
    using step by (simp add: Cons_nth_drop_Suc [symmetric] block_votes_def)
  have p: "push_version ?v s = s\<lparr>versions := versions s @ [?v], last_versions := counts_of (versions s @ [?v])\<rparr>"
    using step.prems(3) by (simp add: push_version_def counts_of_snoc)
  have "[a..<b] = a # [Suc a..<b]" using step by (simp add: upt_conv_Cons)
  then show ?case using step.IH [of "push_version ?v s"] step.prems by (simp add: g d p)
qed

lemma unwind_stops:
  assumes "schedule_ok ps" shows "i \<le> c \<Longrightarrow> c < length ps \<Longrightarrow> unwind ps (p_version (ps ! i)) c = Some i"
proof (induction c)
  case 0
  then show ?case by simp
next
  case (Suc c)
  then show ?case using version_less_iff [OF assms, of i "Suc c"] by (auto simp: le_Suc_eq)
qed

lemma find_version_finds: "distinct (map p_version ps) \<Longrightarrow> i < length ps \<Longrightarrow> find_version ps (p_version (ps ! i)) = i"
proof (induction ps arbitrary: i rule: induct_list012)
  case (3 p q ps)
  show ?case
  proof (cases i)
    case (Suc j)
    then have "(q # ps) ! j \<in> set (q # ps)" using 3 by (intro nth_mem) simp
    then have "p_version p \<noteq> p_version ((q # ps) ! j)" using 3 by auto
    then show ?thesis using 3 Suc by simp
  qed simp
qed simp_all

lemma schedule_distinct: "schedule_ok ps \<Longrightarrow> distinct (map p_version ps)"
  by (simp add: distinct_conv_nth version_eq_iff)

lemma db_height_less: "config_ok s \<Longrightarrow> k < length (chain s) \<Longrightarrow> \<not> of_nat k \<ge> db_height s"
  by (simp add: db_height_def word_le_nat_alt unat_height [of s k] unat_height [of s "length (chain s)"])

lemma rescan_start:
  assumes "config_ok s" "k < length (chain s)"
  shows "unat (if of_nat k \<ge> window_size s - 1 then of_nat k - (window_size s - 1) else 0) = Suc k - unat (window_size s)"
proof -
  have k: "unat (of_nat k :: u64) = k" using assms by (simp add: unat_height)
  have "window_size s \<noteq> 0" using assms(1) by (auto simp: config_ok_def)
  then have w: "unat (window_size s - 1) = unat (window_size s) - 1" by (simp add: unat_minus_one)
  show ?thesis
  proof (cases "of_nat k \<ge> window_size s - 1")
    case True
    then have "unat (of_nat k - (window_size s - 1)) = k - (unat (window_size s) - 1)" by (simp add: unat_sub k w)
    then show ?thesis using True assms(1) by (simp add: config_ok_def Suc_diff_le)
  next
    case False
    then show ?thesis by (simp add: word_le_nat_alt k w)
  qed
qed

lemma tally_window:
  assumes "config_ok s" "b \<le> length (chain s)"
  shows "tally [b - unat (window_size s)..<b] ((clear s)\<lparr>current_fork_index := n\<rparr>) =
    Some (s\<lparr>versions := window_at s b, last_versions := counts_of (window_at s b), current_fork_index := n\<rparr>)"
  using assms tally_counts [of "b - unat (window_size s)" b "(clear s)\<lparr>current_fork_index := n\<rparr>"]
  by (simp add: clear_def window_at_def window_def)

text \<open>Reorganizing replays the chain from a block on, whatever the counters were before.\<close>

lemma reorganize_replays:
  assumes c: "chain_ok s" and k: "k < length (chain s)"
    and v: "k \<noteq> 0 \<Longrightarrow> get_hard_fork_version s (of_nat k) = Some (version_at s k)"
    and i: "index_at s k \<le> current_fork_index s" "current_fork_index s < length (heights s)"
  shows "reorganize_from_block_height (of_nat k) s
    = Some (True, at_height (length (chain s)) (record_versions [Suc k..<length (chain s)] s))"
proof -
  have cc: "config_ok s" using c by (simp add: chain_ok_def)
  have z: "(of_nat k = (0 :: u64)) \<longleftrightarrow> k = 0" 
    unfolding unat_eq_zero [symmetric] using unat_height [OF cc, of k] k by simp
  have sv: "(if of_nat k = (0 :: u64) then Some (original_version s) else get_hard_fork_version s (of_nat k)) = Some (version_at s k)"
    using v cc by (auto simp: z version_at_def index_at_def config_ok_def)
  have u: "unwind (heights s) (version_at s k) (current_fork_index s) = Some (index_at s k)"
    unfolding version_at_def using cc i by (intro unwind_stops) (simp_all add: config_ok_def)
  have t: "tally [Suc k - unat (window_size s)..<Suc k] ((clear s)\<lparr>current_fork_index := index_at s k\<rparr>)
      = Some (s\<lparr>versions := window_at s (Suc k), last_versions := counts_of (window_at s (Suc k)), current_fork_index := index_at s k\<rparr>)"
    using k by (intro tally_window [OF cc]) simp
  have a: "add_all [Suc k..<length (chain s)] (at_height (Suc k) s)
      = Some (at_height (length (chain s)) (record_versions [Suc k..<length (chain s)] s))"
    using c k by (intro add_all_replays) (simp_all add: chain_ok_def)
  have cl: "heights (clear s) = heights s" "window_size (clear s) = window_size s" "original_version (clear s) = original_version s"
    "get_hard_fork_version (clear s) h = get_hard_fork_version s h" "current_fork_index (clear s) = current_fork_index s" for h
    by (simp_all add: clear_def get_hard_fork_version_def)
  have h: "unat (db_height s) = length (chain s)" using unat_height [OF cc order_refl] by (simp add: db_height_def)
  show ?thesis
    unfolding reorganize_from_block_height_def Let_def cl sv
    using db_height_less [OF cc k] rescan_start [OF cc k] elect_at_height [OF cc, of k] k
    by (simp add: u t a h unat_height [OF cc, of k] del: upt_Suc)
qed

lemma record_versions_snoc:
  "record_versions (hs @ [h]) s = set_hard_fork_version (of_nat h) (version_at s h) (record_versions hs s)"
  by (simp add: record_versions_def)

lemma record_versions_same [simp]:
  "block_votes (record_versions hs s) = block_votes s" "heights (record_versions hs s) = heights s"
  "window_size (record_versions hs s) = window_size s" "chain (record_versions hs s) = chain s"
  "original_version (record_versions hs s) = original_version s"
  by (induction hs rule: rev_induct) (simp_all add: record_versions_snoc, simp_all add: record_versions_def)

lemma get_set_version:
  "get_hard_fork_version (set_hard_fork_version h v s) h' = (if h' = h then Some v else get_hard_fork_version s h')"
  by (simp add: get_hard_fork_version_def set_hard_fork_version_def)

lemma get_record_versions:
  "h \<in> set hs \<Longrightarrow> set hs \<subseteq> {..<2 ^ 64} \<Longrightarrow> get_hard_fork_version (record_versions hs s) (of_nat h) = Some (version_at s h)"
proof (induction hs rule: rev_induct)
  case (snoc x hs)
  have "(of_nat h = (of_nat x :: u64)) \<longleftrightarrow> h = x" using snoc.prems
    by (auto simp: word_unat_eq_iff unat_of_nat take_bit_nat_eq_self subset_iff)
  then show ?case using snoc by (auto simp: record_versions_snoc get_set_version)
qed simp

lemma chain_facts_same:
  assumes "block_votes t = block_votes s" "heights t = heights s" "window_size t = window_size s" "chain t = chain s"
    and "original_version t = original_version s"
  shows "version_at t k = version_at s k" "window_at t k = window_at s k" "index_at t k = index_at s k" "chain_ok t = chain_ok s"
  using assms by (simp_all add: version_at_def window_at_def index_at_def chain_ok_def config_ok_def admissible_def)

lemma synced_at_height: "chain_ok s \<Longrightarrow> recorded s \<Longrightarrow> synced (at_height (length (chain s)) s)"
proof -
  assume a: "chain_ok s" "recorded s"
  let ?t = "at_height (length (chain s)) s"
  have v: "block_votes ?t = block_votes s" by (simp add: at_height_def)
  note f = chain_facts_same [OF v]
  show "synced ?t" unfolding synced_def recorded_def using a
    by (simp add: f recorded_def) (simp add: at_height_def)
qed

lemma rescan_replays:
  assumes c: "chain_ok s" and r: "recorded s" and n: "0 < length (chain s)"
  shows "rescan_from_chain_height (if db_height s > window_size s then db_height s - (window_size s - 1) else 1) ((clear s)\<lparr>current_fork_index := 0\<rparr>)
    = Some (True, at_height (length (chain s)) s)"
proof -
  have cc: "config_ok s" using c by (simp add: chain_ok_def)
  define k where "k = length (chain s) - 1"
  have k: "Suc k = length (chain s)" "k < length (chain s)" using n by (simp_all add: k_def)
  have h: "unat (db_height s) = Suc k" using unat_height [OF cc order_refl] k by (simp add: db_height_def)
  have w: "0 < unat (window_size s)" using cc by (simp add: config_ok_def)
  then have w0: "window_size s \<noteq> 0" by auto
  let ?h = "if db_height s > window_size s then db_height s - (window_size s - 1) else 1"
  have h0: "unat ?h = (if Suc k > unat (window_size s) then Suc k - (unat (window_size s) - 1) else 1)"
    using h w w0 by (auto simp: word_less_nat_alt unat_sub word_le_nat_alt unat_minus_one)
  then have z: "?h \<noteq> 0" using w unat_eq_zero [of ?h] by (auto split: if_splits)
  then have h1: "unat (?h - 1) = Suc k - unat (window_size s)" using h0 w by (auto simp: unat_minus_one)
  then have l: "\<not> ?h - 1 \<ge> db_height s" using w by (simp add: word_le_nat_alt h)
  have d: "db_height s = of_nat k + 1" "db_height s - 1 = of_nat k" using k by (simp_all add: db_height_def flip: k(1))
  have t: "tally [Suc k - unat (window_size s)..<Suc k] (clear ((clear s)\<lparr>current_fork_index := 0\<rparr>))
      = Some (s\<lparr>versions := window_at s (Suc k), last_versions := counts_of (window_at s (Suc k)), current_fork_index := 0\<rparr>)"
    using tally_window [OF cc, of "Suc k" 0] k by (cases s) (simp add: clear_def)
  have v: "get_hard_fork_version s (of_nat k) = Some (version_at s k)" using r k by (simp add: recorded_def)
  have f: "find_version (heights s) (version_at s k) = index_at s k"
    unfolding version_at_def using cc index_at_less [OF cc]
    by (intro find_version_finds) (simp_all add: config_ok_def schedule_distinct)
  let ?s0 = "(clear s)\<lparr>current_fork_index := 0\<rparr>"
  have s0: "db_height ?s0 = db_height s" by (simp add: db_height_def clear_def)
  have s1: "db_height (s\<lparr>versions := a, last_versions := b, current_fork_index := c\<rparr>) = db_height s"
    "get_hard_fork_version (s\<lparr>versions := a, last_versions := b, current_fork_index := c\<rparr>) h = get_hard_fork_version s h" for a b c h
    by (simp_all add: db_height_def get_hard_fork_version_def)
  show ?thesis
    unfolding rescan_from_chain_height_def rescan_from_block_height_def if_not_P [OF z] s0 if_not_P [OF l] h1 h t bind.bind_lunit s1 d(2) v
    using elect_at_height [OF cc, of k] k by (simp add: s1 f d(1))
qed

lemma clear_fields [simp]:
  "heights (clear s) = heights s" "window_size (clear s) = window_size s" "db (clear s) = db s"
  "original_version (clear s) = original_version s" "block_votes (clear s) = block_votes s"
  "version_at (clear s) k = version_at s k"
  by (simp_all add: clear_def)

lemma init_eq:
  assumes "heights s \<noteq> []"
  shows "init s = (if get_hard_fork_version s 0 = None
     then do { (r, t) \<leftarrow> reorganize_from_chain_height 1 ((clear s)\<lparr>current_fork_index := 0\<rparr>); Some (set_hard_fork_version 0 (original_version t) t) }
     else do { (r, t) \<leftarrow> rescan_from_chain_height (if db_height s > window_size s then db_height s - (window_size s - 1) else 1)
       ((clear s)\<lparr>current_fork_index := 0\<rparr>); Some t })"
proof -
  let ?s = "(clear s)\<lparr>current_fork_index := 0\<rparr>"
  have "get_hard_fork_version ?s 0 = get_hard_fork_version s 0" "db_height ?s = db_height s" "window_size ?s = window_size s"
    by (simp_all add: get_hard_fork_version_def db_height_def clear_def)
  then show ?thesis unfolding init_def Let_def if_not_P [OF assms] by simp
qed

lemma config_nonempty: "config_ok s \<Longrightarrow> heights s \<noteq> []"
  by (simp add: config_ok_def schedule_ok_def)

text \<open>On an empty chain there is nothing to read back.\<close>

lemma init_empty:
  assumes "chain_ok s" "chain s = []"
  shows "\<exists>t. init s = Some t \<and> synced t"
proof -
  have cc: "config_ok s" using assms(1) by (simp add: chain_ok_def)
  let ?s = "(clear s)\<lparr>current_fork_index := 0\<rparr>"
  have h: "db_height ?s = 0" "db_height s = 0" using assms(2) by (simp_all add: db_height_def clear_def)
  have w: "\<not> (0 :: u64) > window_size s" by simp
  have s: "?s = at_height 0 s" by (simp add: clear_def at_height_def window_at_def window_def index_at_def)
  have r: "recorded s" "recorded (set_hard_fork_version 0 v s)" "chain_ok (set_hard_fork_version 0 v s)" for v
    using assms by (simp_all add: recorded_def chain_ok_def)
  have e: "set_hard_fork_version 0 (original_version ?s) ?s = at_height 0 (set_hard_fork_version 0 (original_version s) s)"
    unfolding s by (simp add: at_height_def) (simp add: set_hard_fork_version_def)
  have "synced ?s" using synced_at_height [OF assms(1) r(1)] assms(2) by (simp only: s list.size)
  moreover have "synced (set_hard_fork_version 0 (original_version ?s) ?s)"
    using synced_at_height [OF r(3) r(2), of "original_version s"] assms(2) unfolding e by simp
  ultimately show ?thesis
    using w by (simp add: init_eq [OF config_nonempty [OF cc]] reorganize_from_chain_height_def
      reorganize_from_block_height_def rescan_from_chain_height_def rescan_from_block_height_def h)
qed

lemma init_restores:
  assumes "chain_ok s" "recorded s" "chain s \<noteq> []"
  shows "init s = Some (at_height (length (chain s)) s)"
proof -
  have nz: "get_hard_fork_version s 0 \<noteq> None" using assms(2,3) unfolding recorded_def by force
  have ne: "heights s \<noteq> []" using assms(1) config_nonempty by (simp add: chain_ok_def)
  have n: "0 < length (chain s)" using assms(3) by simp
  show ?thesis unfolding init_eq [OF ne] if_not_P [OF nz] rescan_replays [OF assms(1,2) n] by simp
qed

lemma init_populates:
  assumes c: "chain_ok s" and n: "chain s \<noteq> []" and z: "get_hard_fork_version s 0 = None"
  shows "\<exists>t. init s = Some t \<and> synced t"
proof -
  have cc: "config_ok s" using c by (simp add: chain_ok_def)
  let ?s = "(clear s)\<lparr>current_fork_index := 0\<rparr>" and ?n = "length (chain s)"
  have f: "block_votes ?s = block_votes s" "heights ?s = heights s" "window_size ?s = window_size s" "chain ?s = chain s"
    "original_version ?s = original_version s" by (simp_all add: clear_def)
  note g = chain_facts_same [OF f]
  let ?r = "record_versions [Suc 0..<?n] ?s"
  have r: "reorganize_from_block_height (of_nat 0) ?s = Some (True, at_height ?n ?r)"
    using reorganize_replays [of ?s 0] c n config_nonempty [OF cc] by (simp add: f g index_at_def)
  let ?t = "set_hard_fork_version 0 (original_version s) ?r"
  have e: "set_hard_fork_version 0 (original_version s) (at_height ?n ?r) = at_height ?n ?t"
    by (simp add: at_height_def) (simp add: set_hard_fork_version_def)
  have t: "block_votes ?t = block_votes s" "heights ?t = heights s" "window_size ?t = window_size s" "chain ?t = chain s"
    "original_version ?t = original_version s" by (simp_all add: f)
  note k = chain_facts_same [OF t]
  have v0: "version_at s 0 = original_version s" using cc by (simp add: version_at_def index_at_def config_ok_def)
  have "get_hard_fork_version ?t (of_nat h) = Some (version_at s h)" if "h < ?n" for h
  proof (cases "h = 0")
    case False
    then have "of_nat h \<noteq> (0 :: u64)" using unat_height [OF cc, of h] that by (auto simp flip: unat_eq_zero)
    moreover have "get_hard_fork_version ?r (of_nat h) = Some (version_at ?s h)"
      using False that cc by (intro get_record_versions) (auto simp: config_ok_def)
    ultimately show ?thesis by (simp add: get_set_version g)
  qed (simp add: get_set_version v0)
  then have rt: "recorded ?t" unfolding recorded_def t(4) k(1) by blast
  have ct: "chain_ok ?t" using c by (simp only: k(4))
  have "synced (at_height ?n ?t)" using synced_at_height [OF ct rt] unfolding t(4) .
  moreover have "init s = Some (at_height ?n ?t)"
    using r z by (simp add: init_eq [OF config_nonempty [OF cc]] reorganize_from_chain_height_def f e)
  ultimately show ?thesis by blast
qed

section \<open>The life of a node\<close>

definition append_block :: "blk \<Rightarrow> hardfork \<Rightarrow> hardfork" where
  "append_block b s = s\<lparr>db := (db s)\<lparr>db_blocks := chain s @ [b]\<rparr>\<rparr>"

definition pop_blocks :: "nat \<Rightarrow> hardfork \<Rightarrow> hardfork" where
  "pop_blocks m s = s\<lparr>db := (db s)\<lparr>db_blocks := take m (chain s)\<rparr>\<rparr>"

lemma append_fields [simp]:
  "heights (append_block b s) = heights s" "window_size (append_block b s) = window_size s" "chain (append_block b s) = chain s @ [b]"
  "original_version (append_block b s) = original_version s" "current_fork_index (append_block b s) = current_fork_index s"
  "block_votes (append_block b s) = block_votes s @ [get_effective_version s (get_block_vote b)]"
  by (simp_all add: append_block_def block_votes_def get_effective_version_def)

lemma pop_fields [simp]:
  "heights (pop_blocks m s) = heights s" "window_size (pop_blocks m s) = window_size s" "chain (pop_blocks m s) = take m (chain s)"
  "original_version (pop_blocks m s) = original_version s" "current_fork_index (pop_blocks m s) = current_fork_index s"
  "block_votes (pop_blocks m s) = take m (block_votes s)"
  by (simp_all add: pop_blocks_def block_votes_def get_effective_version_def take_map)

lemma append_at:
  assumes "k \<le> length (chain s)"
  shows "index_at (append_block b s) k = index_at s k" "version_at (append_block b s) k = version_at s k"
    "window_at (append_block b s) k = window_at s k"
  using assms by (simp_all add: index_at_def version_at_def window_at_def in_force_append window_append)

lemma pop_at:
  assumes "k \<le> m" "m \<le> length (chain s)"
  shows "index_at (pop_blocks m s) k = index_at s k" "version_at (pop_blocks m s) k = version_at s k"
  using assms by (simp_all add: index_at_def version_at_def in_force_take)

lemma pop_chain_ok:
  assumes "chain_ok s" "recorded s" "m \<le> length (chain s)"
  shows "chain_ok (pop_blocks m s)" "recorded (pop_blocks m s)"
  using assms unfolding chain_ok_def recorded_def
  by (auto simp: config_ok_def admissible_def pop_at) (simp add: pop_blocks_def get_hard_fork_version_def)

lemma reorganize_after_pop:
  assumes "synced s" "0 < k" "k \<le> m" "m \<le> length (chain s)"
  shows "reorganize_from_chain_height (of_nat k) (pop_blocks m s) = Some (True, at_height m (pop_blocks m s))"
proof -
  let ?p = "pop_blocks m s" and ?k = "k - 1"
  have c: "chain_ok ?p" "recorded ?p" using assms pop_chain_ok [of s m] by (simp_all add: synced_def)
  have cc: "config_ok s" using assms(1) by (simp add: synced_def chain_ok_def)
  have i: "current_fork_index s = index_at s (length (chain s))"
    using assms(1) unfolding synced_def by (metis at_height_fields(3))
  have j: "index_at ?p ?k \<le> current_fork_index ?p" "current_fork_index ?p < length (heights ?p)"
    using assms index_at_less [OF cc] by (simp_all add: pop_at i) (simp add: index_at_def in_force_mono)
  have lm: "length (chain ?p) = m" and l: "?k < length (chain ?p)" using assms by auto
  have v: "get_hard_fork_version ?p (of_nat ?k) = Some (version_at ?p ?k)" using c(2) l unfolding recorded_def by blast
  have "of_nat k - 1 = (of_nat ?k :: u64)" using assms(2) by (simp add: of_nat_diff)
  moreover have "of_nat k \<noteq> (0 :: u64)" using unat_height [OF cc, of k] assms by (auto simp flip: unat_eq_zero)
  moreover have "reorganize_from_block_height (of_nat ?k) ?p = Some (True, at_height m (record_versions [Suc ?k..<m] ?p))"
    using reorganize_replays [OF c(1) l v j] unfolding lm .
  moreover have "record_versions [Suc ?k..<m] ?p = ?p" using c(2) assms by (intro record_versions_idem) auto
  ultimately show ?thesis by (simp add: reorganize_from_chain_height_def)
qed

lemma synced_index: "synced s \<Longrightarrow> current_fork_index s = index_at s (length (chain s))"
  unfolding synced_def by (metis at_height_fields(3))

lemma check_admissible:
  assumes "synced s" "check s b = Some True"
  shows "admissible s (length (chain s)) b"
  using assms(2) synced_index [OF assms(1)]
  by (auto simp: check_def do_check_def fork_at_index_def admissible_def version_at_def split: if_splits)

lemma add_checked_block:
  assumes "synced s" "check s b = Some True" "Suc (Suc (length (chain s))) < 2 ^ 64"
  shows "\<exists>t. add_block b (db_height s) (append_block b s) = Some (True, t) \<and> synced t \<and> chain t = chain s @ [b]
    \<and> heights t = heights s \<and> window_size t = window_size s"
proof -
  let ?a = "append_block b s" and ?n = "length (chain s)"
  have c: "chain_ok s" "recorded s" "s = at_height ?n s" using assms(1) by (simp_all add: synced_def)
  have a: "at_height ?n ?a = ?a"
  proof -
    have "at_height ?n ?a = append_block b (at_height ?n s)"
      by (simp add: at_height_def append_at) (simp add: append_block_def)
    then show ?thesis using c(3) by simp
  qed
  have ca: "chain_ok ?a"
    using c(1) assms(3) check_admissible [OF assms(1,2)]
    by (auto simp: chain_ok_def config_ok_def admissible_def append_at nth_append less_Suc_eq)
  let ?t = "set_hard_fork_version (of_nat ?n) (version_at ?a ?n) ?a"
  have "add_block (chain ?a ! ?n) (of_nat ?n) (at_height ?n ?a) = Some (True, at_height (Suc ?n) ?t)"
  proof (rule add_block_step)
    show l: "?n < length (chain ?a)" by simp
    show "config_ok ?a" "admissible ?a ?n (chain ?a ! ?n)" using ca l unfolding chain_ok_def by blast+
  qed
  then have "add_block b (db_height s) ?a = Some (True, at_height (Suc ?n) ?t)" by (simp add: a db_height_def)
  moreover have "get_hard_fork_version ?t (of_nat h) = Some (version_at ?t h)" if "h < Suc ?n" for h
  proof (cases "h = ?n")
    case False
    then have "h < ?n" using that by simp
    moreover have "of_nat h \<noteq> (of_nat ?n :: u64)"
      using False \<open>h < ?n\<close> unat_height [of s h] unat_height [of s ?n] c(1) by (auto simp: chain_ok_def)
    ultimately show ?thesis using c(2)
      by (simp add: get_set_version append_at recorded_def) (simp add: append_block_def get_hard_fork_version_def)
  qed (simp add: get_set_version)
  then have "synced (at_height (length (chain ?t)) ?t)" using ca
    by (intro synced_at_height) (simp_all add: recorded_def chain_ok_def)
  ultimately show ?thesis by auto
qed

text \<open>
  The states of a node: it starts by \<^verbatim>\<open>init\<close> on a chain whose table of versions is complete or missing,
  adds blocks that pass \<^verbatim>\<open>check\<close>, pops blocks and reorganizes at any remaining height, and restarts.
\<close>

inductive hf_node :: "hardfork \<Rightarrow> bool" where
  start: "chain_ok s \<Longrightarrow> recorded s \<or> get_hard_fork_version s 0 = None \<Longrightarrow> init s = Some t \<Longrightarrow> hf_node t"
| block: "hf_node s \<Longrightarrow> check s b = Some True \<Longrightarrow> Suc (Suc (length (chain s))) < 2 ^ 64 \<Longrightarrow>
    add_block b (db_height s) (append_block b s) = Some (r, t) \<Longrightarrow> hf_node t"
| reorganize: "hf_node s \<Longrightarrow> 0 < k \<Longrightarrow> k \<le> m \<Longrightarrow> m \<le> length (chain s) \<Longrightarrow>
    reorganize_from_chain_height (of_nat k) (pop_blocks m s) = Some (r, t) \<Longrightarrow> hf_node t"
| restart: "hf_node s \<Longrightarrow> init s = Some t \<Longrightarrow> hf_node t"

lemma init_synced:
  assumes "chain_ok s" "recorded s \<or> get_hard_fork_version s 0 = None"
  shows "\<exists>t. init s = Some t \<and> synced t"
proof (cases "chain s = []")
  case True
  then show ?thesis using init_empty [OF assms(1)] by blast
next
  case False
  then show ?thesis using assms init_populates [of s] init_restores [of s] synced_at_height [of s] by blast
qed

lemma hf_node_synced: "hf_node s \<Longrightarrow> synced s"
proof (induction rule: hf_node.induct)
  case (start s t)
  then show ?case using init_synced [of s] by auto
next
  case (block s b r t)
  then show ?case using add_checked_block [of s b] by auto
next
  case (reorganize s k m r t)
  then have "t = at_height (length (chain (pop_blocks m s))) (pop_blocks m s)"
    using reorganize_after_pop [of s k m] by simp
  then show ?case using reorganize pop_chain_ok [of s m] synced_at_height [of "pop_blocks m s"]
    by (simp add: synced_def)
next
  case (restart s t)
  then show ?case using init_synced [of s] by (auto simp: synced_def)
qed

section \<open>Schedules without votes\<close>

lemma find_rev_upt:
  "find P (rev [a..<n]) = Some m \<Longrightarrow> a \<le> m \<and> m < n \<and> P m \<and> (\<forall>j. m < j \<and> j < n \<longrightarrow> \<not> P j)"
  "find P (rev [a..<n]) = None \<Longrightarrow> a \<le> j \<Longrightarrow> j < n \<Longrightarrow> \<not> P j"
  by (induction n) (auto simp: less_Suc_eq split: if_splits)

lemma elect_spec:
  assumes "elect ps W win h base = e"
  shows "(e = base \<or> base < e \<and> e < length ps \<and> elected ps W win h e) \<and> (\<forall>m. e < m \<and> m < length ps \<longrightarrow> \<not> elected ps W win h m)"
proof (cases "find (elected ps W win h) (rev [Suc base..<length ps])")
  case None
  then show ?thesis using assms find_rev_upt(2) [OF None] by (simp add: elect_def Suc_le_eq)
next
  case (Some m)
  then show ?thesis using assms find_rev_upt(1) [OF Some] by (simp add: elect_def Suc_le_eq)
qed

lemma last_fork_spec:
  "last_fork ps P n = Some i \<Longrightarrow> 0 < i \<and> i \<le> n \<and> P (ps ! i) \<and> (\<forall>m. i < m \<and> m \<le> n \<longrightarrow> \<not> P (ps ! m))"
  "last_fork ps P n = None \<Longrightarrow> 0 < m \<Longrightarrow> m \<le> n \<Longrightarrow> \<not> P (ps ! m)"
  by (induction n) (auto simp: le_Suc_eq split: if_splits)

definition without_votes :: "params list \<Rightarrow> bool" where
  "without_votes ps \<longleftrightarrow> (\<forall>p\<in>set ps. p_threshold p = 0)"

lemma elected_without_votes:
  "without_votes ps \<Longrightarrow> m < length ps \<Longrightarrow> elected ps W win h m \<longleftrightarrow> unat (p_height (ps ! m)) \<le> h"
  by (simp add: elected_def required_def without_votes_def)

lemma in_force_scheduled:
  assumes ok: "schedule_ok ps" and z: "without_votes ps"
  shows "(in_force ps W vs n = 0 \<or> unat (p_height (ps ! in_force ps W vs n)) \<le> n)
    \<and> (\<forall>m. in_force ps W vs n < m \<and> m < length ps \<longrightarrow> \<not> unat (p_height (ps ! m)) \<le> n)"
proof (induction n)
  case 0
  have "\<not> unat (p_height (ps ! m)) \<le> 0" if "0 < m" "m < length ps" for m
    using before_nth [OF ok that] by (simp add: before_def word_less_nat_alt)
  then show ?case by simp
next
  case (Suc n)
  note e = elect_spec [OF in_force.simps(2) [symmetric, of ps W vs n]]
  have "in_force ps W vs (Suc n) < length ps" using ok in_force_less [of ps W vs "Suc n"] unfolding schedule_ok_def by blast
  then show ?case using Suc e elected_without_votes [OF z] by auto
qed


text \<open>A node of a small network, for the witnesses.\<close>

definition small_node :: "hardfork" where
  "small_node = \<lparr>db = \<lparr>db_blocks = [], db_hf_versions = Map.empty\<rparr>, forked_time = 31557600, update_time = 15778800,
     window_size = 2, default_threshold_percent = 80, original_version = 1, original_version_till_height = 0,
     heights = [fork 1 1 0 10, fork 7 2 0 20], versions = [], last_versions = (\<lambda>v. 5), current_fork_index = 9\<rparr>"

lemma small_node_ok: "chain_ok small_node" "recorded small_node" "chain small_node = []" "without_votes (heights small_node)"
  by (simp_all add: small_node_def chain_ok_def config_ok_def schedule_ok_def before_def fork_def recorded_def without_votes_def)

lemma small_node_init: "init small_node = Some (small_node\<lparr>last_versions := (\<lambda>v. 0), current_fork_index := 0,
    db := \<lparr>db_blocks = [], db_hf_versions = [0 \<mapsto> 1]\<rparr>\<rparr>)"
  by (simp add: small_node_def init_def get_hard_fork_version_def clear_def reorganize_from_chain_height_def
    reorganize_from_block_height_def db_height_def set_hard_fork_version_def)




text \<open>
  C19.  Reorganizing and restarting change nothing but what the chain changed: on a node with a chain,
  \<^verbatim>\<open>init\<close> and \<^verbatim>\<open>reorganize_from_chain_height\<close> at every height of the chain read back exactly the
  state that adding the blocks one by one had produced.
\<close>

theorem hard_fork_replay_identity:
  assumes "hf_node s" "0 < k" "k \<le> length (chain s)"
  shows "init s = Some s \<and> reorganize_from_chain_height (of_nat k) s = Some (True, s)"
proof -
  have s: "synced s" "chain_ok s" "recorded s" "at_height (length (chain s)) s = s" "chain s \<noteq> []"
    using hf_node_synced [OF assms(1)] assms(2,3) unfolding synced_def by auto
  have "pop_blocks (length (chain s)) s = s" by (simp add: pop_blocks_def)
  then have "reorganize_from_chain_height (of_nat k) s = Some (True, s)"
    using reorganize_after_pop [OF s(1) assms(2,3) order_refl] s(4) by simp
  then show ?thesis using init_restores [OF s(2,3,5)] s(4) by simp
qed

abbreviation small_block :: blk where
  "small_block \<equiv> \<lparr>major_version = 1, minor_version = 7\<rparr>"

lemma small_node_genesis:
  "\<exists>t. hf_node t \<and> chain t = [small_block] \<and> heights t = heights small_node \<and> window_size t = 2"
proof -
  let ?t = "small_node\<lparr>last_versions := (\<lambda>v. 0), current_fork_index := 0, db := \<lparr>db_blocks = [], db_hf_versions = [0 \<mapsto> 1]\<rparr>\<rparr>"
  have n: "hf_node ?t" using hf_node.start [of small_node ?t] small_node_ok small_node_init by blast
  have c: "check ?t small_block = Some True"
    by (simp add: small_node_def check_def do_check_def fork_at_index_def get_block_version_def get_block_vote_def fork_def)
  have l: "Suc (Suc (length (chain ?t))) < 2 ^ 64" by simp
  obtain u where u: "add_block small_block (db_height ?t) (append_block small_block ?t) = Some (True, u)" "chain u = chain ?t @ [small_block]"
      "heights u = heights ?t" "window_size u = window_size ?t"
    using add_checked_block [OF hf_node_synced [OF n] c l] by blast
  then show ?thesis using hf_node.block [OF n c l u(1)] by (auto simp: small_node_def)
qed

lemma small_node_blocks:
  "\<exists>t. hf_node t \<and> chain t = [small_block, small_block] \<and> heights t = heights small_node \<and> window_size t = 2"
proof -
  obtain t where t: "hf_node t" "chain t = [small_block]" "heights t = heights small_node" "window_size t = 2"
    using small_node_genesis by blast
  note s = hf_node_synced [OF t(1)]
  have "index_at t (length (chain t)) = 0"
    by (simp add: index_at_def t elect_def elected_def small_node_def fork_def upt_rec)
  then have c: "check t small_block = Some True"
    using synced_index [OF s] t(3)
    by (simp add: small_node_def check_def do_check_def fork_at_index_def get_block_version_def get_block_vote_def fork_def)
  have l: "Suc (Suc (length (chain t))) < 2 ^ 64" by (simp add: t)
  obtain u where u: "add_block small_block (db_height t) (append_block small_block t) = Some (True, u)" "chain u = chain t @ [small_block]"
      "heights u = heights t" "window_size u = window_size t"
    using add_checked_block [OF s c l] by blast
  then show ?thesis using hf_node.block [OF t(1) c l u(1)] t by auto
qed

theorem hard_fork_replay_identity_witness:
  "\<exists>t. chain t = [small_block] \<and> init t = Some t \<and> reorganize_from_chain_height 1 t = Some (True, t)"
proof -
  obtain t where t: "hf_node t" "chain t = [small_block]" using small_node_genesis by blast
  then show ?thesis using hard_fork_replay_identity [OF t(1), of 1] by auto
qed

lemma drop_last: "xs \<noteq> [] \<Longrightarrow> drop (length xs - 1) xs = [last xs]"
  by (induction xs rule: rev_induct) simp_all



definition fork_less :: "params \<Rightarrow> params \<Rightarrow> bool" where
  "fork_less p q \<longleftrightarrow> p_version p < p_version q \<and> p_height p < p_height q \<and> p_time p < p_time q"

lemma transp_fork_less: "transp fork_less"
  by (auto simp: transp_def fork_less_def)

lemma add_fork_appends:
  assumes "p_version p \<noteq> 0" "p_threshold p \<le> 100" "heights s \<noteq> [] \<Longrightarrow> fork_less (last (heights s)) p"
  shows "add_fork (p_version p) (p_height p) (p_threshold p) (p_time p) s = (True, s\<lparr>heights := heights s @ [p]\<rparr>)"
proof -
  have "\<not> (heights s \<noteq> [] \<and> (p_version p \<le> p_version (last (heights s)) \<or> p_height p \<le> p_height (last (heights s))
      \<or> p_time p \<le> p_time (last (heights s))))"
    using assms(3) by (auto simp: fork_less_def)
  moreover have "\<not> p_threshold p > 100" using assms(2) by simp
  ultimately show ?thesis using assms(1) unfolding add_fork_def by (simp only: if_False) simp
qed

lemma add_forks_sorted:
  "\<forall>p\<in>set ps. p_version p \<noteq> 0 \<and> p_threshold p \<le> 100 \<Longrightarrow> sorted_wrt fork_less (heights s @ ps) \<Longrightarrow>
    add_forks ps s = s\<lparr>heights := heights s @ ps\<rparr>"
proof (induction ps arbitrary: s)
  case Nil
  then show ?case by (simp add: add_forks_def)
next
  case (Cons p ps)
  have "add_fork (p_version p) (p_height p) (p_threshold p) (p_time p) s = (True, s\<lparr>heights := heights s @ [p]\<rparr>)"
    using Cons.prems by (intro add_fork_appends) (auto simp: sorted_wrt_append)
  then show ?case using Cons.IH [of "s\<lparr>heights := heights s @ [p]\<rparr>"] Cons.prems by (simp add: add_forks_def)
qed

text \<open>
  C35.  The tables of forks are in order: for every network the loop of \<^verbatim>\<open>Blockchain::init\<close>, which ignores
  the answers of \<^verbatim>\<open>add_fork\<close>, adds every entry of its table, and the schedule asks for no votes.
\<close>

theorem fork_tables_accepted:
  assumes "heights s = []" "ps \<in> {mainnet_hard_forks, testnet_hard_forks, stagenet_hard_forks}"
  shows "add_forks ps s = s\<lparr>heights := ps\<rparr> \<and> schedule_ok ps \<and> without_votes ps"
proof -
  have "(\<forall>p\<in>set ps. p_version p \<noteq> 0 \<and> p_threshold p = 0) \<and> ps \<noteq> [] \<and> sorted_wrt fork_less ps"
    using assms(2) by (auto simp: mainnet_hard_forks_def testnet_hard_forks_def stagenet_hard_forks_def fork_def
      fork_less_def sorted_wrt1 sorted_wrt2 [OF transp_fork_less] simp del: sorted_wrt.simps(2))
  moreover from this have "sorted_wrt before ps"
    by (auto intro: sorted_wrt_mono_rel [of _ fork_less] simp: fork_less_def before_def)
  ultimately show ?thesis
    using add_forks_sorted [of ps s] assms(1) by (auto simp: schedule_ok_def without_votes_def)
qed

theorem fork_tables_accepted_witness:
  "add_forks mainnet_hard_forks (small_node\<lparr>heights := []\<rparr>) = small_node\<lparr>heights := mainnet_hard_forks\<rparr>"
  using fork_tables_accepted [of "small_node\<lparr>heights := []\<rparr>" mainnet_hard_forks] by simp

end
