(* ===== verification/Double.thy ===== *)
theory Double
  imports Int_Util Complex_Main
begin

text \<open>
  IEEE 754 double precision as rational numbers: every operation of the language is exact on
  rational numbers followed by rounding to 53 significant bits, to nearest with ties to even.
  The numbers of the code stay far from the ends of the range of exponents, so overflow and
  subnormal numbers do not occur; an infinite quotient is represented where the code can have one.
\<close>

section \<open>Rounding\<close>

fun bit_length :: "nat \<Rightarrow> nat" where
  "bit_length n = (if n = 0 then 0 else Suc (bit_length (n div 2)))"

declare bit_length.simps [simp del]

definition pow2 :: "int \<Rightarrow> rat" where
  "pow2 e = (if 0 \<le> e then 2 ^ nat e else 1 / 2 ^ nat (- e))"

text \<open>The exponent of the leading bit of a positive number.\<close>

definition exponent :: "rat \<Rightarrow> int" where
  "exponent q = (if 1 \<le> q then int (bit_length (nat \<lfloor>q\<rfloor>)) - 1 else - int (bit_length (nat (\<lceil>1 / q\<rceil> - 1))))"

definition round_even :: "rat \<Rightarrow> int" where
  "round_even x =
    (let f = \<lfloor>x\<rfloor>; d = x - of_int f
     in if d < 1 / 2 then f else if d > 1 / 2 then f + 1 else if even f then f else f + 1)"

definition rnd :: "rat \<Rightarrow> rat" where
  "rnd q =
    (if q = 0 then 0
     else let u = pow2 (exponent \<bar>q\<bar> - 52)
          in sgn q * of_int (round_even (\<bar>q\<bar> / u)) * u)"

definition dadd :: "rat \<Rightarrow> rat \<Rightarrow> rat" where "dadd x y = rnd (x + y)"
definition dmul :: "rat \<Rightarrow> rat \<Rightarrow> rat" where "dmul x y = rnd (x * y)"
definition ddiv :: "rat \<Rightarrow> rat \<Rightarrow> rat" where "ddiv x y = rnd (x / y)"

text \<open>Conversions from 64-bit integers; conversions to them truncate and are undefined out of range.\<close>

definition of_u64 :: "u64 \<Rightarrow> rat" where "of_u64 x = rnd (of_int (uint x))"
definition of_i64 :: "int \<Rightarrow> rat" where "of_i64 x = rnd (of_int x)"

definition trunc :: "rat \<Rightarrow> int" where "trunc q = (if 0 \<le> q then \<lfloor>q\<rfloor> else \<lceil>q\<rceil>)"

definition to_u64 :: "rat \<Rightarrow> u64 option" where
  "to_u64 q = (if 0 \<le> trunc q \<and> trunc q < 2 ^ 64 then Some (word_of_int (trunc q)) else None)"

section \<open>Error bounds\<close>

lemma bit_length_bounds: "0 < n \<Longrightarrow> 2 ^ (bit_length n - 1) \<le> n \<and> n < 2 ^ bit_length n \<and> 0 < bit_length n"
proof (induction n rule: bit_length.induct)
  case (1 n)
  show ?case
  proof (cases "n = 1")
    case False
    then have m: "0 < n div 2" "bit_length n = Suc (bit_length (n div 2))" using 1(2) by (auto simp: bit_length.simps [of n])
    have "2 ^ (bit_length (n div 2) - 1) \<le> n div 2" "n div 2 < 2 ^ bit_length (n div 2)" "0 < bit_length (n div 2)"
      using 1 m by simp_all
    moreover have "(2 :: nat) ^ bit_length (n div 2) = 2 * 2 ^ (bit_length (n div 2) - 1)" using calculation(3) by (simp flip: power_Suc)
    ultimately have "2 ^ bit_length (n div 2) \<le> n" "n < 2 * 2 ^ bit_length (n div 2)" by linarith+
    then show ?thesis using m(2) by simp
  qed (simp add: bit_length.simps)
qed

lemma pow2_pos [simp]: "0 < pow2 e" by (simp add: pow2_def)

lemma pow2_Suc: "pow2 (e + 1) = 2 * pow2 e"
proof (cases "0 \<le> e")
  case True
  then have "nat (e + 1) = Suc (nat e)" by simp
  then show ?thesis using True by (simp add: pow2_def)
next
  case False
  then have "nat (- e) = Suc (nat (- (e + 1)))" by simp
  then show ?thesis using False by (auto simp: pow2_def)
qed

lemma pow2_diff: "pow2 (e - int n) * 2 ^ n = pow2 e"
proof (induction n)
  case (Suc n)
  have "pow2 (e - int n) = 2 * pow2 (e - int (Suc n))" using pow2_Suc [of "e - int (Suc n)"] by (simp add: algebra_simps)
  then show ?case using Suc by simp
qed simp

lemma exponent_bounds:
  assumes "0 < q" shows "pow2 (exponent q) \<le> q" "q < 2 * pow2 (exponent q)"
proof -
  have "pow2 (exponent q) \<le> q \<and> q < pow2 (exponent q + 1)"
  proof (cases "1 \<le> q")
    case True
    define n where "n = nat \<lfloor>q\<rfloor>"
    have n: "0 < n" "of_nat n \<le> q" "q < of_nat n + 1" using True unfolding n_def by (simp_all add: le_floor_iff) linarith+
    note b = bit_length_bounds [OF n(1)]
    have e: "exponent q = int (bit_length n - 1)" using True b by (simp add: exponent_def n_def of_nat_diff)
    have "(2 :: rat) ^ (bit_length n - 1) \<le> of_nat n" using b by (metis of_nat_le_iff of_nat_numeral of_nat_power)
    moreover have "of_nat n + 1 \<le> (2 :: rat) ^ bit_length n" using b
      by (metis Suc_le_eq add.commute of_nat_1 of_nat_add of_nat_le_iff of_nat_numeral of_nat_power plus_1_eq_Suc)
    moreover have "pow2 (exponent q) = 2 ^ (bit_length n - 1)" "pow2 (exponent q + 1) = 2 ^ bit_length n"
      using b by (simp_all add: pow2_def e nat_add_distrib)
    ultimately show ?thesis using n by linarith
  next
    case False
    define n where "n = nat (\<lceil>1 / q\<rceil> - 1)"
    have "1 < 1 / q" using False assms by simp
    then have n: "0 < n" "of_nat n < 1 / q" "1 / q \<le> of_nat n + 1" unfolding n_def by (simp_all add: less_ceiling_iff) linarith+
    note b = bit_length_bounds [OF n(1)]
    have e: "exponent q = - int (bit_length n)" using False by (simp add: exponent_def n_def)
    have "of_nat n + 1 \<le> (2 :: rat) ^ bit_length n" using b
      by (metis Suc_le_eq add.commute of_nat_1 of_nat_add of_nat_le_iff of_nat_numeral of_nat_power plus_1_eq_Suc)
    then have l: "1 / q \<le> 2 ^ bit_length n" using n by linarith
    have "(2 :: rat) ^ (bit_length n - 1) \<le> of_nat n" using b by (metis of_nat_le_iff of_nat_numeral of_nat_power)
    then have u: "2 ^ (bit_length n - 1) < 1 / q" using n by linarith
    have p: "pow2 (exponent q) = 1 / 2 ^ bit_length n" "pow2 (exponent q + 1) = 1 / 2 ^ (bit_length n - 1)"
      using b by (auto simp: pow2_def e nat_diff_distrib)
    show ?thesis using l u assms unfolding p by (simp add: field_simps)
  qed
  then show "pow2 (exponent q) \<le> q" "q < 2 * pow2 (exponent q)" by (simp_all add: pow2_Suc)
qed

lemma round_even_error: "\<bar>of_int (round_even x) - x\<bar> \<le> 1 / 2"
proof -
  define d where "d = x - of_int \<lfloor>x\<rfloor>"
  have d: "0 \<le> d" "d < 1" unfolding d_def by linarith+
  have e: "of_int \<lfloor>x\<rfloor> - x = - d" "of_int (\<lfloor>x\<rfloor> + 1) - x = 1 - d" by (simp_all add: d_def)
  show ?thesis unfolding round_even_def Let_def d_def [symmetric] using d by (simp split: if_split add: e del: of_int_add)
qed

lemma rnd_error:
  assumes "0 < q" shows "\<bar>rnd q - q\<bar> \<le> q / 2 ^ 53"
proof -
  define u where "u = pow2 (exponent q - 52)"
  have u: "0 < u" "u * 2 ^ 52 \<le> q" using pow2_diff [of "exponent q" 52] exponent_bounds [OF assms] by (simp_all add: u_def)
  have "rnd q - q = (of_int (round_even (q / u)) - q / u) * u"
    using assms u by (simp add: rnd_def u_def [symmetric] Let_def left_diff_distrib)
  then have "\<bar>rnd q - q\<bar> = \<bar>of_int (round_even (q / u)) - q / u\<bar> * u" using u by (simp add: abs_mult)
  also have "\<dots> \<le> 1 / 2 * u" using u round_even_error [of "q / u"] by (intro mult_right_mono) simp_all
  finally show ?thesis using u by (simp add: field_simps)
qed

lemma rnd_bounds:
  assumes "0 < q" shows "q * (1 - 1 / 2 ^ 53) \<le> rnd q" "rnd q \<le> q * (1 + 1 / 2 ^ 53)" "0 < rnd q"
proof -
  have e: "\<bar>rnd q - q\<bar> \<le> q / 2 ^ 53" by (rule rnd_error [OF assms])
  then show l: "q * (1 - 1 / 2 ^ 53) \<le> rnd q" and "rnd q \<le> q * (1 + 1 / 2 ^ 53)"
    unfolding abs_le_iff distrib_left right_diff_distrib by simp_all
  have "0 < q * (1 - 1 / 2 ^ 53)" using assms by simp
  then show "0 < rnd q" using l by linarith
qed

lemma rnd_0 [simp]: "rnd 0 = 0" by (simp add: rnd_def)

end
