(* ===== verification/Block_Reward.thy ===== *)
theory Block_Reward
  imports Double "HOL-Library.Monad_Syntax"
begin

text \<open>
  The block reward, \<^verbatim>\<open>get_block_reward\<close> of \<^verbatim>\<open>src/src/cryptonote_basic/cryptonote_basic_impl.cpp\<close>: the supply
  and emission speed in force, the base reward, and the penalty for blocks above the median size.
  A failed assertion gives \<^term>\<open>None\<close>.
\<close>

section \<open>Constants\<close>

definition MONEY_SUPPLY_ETN :: u64 where "MONEY_SUPPLY_ETN = 2100000000000"
definition MONEY_SUPPLY :: u64 where "MONEY_SUPPLY = 21000000000000"
definition TOKENS :: u64 where "TOKENS = 20000000000000"
definition ELECTRONERO_TOKENS :: u64 where "ELECTRONERO_TOKENS = 3610309000000000"
definition ELECTRONERO_PULSE :: u64 where "ELECTRONERO_PULSE = 3336943642310301990"
definition ELECTRONERO_COINS :: u64 where "ELECTRONERO_COINS = 3360312199110301990"
definition ELECTRONERO_SWAP :: u64 where "ELECTRONERO_SWAP = 6760312199110301990"
definition FINAL_SUBSIDY_PER_MINUTE :: u64 where "FINAL_SUBSIDY_PER_MINUTE = 10000000000"
definition EMISSION_SPEED_FACTOR_PER_MINUTE :: int where "EMISSION_SPEED_FACTOR_PER_MINUTE = 20"

text \<open>Six months and four years of blocks every two minutes.\<close>

definition COIN_EMISSION_HEIGHT_INTERVAL :: u64 where "COIN_EMISSION_HEIGHT_INTERVAL = 131490"
definition PEAK_COIN_EMISSION_HEIGHT :: u64 where "PEAK_COIN_EMISSION_HEIGHT = 1051920"

section \<open>The reward\<close>

definition get_min_block_size :: "byte \<Rightarrow> u64" where
  "get_min_block_size version = (if version < 2 then 20000 else if version < 5 then 60000 else 300000)"

definition coin_supply :: "byte \<Rightarrow> u64 \<Rightarrow> u64" where
  "coin_supply version height =
    (if height < 1132596 then
       (if version < 7 then MONEY_SUPPLY_ETN else if version < 10 then MONEY_SUPPLY
        else if version < 16 then TOKENS else ELECTRONERO_TOKENS)
     else if height < 1183485 then ELECTRONERO_PULSE
     else if height < 1714428 then ELECTRONERO_COINS
     else ELECTRONERO_SWAP)"

definition emission_speed :: "u64 \<Rightarrow> int" where
  "emission_speed height =
    (let target = (if height < 307003 then 60 else if height \<ge> 337816 then 60 else 120);
         target_minutes = target div 60;
         e = EMISSION_SPEED_FACTOR_PER_MINUTE
     in if height < 307003 then e - (target_minutes - 1)
        else if height < 310790 then e + (target_minutes - 1)
        else if height < 500060 then e + (target_minutes - 2)
        else if height < 570000 then e - (target_minutes - 1)
        else if height < 659000 then e + (target_minutes + 1)
        else if height < 739800 then e + (target_minutes + 9)
        else if height < 1132596 then e + (target_minutes + 6)
        else if height < 1132900 then e + (target_minutes + 9)
        else if height < 1132935 then e + (target_minutes + 7)
        else if height < 1183409 then e + (target_minutes + 9)
        else if height < 1183485 then e + (target_minutes + 8)
        else if height < 1714428 then e + (target_minutes + 7)
        else if height < 3559855 then e + (target_minutes + 7)
        else e + (target_minutes + 1))"

definition fixed_reward :: "u64 \<Rightarrow> u64 option" where
  "fixed_reward height =
    (if height = 1 then Some 1260000000000
     else if height = 307003 \<or> height = 310790 then Some 1260000000000
     else if height \<in> {500060, 1183410, 1183411, 1183412, 1183413} then Some 613090000000000
     else if height = 1132597 \<or> height = 1714428 then Some 3333333333310301990
     else None)"

definition money_supply_pct :: "u64 \<Rightarrow> rat" where
  "money_supply_pct height =
    (let interval_num = of_u64 (height div COIN_EMISSION_HEIGHT_INTERVAL)
     in dadd (rnd (1888 / 10000)) (dmul interval_num (dadd (rnd (23 / 1000)) (dmul interval_num (rnd (32 / 10000))))))"

definition base_reward :: "u64 \<Rightarrow> byte \<Rightarrow> u64 \<Rightarrow> u64 option" where
  "base_reward already_generated_coins version height = do {
     let supply = coin_supply version height;
     let speed = nat (emission_speed height);
     base \<leftarrow> (if height > 307003 \<and> version \<ge> 7 then
                if height < PEAK_COIN_EMISSION_HEIGHT + COIN_EMISSION_HEIGHT_INTERVAL
                then map_option (drop_bit speed) (to_u64 (dmul (of_u64 supply) (money_supply_pct height)))
                else Some (drop_bit speed (supply - already_generated_coins))
              else Some (drop_bit speed (supply - already_generated_coins)));
     let base = (if version > 7 then base div 10 * 10 else base);
     let base = (if version < 2 then drop_bit speed (MONEY_SUPPLY_ETN - already_generated_coins) else base);
     Some (if base < 666 \<and> already_generated_coins \<ge> supply then FINAL_SUBSIDY_PER_MINUTE else base) }"

datatype reward_error = Block_too_big

definition reward_for_size :: "u64 \<Rightarrow> u64 \<Rightarrow> byte \<Rightarrow> u64 \<Rightarrow> (reward_error + u64) option" where
  "reward_for_size median_size current_block_size version base =
    (let full_reward_zone = get_min_block_size version;
         median_size = (if median_size < full_reward_zone then full_reward_zone else median_size)
     in if current_block_size \<le> median_size then Some (Inr base)
        else if current_block_size > 2 * median_size then Some (Inl Block_too_big)
        else if \<not> (median_size < 0xFFFFFFFF \<and> current_block_size < 0xFFFFFFFF) then None
        else do {
          let multiplicand = (2 * median_size - current_block_size) * current_block_size;
          (product_lo, product_hi) \<leftarrow> mul128 base multiplicand;
          (reward_hi, reward_lo, r) \<leftarrow> div128_32 product_hi product_lo (ucast median_size);
          (reward_hi, reward_lo, r) \<leftarrow> div128_32 reward_hi reward_lo (ucast median_size);
          if 0 = reward_hi \<and> reward_lo < base then Some (Inr reward_lo) else None })"

definition get_block_reward :: "u64 \<Rightarrow> u64 \<Rightarrow> u64 \<Rightarrow> byte \<Rightarrow> u64 \<Rightarrow> (reward_error + u64) option" where
  "get_block_reward median_size current_block_size already_generated_coins version height =
    (case fixed_reward height of
       Some reward \<Rightarrow> Some (Inr reward)
     | None \<Rightarrow> do {
         base \<leftarrow> base_reward already_generated_coins version height;
         reward_for_size median_size current_block_size version base })"

section \<open>The penalty\<close>

definition effective_median :: "u64 \<Rightarrow> byte \<Rightarrow> int" where
  "effective_median median_size version = max (uint median_size) (uint (get_min_block_size version))"

lemma penalty_less:
  fixes m c b :: int
  assumes "m < c" "c \<le> 2 * m" "0 < b"
  shows "0 \<le> (2 * m - c) * c" "(2 * m - c) * c < m * m" "b * ((2 * m - c) * c) div (m * m) < b"
proof -
  show n: "0 \<le> (2 * m - c) * c" using assms by simp
  have "0 < (c - m) * (c - m)" using assms(1) by simp
  moreover have "m * m - (2 * m - c) * c = (c - m) * (c - m)" by (simp add: algebra_simps)
  ultimately show l: "(2 * m - c) * c < m * m" by linarith
  then have "b * ((2 * m - c) * c) < b * (m * m)" using assms(3) by (intro mult_strict_left_mono)
  then show "b * ((2 * m - c) * c) div (m * m) < b" using n l by (intro div_less_of_less) (simp_all add: mult.commute)
qed

lemma divide_twice:
  assumes d: "divisor \<noteq> (0 :: u32)" and v: "uint hi * 2 ^ 64 + uint lo = P"
    and q: "P div (uint divisor * uint divisor) < 2 ^ 64"
  shows "\<exists>h l r l' r'. div128_32 hi lo divisor = Some (h, l, r) \<and> div128_32 h l divisor = Some (0, l', r')
    \<and> uint l' = P div (uint divisor * uint divisor)"
proof -
  have dv: "0 < uint divisor" using d by (simp add: word_neq_0_conv word_less_def)
  obtain h l r where s1: "div128_32 hi lo divisor = Some (h, l, r)" "uint r < uint divisor"
      "P = (uint h * 2 ^ 64 + uint l) * uint divisor + uint r"
    using div128_32_value [OF d, of hi lo] v by auto
  obtain h' l' r' where s2: "div128_32 h l divisor = Some (h', l', r')" "uint r' < uint divisor"
      "uint h * 2 ^ 64 + uint l = (uint h' * 2 ^ 64 + uint l') * uint divisor + uint r'"
    using div128_32_value [OF d, of h l] by auto
  have "P div uint divisor = uint h * 2 ^ 64 + uint l" using s1(2,3) dv by (simp add: div_mult_self4)
  moreover have "(uint h * 2 ^ 64 + uint l) div uint divisor = uint h' * 2 ^ 64 + uint l'"
    using s2(2) dv unfolding s2(3) by simp
  ultimately have e: "P div (uint divisor * uint divisor) = uint h' * 2 ^ 64 + uint l'"
    using zdiv_zmult2_eq [of "uint divisor" P "uint divisor"] dv by simp
  have "uint h' = 0"
  proof (rule ccontr)
    assume "uint h' \<noteq> 0"
    then have "1 \<le> uint h'" using uint_ge_0 [of h'] by linarith
    then have "1 * 2 ^ 64 \<le> uint h' * 2 ^ 64" by (intro mult_right_mono) simp_all
    then show False using q e uint_ge_0 [of l'] by linarith
  qed
  then have "h' = 0" "uint l' = P div (uint divisor * uint divisor)" using e by (simp_all add: word_uint_eq_iff)
  then show ?thesis using s1(1) s2(1) by blast
qed

lemma reward_above_median:
  fixes m c base :: u64
  assumes c: "uint m < uint c" "uint c \<le> 2 * uint m" and b: "uint m < 2 ^ 32 - 1" "uint c < 2 ^ 32 - 1" and p: "0 < uint base"
  shows "do {
      let multiplicand = (2 * m - c) * c;
      (product_lo, product_hi) \<leftarrow> mul128 base multiplicand;
      (reward_hi, reward_lo, r) \<leftarrow> div128_32 product_hi product_lo (ucast m);
      (reward_hi, reward_lo, r) \<leftarrow> div128_32 reward_hi reward_lo (ucast m);
      if 0 = reward_hi \<and> reward_lo < base then Some (Inr reward_lo) else None }
    = Some (Inr (word_of_int (uint base * ((2 * uint m - uint c) * uint c) div (uint m * uint m))) :: reward_error + u64)"
proof -
  let ?q = "uint base * ((2 * uint m - uint c) * uint c) div (uint m * uint m)"
  note pl = penalty_less [OF c p]
  have "uint m * uint m \<le> (2 ^ 32 - 1) * (2 ^ 32 - 1)" using b(1) by (intro mult_mono) simp_all
  then have mm: "(2 * uint m - uint c) * uint c < 2 ^ 64" using pl(2) by simp
  have "uint (2 * m) = 2 * uint m" using b(1) uint_mult_lem [of 2 m] by simp
  then have "uint (2 * m - c) = 2 * uint m - uint c" using c(2) uint_sub_lem [of c "2 * m"] by simp
  then have k: "uint ((2 * m - c) * c) = (2 * uint m - uint c) * uint c" using mm uint_mult_lem [of "2 * m - c" c] by simp
  have u: "uint (ucast m :: u32) = uint m" using b(1) by (simp add: unsigned_ucast_eq take_bit_int_eq_self)
  have "uint m \<noteq> 0" using c by linarith
  then have d: "(ucast m :: u32) \<noteq> 0" using u by (metis uint_0_eq)
  obtain lo hi where mul: "mul128 base ((2 * m - c) * c) = Some (lo, hi)" and v: "uint hi * 2 ^ 64 + uint lo = uint base * ((2 * uint m - uint c) * uint c)"
    using mul128_value [of base "(2 * m - c) * c"] unfolding k by blast
  have qb: "?q < 2 ^ 64" using pl(3) unsigned_less [of base, where 'a = int] by simp
  obtain h l r l' r' where dv: "div128_32 hi lo (ucast m) = Some (h, l, r)" "div128_32 h l (ucast m) = Some (0, l', r')" "uint l' = ?q"
    using divide_twice [OF d v] qb unfolding u by blast
  have "l' < base" using dv(3) pl(3) by (simp add: word_less_def)
  moreover have "l' = word_of_int ?q" unfolding dv(3) [symmetric] by simp
  ultimately show ?thesis using mul dv(1,2) by (simp add: Let_def)
qed



section \<open>The emission\<close>

lemma rnd_le:
  assumes "0 \<le> q" "q \<le> B" shows "0 \<le> rnd q" "rnd q \<le> B * (1001 / 1000)"
proof -
  have "0 \<le> rnd q \<and> rnd q \<le> q * (1001 / 1000)"
  proof (cases "q = 0")
    case False
    then have p: "0 < q" using assms(1) by simp
    have "q * (1 + 1 / 2 ^ 53) \<le> q * (1001 / 1000)" using p by (intro mult_left_mono) simp_all
    then show ?thesis using rnd_bounds [OF p] by linarith
  qed simp
  then show "0 \<le> rnd q" "rnd q \<le> B * (1001 / 1000)" using assms(2) by linarith+
qed

lemma rnd_between: "0 \<le> q \<Longrightarrow> q \<le> B \<Longrightarrow> B * (1001 / 1000) \<le> C \<Longrightarrow> 0 \<le> rnd q \<and> rnd q \<le> C"
  using rnd_le [of q B] by auto

lemma money_supply_pct_between:
  assumes "height < 1183410" shows "0 \<le> money_supply_pct height \<and> money_supply_pct height \<le> 6 / 10"
proof -
  define i where "i = uint (height div COIN_EMISSION_HEIGHT_INTERVAL)"
  have "i = uint height div 131490" by (simp add: i_def COIN_EMISSION_HEIGHT_INTERVAL_def uint_div_distrib)
  then have i: "0 \<le> i" "i \<le> 8" using assms uint_ge_0 [of height] by (simp_all only: word_less_def) simp_all
  define n where "n = rnd (of_int i)"
  have n: "0 \<le> n \<and> n \<le> 801 / 100" unfolding n_def using i by (intro rnd_between [of _ 8]) simp_all
  define a where "a = rnd (32 / 10000)"
  have a: "0 \<le> a \<and> a \<le> 321 / 100000" unfolding a_def by (intro rnd_between [of _ "32 / 10000"]) simp_all
  define b where "b = rnd (n * a)"
  have b: "0 \<le> b \<and> b \<le> 26 / 1000" unfolding b_def
    using mult_mono [of n "801 / 100" a "321 / 100000"] n a by (intro rnd_between [of _ "801 / 100 * (321 / 100000)"]) simp_all
  define c where "c = rnd (rnd (23 / 1000) + b)"
  have "0 \<le> rnd (23 / 1000) \<and> rnd (23 / 1000) \<le> 231 / 10000" by (intro rnd_between [of _ "23 / 1000"]) simp_all
  then have c: "0 \<le> c \<and> c \<le> 492 / 10000" unfolding c_def using b by (intro rnd_between [of _ "491 / 10000"]) simp_all
  define d where "d = rnd (n * c)"
  have d: "0 \<le> d \<and> d \<le> 395 / 1000" unfolding d_def
    using mult_mono [of n "801 / 100" c "492 / 10000"] n c by (intro rnd_between [of _ "801 / 100 * (492 / 10000)"]) simp_all
  have "0 \<le> rnd (1888 / 10000) \<and> rnd (1888 / 10000) \<le> 189 / 1000" by (intro rnd_between [of _ "1888 / 10000"]) simp_all
  then have "0 \<le> rnd (rnd (1888 / 10000) + d) \<and> rnd (rnd (1888 / 10000) + d) \<le> 6 / 10"
    using d by (intro rnd_between [of _ "584 / 1000"]) simp_all
  moreover have "money_supply_pct height = rnd (rnd (1888 / 10000) + d)"
    by (simp add: money_supply_pct_def Let_def dadd_def dmul_def of_u64_def d_def c_def b_def a_def n_def i_def)
  ultimately show ?thesis by simp
qed

lemma growth_supply:
  assumes "height < 1183410"
  shows "\<exists>r. to_u64 (dmul (of_u64 supply) (money_supply_pct height)) = Some r \<and> uint r \<le> uint supply"
proof -
  define s where "s = rnd (of_int (uint supply))"
  define i where "i = uint supply"
  let ?S = "of_int i :: rat"
  have i: "0 \<le> i" by (simp add: i_def)
  have s: "0 \<le> s \<and> s \<le> ?S * (1001 / 1000)" unfolding s_def i_def [symmetric] using i by (intro rnd_between [of _ ?S]) simp_all
  note p = money_supply_pct_between [OF assms]
  have "s * money_supply_pct height \<le> ?S * (1001 / 1000) * (6 / 10)" using s p by (intro mult_mono) simp_all
  then have r: "0 \<le> rnd (s * money_supply_pct height) \<and> rnd (s * money_supply_pct height) \<le> ?S"
    using s p i by (intro rnd_between [of _ "?S * (1001 / 1000) * (6 / 10)"]) simp_all
  define q where "q = rnd (s * money_supply_pct height)"
  have t: "0 \<le> trunc q" "trunc q \<le> i" using r by (simp_all add: trunc_def q_def floor_le_iff)
  then have "trunc q < 2 ^ 64" using unsigned_less [of "supply", where 'a = int] by (simp add: i_def)
  then have "to_u64 q = Some (word_of_int (trunc q)) \<and> uint (word_of_int (trunc q) :: u64) = trunc q"
    using t by (simp add: to_u64_def uint_word_of_int_eq take_bit_int_eq_self)
  moreover have "dmul (of_u64 supply) (money_supply_pct height) = q" by (simp add: dmul_def of_u64_def s_def q_def)
  ultimately show ?thesis using t(2) by (auto simp: i_def)
qed

lemma shifted_le: "uint (drop_bit n x) * 2 ^ n \<le> uint x" for x :: u64
proof -
  have "take_bit 64 (uint x) = uint x" using unsigned_less [of x, where 'a = int] by (simp add: take_bit_int_eq_self)
  then have "uint (drop_bit n x) = uint x div 2 ^ n" by (simp only: unsigned_drop_bit_eq) (simp add: drop_bit_eq_div)
  moreover have "uint x div 2 ^ n * 2 ^ n = uint x - uint x mod 2 ^ n" by (simp add: minus_mod_eq_div_mult)
  moreover have "uint x - uint x mod 2 ^ n \<le> uint x" by simp
  ultimately show ?thesis by (simp only:)
qed

lemma tens_le: "uint (x div 10 * 10) \<le> uint x" for x :: u64
proof -
  have "uint (x div 10) * 10 < 2 ^ 64" "uint (x div 10) * 10 \<le> uint x"
    using unsigned_less [of x, where 'a = int] by (simp_all add: uint_div_distrib)
  then show ?thesis using uint_mult_lem [of "x div 10" 10] by simp
qed

lemma shifted_tens_le:
  fixes x :: u64
  assumes "uint x \<le> S"
  shows "uint (if version > (7 :: byte) then drop_bit n x div 10 * 10 else drop_bit n x) * 2 ^ n \<le> S"
proof -
  have "uint (drop_bit n x div 10 * 10) * 2 ^ n \<le> uint (drop_bit n x) * 2 ^ n" by (intro mult_right_mono tens_le) simp
  then have "uint (drop_bit n x div 10 * 10) * 2 ^ n \<le> S" "uint (drop_bit n x) * 2 ^ n \<le> S"
    using shifted_le [of n x] assms by linarith+
  then show ?thesis
    by (cases "version > 7") (simp_all only: if_P if_not_P if_True if_False simp_thms)
qed

text \<open>
  C37.  While the supply is not exhausted the emission stays within it.  From version 2 on the base reward
  is always defined; in the growth phase, where it is computed in floating point as a share of the
  supply, it is at most the supply divided by two to the emission speed, and afterwards it is at
  most what is left of the supply divided by that number.
\<close>

theorem emission_within_supply:
  assumes "2 \<le> version" "already < coin_supply version height"
  shows "\<exists>r. base_reward already version height = Some r
    \<and> uint r * 2 ^ nat (emission_speed height)
      \<le> (if 307003 < height \<and> 7 \<le> version \<and> height < 1183410 then uint (coin_supply version height)
         else uint (coin_supply version height) - uint already)"
proof -
  let ?S = "coin_supply version height" and ?n = "nat (emission_speed height)"
  have pk: "PEAK_COIN_EMISSION_HEIGHT + COIN_EMISSION_HEIGHT_INTERVAL = 1183410"
    by (simp add: PEAK_COIN_EMISSION_HEIGHT_def COIN_EMISSION_HEIGHT_INTERVAL_def)
  have v: "\<not> version < 2" using assms(1) by simp
  have a: "\<not> already \<ge> ?S" using assms(2) by simp
  have l: "uint (?S - already) = uint ?S - uint already" using assms(2) uint_sub_lem [of already ?S] by (simp add: word_less_def)
  note t = shifted_tens_le [where version = version and n = ?n]
  show ?thesis
  proof (cases "307003 < height \<and> 7 \<le> version \<and> height < 1183410")
    case True
    then obtain r where r: "to_u64 (dmul (of_u64 ?S) (money_supply_pct height)) = Some r" "uint r \<le> uint ?S"
      using growth_supply [of height ?S] by blast
    then show ?thesis using True t [OF r(2)] v a unfolding base_reward_def pk by (simp add: Let_def)
  next
    case False
    then show ?thesis using t [of "?S - already" "uint ?S - uint already"] l v a unfolding base_reward_def pk
      by (auto simp: Let_def)
  qed
qed

theorem emission_within_supply_witness:
  "\<exists>r. base_reward 6000000000000000000 26 4000000 = Some r \<and> uint r * 2 ^ 22 \<le> 760312199110301990"
  using emission_within_supply [of 26 6000000000000000000 4000000]
  by (simp add: coin_supply_def ELECTRONERO_SWAP_def emission_speed_def EMISSION_SPEED_FACTOR_PER_MINUTE_def)

text \<open>
  The final subsidy is paid only when the coins generated match the supply exactly: with one more
  the difference wraps around, and a block in the last phase is paid 4398046511100 units, more than four hundred times the subsidy.
\<close>

theorem final_subsidy_missed:
  "get_block_reward 0 0 ELECTRONERO_SWAP 26 4000000 = Some (Inr FINAL_SUBSIDY_PER_MINUTE)
    \<and> get_block_reward 0 0 (ELECTRONERO_SWAP + 1) 26 4000000 = Some (Inr 4398046511100)"
  by (simp add: get_block_reward_def fixed_reward_def base_reward_def coin_supply_def emission_speed_def ELECTRONERO_SWAP_def
    EMISSION_SPEED_FACTOR_PER_MINUTE_def PEAK_COIN_EMISSION_HEIGHT_def COIN_EMISSION_HEIGHT_INTERVAL_def Let_def
    reward_for_size_def get_min_block_size_def FINAL_SUBSIDY_PER_MINUTE_def mask_eq_exp_minus_1)

end
