(* ===== verification/Difficulty_V3.thy ===== *)
theory Difficulty_V3
  imports Difficulty Double
begin

text \<open>
  The third version of the difficulty in \<^verbatim>\<open>src/src/cryptonote_basic/difficulty.cpp\<close>, which weighs solve
  times linearly in floating point.  The rounding function of the Boost library is the parameter
  \<open>bround\<close>.  Failed assertions, overflow of signed integers and conversions out of range give
  \<^term>\<open>None\<close>; a sum of inverse difficulties is \<^term>\<open>None\<close> when it is infinite.
\<close>

definition checked_i64 :: "int \<Rightarrow> int option" where
  "checked_i64 x = (if - (2 ^ 63) \<le> x \<and> x < 2 ^ 63 then Some x else None)"

record lwma_state =
  LWMA :: rat
  sum_inverse_D :: "rat option"

definition lwma_step :: "u64 list \<Rightarrow> u64 list \<Rightarrow> int \<Rightarrow> rat \<Rightarrow> nat \<Rightarrow> lwma_state \<Rightarrow> lwma_state option" where
  "lwma_step timestamps cumulative_difficulties T k i s = do {
     solveTime \<leftarrow> checked_i64 (sint (timestamps ! i) - sint (timestamps ! (i - 1)));
     upper \<leftarrow> checked_i64 (T * 7);
     lower \<leftarrow> checked_i64 (- 7 * T);
     let solveTime = min upper (max solveTime lower);
     let difficulty = cumulative_difficulties ! i - cumulative_difficulties ! (i - 1);
     Some \<lparr>LWMA = dadd (LWMA s) (ddiv (of_i64 (sint (word_of_int solveTime * (of_nat i :: u64)))) k),
       sum_inverse_D = (case sum_inverse_D s of None \<Rightarrow> None
         | Some x \<Rightarrow> if difficulty = 0 then None else Some (dadd x (ddiv 1 (of_u64 difficulty))))\<rparr> }"

fun lwma_loop :: "u64 list \<Rightarrow> u64 list \<Rightarrow> int \<Rightarrow> rat \<Rightarrow> nat list \<Rightarrow> lwma_state \<Rightarrow> lwma_state option" where
  "lwma_loop ts cds T k [] s = Some s"
| "lwma_loop ts cds T k (i # is) s = do { s \<leftarrow> lwma_step ts cds T k i s; lwma_loop ts cds T k is s }"

definition next_difficulty_v3 :: "(rat \<Rightarrow> rat) \<Rightarrow> u64 list \<Rightarrow> u64 list \<Rightarrow> u64 \<Rightarrow> u64 option" where
  "next_difficulty_v3 bround timestamps cumulative_difficulties target_seconds =
    (let T = sint target_seconds;
         (timestamps, cumulative_difficulties) =
           (if length timestamps > DIFFICULTY_WINDOW_V2
            then (resize (DIFFICULTY_WINDOW_V2 + 1) timestamps, resize (DIFFICULTY_WINDOW_V2 + 1) cumulative_difficulties)
            else (timestamps, cumulative_difficulties));
         n = length timestamps
     in if n \<noteq> length cumulative_difficulties then None
        else if \<not> n \<le> DIFFICULTY_WINDOW_V2 then None
        else if n < 6 then Some 1
        else do {
          let N = n - 1;
          let adjust = rnd (998 / 1000);
          let k = rnd (of_nat (N * (N + 1) div 2));
          s \<leftarrow> lwma_loop timestamps cumulative_difficulties T k [1..<Suc N] \<lparr>LWMA = 0, sum_inverse_D = Some 0\<rparr>;
          r \<leftarrow> checked_i64 (trunc (bround (LWMA s)));
          let floor20 = sgn T * (\<bar>T\<bar> div 20);
          let lwma = (if r < floor20 then of_i64 floor20 else LWMA s);
          harmonic_mean_D \<leftarrow> (case sum_inverse_D s of None \<Rightarrow> Some 0
            | Some x \<Rightarrow> if x = 0 then None else Some (dmul (ddiv (rnd (of_nat N)) x) adjust));
          if lwma = 0 then None
          else do {
            next_difficulty \<leftarrow> to_u64 (ddiv (dmul harmonic_mean_D (of_i64 T)) lwma);
            Some (if next_difficulty < 2000 then 75723142
                  else if next_difficulty > 120307799 then 120307799
                  else next_difficulty) } })"

section \<open>Bounds\<close>

lemma rnd_minus: "rnd (- q) = - rnd q"
  by (simp add: rnd_def Let_def)

lemma rnd_abs: "\<bar>rnd q\<bar> \<le> \<bar>q\<bar> * (1 + 1 / 2 ^ 53)"
proof (cases "0 < q")
  case True
  then show ?thesis using rnd_bounds [OF True] by simp
next
  case False
  then consider "q = 0" | "0 < - q" by linarith
  then show ?thesis using rnd_bounds [of "- q"] by cases (simp_all add: rnd_minus)
qed

lemma rnd_abs_le: "\<bar>q\<bar> \<le> B \<Longrightarrow> B * (1 + 1 / 2 ^ 53) \<le> C \<Longrightarrow> \<bar>rnd q\<bar> \<le> C"
  using rnd_abs [of q] mult_right_mono [of "\<bar>q\<bar>" B "1 + 1 / 2 ^ 53"] by simp

lemma rnd_ge: "0 < q \<Longrightarrow> B \<le> q \<Longrightarrow> C \<le> B * (1 - 1 / 2 ^ 53) \<Longrightarrow> C \<le> rnd q"
  using rnd_bounds(1) [of q] mult_right_mono [of B q "1 - 1 / 2 ^ 53"] by simp

text \<open>What the loop keeps after \<open>i\<close> rounds.\<close>

definition lwma_ok :: "nat \<Rightarrow> lwma_state \<Rightarrow> bool" where
  "lwma_ok i s \<longleftrightarrow> \<bar>LWMA s\<bar> \<le> of_nat i * 2 ^ 30
    \<and> (\<exists>x. sum_inverse_D s = Some x \<and> 0 \<le> x \<and> (0 < i \<longrightarrow> (1 - of_nat i / 2 ^ 53) / 2 ^ 34 \<le> x))"

lemma inverse_bounds:
  assumes "0 < uint d" "uint d < 2 ^ 32"
  shows "1 / 2 ^ 33 \<le> ddiv 1 (of_u64 d)"
proof -
  define i where "i = uint d"
  have "0 < i" "i < 2 ^ 32" using assms by (simp_all add: i_def)
  then have i: "0 < (of_int i :: rat)" "of_int i \<le> (2 ^ 32 :: rat)" by simp_all
  have "rnd (of_int i) \<le> of_int i * (1 + 1 / 2 ^ 53)" "0 < rnd (of_int i)" using rnd_bounds [OF i(1)] by simp_all
  moreover have "of_int i * (1 + 1 / 2 ^ 53) \<le> (2 ^ 32 :: rat) * (1 + 1 / 2 ^ 53)" using i by (intro mult_right_mono) simp_all
  ultimately have x: "0 < rnd (of_int i)" "rnd (of_int i) \<le> 2 ^ 32 * (1 + 1 / 2 ^ 53)" by linarith+
  then have "1 / (2 ^ 32 * (1 + 1 / 2 ^ 53)) \<le> 1 / rnd (of_int i)" by (intro divide_left_mono) simp_all
  then show ?thesis unfolding ddiv_def of_u64_def i_def [symmetric]
    using x by (intro rnd_ge [of _ "1 / (2 ^ 32 * (1 + 1 / 2 ^ 53))"]) simp_all
qed

lemma solve_time_bounds:
  fixes T st :: int
  assumes "0 < T" "T < 2 ^ 16" "0 < i" "i \<le> 69"
  defines "c \<equiv> min (T * 7) (max st (- 7 * T))"
  shows "sint (word_of_int c * (of_nat i :: u64)) = c * int i" "\<bar>c * int i\<bar> \<le> 2 ^ 25"
proof -
  have "\<bar>c\<bar> \<le> 7 * T" using assms(1) unfolding c_def by (auto simp: min_def max_def)
  then have "\<bar>c\<bar> * int i \<le> 7 * 2 ^ 16 * 69" using assms(1-4) by (intro mult_mono) simp_all
  then show b: "\<bar>c * int i\<bar> \<le> 2 ^ 25" by (simp add: abs_mult)
  have "word_of_int c * (of_nat i :: u64) = word_of_int (c * int i)" by simp
  then have "sint (word_of_int c * (of_nat i :: u64)) = signed_take_bit 63 (c * int i)"
    using sint_sbintrunc' [of "c * int i", where 'a = 64] by (simp del: of_int_mult)
  also have "\<dots> = c * int i" using b by (intro signed_take_bit_int_eq_self) simp_all
  finally show "sint (word_of_int c * (of_nat i :: u64)) = c * int i" .
qed

lemma lwma_slack:
  fixes j :: rat
  assumes "0 \<le> j" "j \<le> 68"
  shows "(j * 2 ^ 30 + 2 ^ 27) * (1 + 1 / 2 ^ 53) \<le> (j + 1) * 2 ^ 30"
    and "(1 - (j + 1) / 2 ^ 53) / 2 ^ 34 \<le> (1 - j / 2 ^ 53) / 2 ^ 34 * (1 - 1 / 2 ^ 53)"
proof -
  show "(j * 2 ^ 30 + 2 ^ 27) * (1 + 1 / 2 ^ 53) \<le> (j + 1) * 2 ^ 30" using assms by simp
  define e c :: rat where "e = 1 / 2 ^ 53" and "c = 2 ^ 34"
  have "(1 - j * e) * (1 - e) = (1 - (j + 1) * e) + j * e * e" by (simp add: algebra_simps)
  moreover have "0 \<le> j * e * e" using assms(1) by (simp add: e_def)
  ultimately have "(1 - (j + 1) * e) / c \<le> (1 - j * e) * (1 - e) / c" by (intro divide_right_mono) (simp_all add: c_def)
  then show "(1 - (j + 1) / 2 ^ 53) / 2 ^ 34 \<le> (1 - j / 2 ^ 53) / 2 ^ 34 * (1 - 1 / 2 ^ 53)"
    unfolding e_def c_def by (simp only: times_divide_eq_left times_divide_eq_right mult_1_right)
qed

lemma lwma_step_ok:
  assumes T: "0 < T" "T < 2 ^ 16" and i: "0 < i" "i \<le> 69" and k: "1 \<le> k"
    and ts: "\<bar>sint (ts ! i) - sint (ts ! (i - 1))\<bar> < 2 ^ 63"
    and d: "0 < uint (cds ! i - cds ! (i - 1))" "uint (cds ! i - cds ! (i - 1)) < 2 ^ 32"
    and s: "lwma_ok (i - 1) s"
  shows "\<exists>t. lwma_step ts cds T k i s = Some t \<and> lwma_ok i t"
proof -
  define st where "st = sint (ts ! i) - sint (ts ! (i - 1))"
  define c where "c = min (T * 7) (max st (- 7 * T))"
  define d where "d = cds ! i - cds ! (i - 1)"
  note sb = solve_time_bounds [OF T i, of st, folded c_def]
  obtain x where x: "sum_inverse_D s = Some x" "0 \<le> x" "0 < i - 1 \<longrightarrow> (1 - of_nat (i - 1) / 2 ^ 53) / 2 ^ 34 \<le> x"
    using s by (auto simp: lwma_ok_def)
  define a where "a = ddiv (of_i64 (c * int i)) k"
  define t where "t = ddiv 1 (of_u64 d)"
  have e: "lwma_step ts cds T k i s = Some \<lparr>LWMA = dadd (LWMA s) a, sum_inverse_D = Some (dadd x t)\<rparr>"
  proof -
    have "checked_i64 st = Some st" "checked_i64 (T * 7) = Some (T * 7)" "checked_i64 (- 7 * T) = Some (- 7 * T)"
      using ts T by (simp_all add: checked_i64_def st_def abs_less_iff)
    moreover have "d \<noteq> 0" using d(1) unfolding d_def [symmetric] by auto
    ultimately show ?thesis
      unfolding lwma_step_def st_def [symmetric] d_def [symmetric] Let_def
      by (simp add: x(1) c_def [symmetric, unfolded mult_minus_left] sb(1) a_def t_def)
  qed
  have "\<bar>of_int z :: rat\<bar> \<le> 2 ^ 25" if "\<bar>z\<bar> \<le> 2 ^ 25" for z :: int using that by (simp flip: of_int_abs)
  from this [OF sb(2)] have "\<bar>of_i64 (c * int i)\<bar> \<le> 2 ^ 26" unfolding of_i64_def by (rule rnd_abs_le) simp
  moreover from this have "\<bar>of_i64 (c * int i) / k\<bar> \<le> 2 ^ 26"
    using k mult_left_mono [of 1 k "2 ^ 26"] by (simp add: abs_divide divide_le_eq)
  ultimately have a: "\<bar>a\<bar> \<le> 2 ^ 27" unfolding a_def ddiv_def by (intro rnd_abs_le [of _ "2 ^ 26"]) simp_all
  have ii: "(of_nat i :: rat) = of_nat (i - 1) + 1" "(of_nat (i - 1) :: rat) \<le> 68" using i by (simp_all add: of_nat_diff)
  have "\<bar>LWMA s\<bar> \<le> of_nat (i - 1) * 2 ^ 30" using s by (simp add: lwma_ok_def)
  then have "\<bar>LWMA s + a\<bar> \<le> of_nat (i - 1) * 2 ^ 30 + 2 ^ 27" using a by linarith
  then have l: "\<bar>dadd (LWMA s) a\<bar> \<le> of_nat i * 2 ^ 30" unfolding dadd_def
    unfolding ii(1) using lwma_slack(1) [OF _ ii(2)] by (intro rnd_abs_le [of _ "of_nat (i - 1) * 2 ^ 30 + 2 ^ 27"]) simp_all
  have t: "1 / 2 ^ 33 \<le> t" unfolding t_def using d by (intro inverse_bounds) (simp_all add: d_def)
  have xt: "0 < x + t" using x(2) t by (simp add: add_nonneg_pos order_less_le_trans [of 0 "1 / 2 ^ 33"])
  have "(1 - of_nat i / 2 ^ 53) / 2 ^ 34 \<le> dadd x t" unfolding dadd_def
  proof (cases "0 < i - 1")
    case True
    then have "(1 - of_nat (i - 1) / 2 ^ 53) / 2 ^ 34 \<le> x + t" using x(3) t by simp
    then show "(1 - of_nat i / 2 ^ 53) / 2 ^ 34 \<le> rnd (x + t)"
      unfolding ii(1) using xt lwma_slack(2) [OF _ ii(2)]
      by (intro rnd_ge [of _ "(1 - of_nat (i - 1) / 2 ^ 53) / 2 ^ 34"]) simp_all
  next
    case False
    then show "(1 - of_nat i / 2 ^ 53) / 2 ^ 34 \<le> rnd (x + t)" using xt x(2) t i
      by (intro rnd_ge [of _ "1 / 2 ^ 33"]) simp_all
  qed
  moreover have "0 \<le> dadd x t" unfolding dadd_def using rnd_bounds(3) [OF xt] by simp
  ultimately show ?thesis using l unfolding e by (simp add: lwma_ok_def)
qed

lemma lwma_loop_ok:
  assumes T: "0 < T" "T < 2 ^ 16" and k: "1 \<le> k" and N: "N \<le> 69"
    and ts: "\<And>i. 0 < i \<Longrightarrow> i \<le> N \<Longrightarrow> \<bar>sint (ts ! i) - sint (ts ! (i - 1))\<bar> < 2 ^ 63"
    and d: "\<And>i. 0 < i \<Longrightarrow> i \<le> N \<Longrightarrow> 0 < uint (cds ! i - cds ! (i - 1)) \<and> uint (cds ! i - cds ! (i - 1)) < 2 ^ 32"
  shows "0 < j \<Longrightarrow> j \<le> Suc N \<Longrightarrow> lwma_ok (j - 1) s \<Longrightarrow>
    \<exists>t. lwma_loop ts cds T k [j..<Suc N] s = Some t \<and> lwma_ok N t"
proof (induction "Suc N - j" arbitrary: j s)
  case 0
  then have "j = Suc N" by simp
  then show ?case using 0 by simp
next
  case (Suc m)
  then have j: "0 < j" "j \<le> N" by simp_all
  obtain t where t: "lwma_step ts cds T k j s = Some t" "lwma_ok j t"
    using lwma_step_ok [OF T j(1) _ k ts [OF j], of cds s] d [OF j] N j Suc.prems(3) by auto
  moreover have "\<exists>u. lwma_loop ts cds T k [Suc j..<Suc N] t = Some u \<and> lwma_ok N u"
    using Suc t(2) by (intro Suc.hyps(1)) simp_all
  moreover have "[j..<Suc N] = j # [Suc j..<Suc N]" using j by (simp add: upt_conv_Cons)
  ultimately show ?case by (simp del: upt_Suc)
qed

definition clamped :: "u64 \<Rightarrow> bool" where
  "clamped d \<longleftrightarrow> d = 75723142 \<or> 2000 \<le> d \<and> d \<le> 120307799"

lemma final_bounds:
  fixes h T lwma :: rat
  assumes "0 \<le> h" "h \<le> 2 ^ 43" "0 \<le> T" "T \<le> 2 ^ 17" "1 / 2 \<le> lwma"
  shows "\<exists>d. to_u64 (ddiv (dmul h T) lwma) = Some d"
proof -
  have "h * T \<le> 2 ^ 43 * 2 ^ 17" using assms by (intro mult_mono) simp_all
  then have m: "0 \<le> dmul h T \<and> dmul h T \<le> 2 ^ 61" unfolding dmul_def using assms
    rnd_abs_le [of "h * T" "2 ^ 60" "2 ^ 61"] rnd_bounds(3) [of "h * T"] by (cases "h * T = 0") (auto simp: less_le)
  have "dmul h T / lwma \<le> 2 ^ 61 / (1 / 2)" using m assms(5) by (intro frac_le) simp_all
  then have q: "0 \<le> ddiv (dmul h T) lwma \<and> ddiv (dmul h T) lwma \<le> 2 ^ 63" unfolding ddiv_def using m assms(5)
    rnd_abs_le [of "dmul h T / lwma" "2 ^ 62" "2 ^ 63"] rnd_bounds(3) [of "dmul h T / lwma"]
    by (cases "dmul h T / lwma = 0") (auto simp: less_le)
  then have "trunc (ddiv (dmul h T) lwma) < 2 ^ 64" "0 \<le> trunc (ddiv (dmul h T) lwma)"
    by (simp_all add: trunc_def floor_less_iff)
  then show ?thesis by (simp add: to_u64_def)
qed

lemma k_bounds: "5 \<le> N \<Longrightarrow> 1 \<le> rnd (of_nat (N * (N + 1) div 2))"
proof -
  assume N: "5 \<le> N"
  then have "5 * 6 \<le> N * (N + 1)" by (intro mult_mono) simp_all
  then have "2 \<le> N * (N + 1) div 2" by simp
  then have "(2 :: rat) \<le> of_nat (N * (N + 1) div 2)" by (metis of_nat_le_iff of_nat_numeral)
  then show ?thesis by (intro rnd_ge [of _ 2]) simp_all
qed

lemma harmonic_bounds:
  assumes "lwma_ok N s" "0 < N" "N \<le> 69"
  shows "\<exists>x. sum_inverse_D s = Some x \<and> x \<noteq> 0 \<and> 0 \<le> dmul (ddiv (rnd (of_nat N)) x) (rnd (998 / 1000))
    \<and> dmul (ddiv (rnd (of_nat N)) x) (rnd (998 / 1000)) \<le> 2 ^ 43"
proof -
  obtain x where x: "sum_inverse_D s = Some x" "(1 - of_nat N / 2 ^ 53) / 2 ^ 34 \<le> x"
    using assms(1,2) by (auto simp: lwma_ok_def)
  have N: "(of_nat N :: rat) \<le> 69" "0 < (of_nat N :: rat)" using assms(2,3) by simp_all
  then have x1: "1 / 2 ^ 35 \<le> x" using x(2) by (simp add: field_simps)
  have n: "0 < rnd (of_nat N)" "rnd (of_nat N) \<le> 70"
    using rnd_bounds(3) [OF N(2)] rnd_abs_le [of "of_nat N" 69 70] N by simp_all
  have "rnd (of_nat N) / x \<le> 70 / (1 / 2 ^ 35)" using n x1 by (intro frac_le) simp_all
  then have q: "0 < ddiv (rnd (of_nat N)) x" "ddiv (rnd (of_nat N)) x \<le> 71 * 2 ^ 35" unfolding ddiv_def
    using n x1 rnd_bounds(3) [of "rnd (of_nat N) / x"] rnd_abs_le [of "rnd (of_nat N) / x" "70 * 2 ^ 35" "71 * 2 ^ 35"] by simp_all
  have a: "0 < rnd (998 / 1000)" "rnd (998 / 1000) \<le> 1"
    using rnd_bounds(3) [of "998 / 1000"] rnd_abs_le [of "998 / 1000" "998 / 1000" 1] by simp_all
  have "ddiv (rnd (of_nat N)) x * rnd (998 / 1000) \<le> 71 * 2 ^ 35 * 1" using q a by (intro mult_mono) simp_all
  then have "0 < dmul (ddiv (rnd (of_nat N)) x) (rnd (998 / 1000)) \<and> dmul (ddiv (rnd (of_nat N)) x) (rnd (998 / 1000)) \<le> 2 ^ 43"
    unfolding dmul_def using q a rnd_bounds(3) [of "ddiv (rnd (of_nat N)) x * rnd (998 / 1000)"]
      rnd_abs_le [of "ddiv (rnd (of_nat N)) x * rnd (998 / 1000)" "71 * 2 ^ 35" "2 ^ 43"] by simp
  then show ?thesis using x(1) x1 by (auto simp: less_imp_le)
qed

lemma sint_small: "uint x < 2 ^ 63 \<Longrightarrow> sint x = uint x" for x :: u64
  by (simp add: sint_uint signed_take_bit_int_eq_self_iff uint_ge_0 order_trans [of "- 9223372036854775808" 0])

lemma abs_diff_small: "0 \<le> a \<Longrightarrow> 0 \<le> b \<Longrightarrow> a < 2 ^ 62 \<Longrightarrow> b < 2 ^ 62 \<Longrightarrow> \<bar>a - b\<bar> < (2 ^ 63 :: int)"
  by (simp add: abs_less_iff)

lemma lwma_floor:
  fixes L :: rat
  assumes bround: "\<bar>bround L - L\<bar> \<le> 1 / 2" "bround L = of_int z" and f: "1 \<le> f" and L: "\<bar>L\<bar> \<le> 2 ^ 37"
  shows "checked_i64 (trunc (bround L)) = Some z" "1 / 2 \<le> (if z < f then of_i64 f else L)"
proof -
  have t: "trunc (bround L) = z" unfolding bround(2) by (simp add: trunc_def)
  have b: "\<bar>of_int z - L\<bar> \<le> 1 / 2" using bround(1) unfolding bround(2) .
  then have "\<bar>of_int z\<bar> \<le> 1 / 2 + (2 ^ 37 :: rat)" using L by linarith
  moreover have "1 / 2 + 2 ^ 37 \<le> (2 ^ 38 :: rat)" by simp
  ultimately have "\<bar>of_int z\<bar> \<le> (2 ^ 38 :: rat)" by (rule order_trans)
  then have "\<bar>z\<bar> \<le> 2 ^ 38" by (simp flip: of_int_abs)
  then show "checked_i64 (trunc (bround L)) = Some z" unfolding t checked_i64_def by (simp add: abs_le_iff)
  have "1 / 2 \<le> of_i64 f" unfolding of_i64_def using f by (intro rnd_ge [of _ 1]) simp_all
  moreover have "1 / 2 \<le> L" if "\<not> z < f"
  proof -
    have "(1 :: rat) \<le> of_int z" using that f by simp
    then show ?thesis using b by linarith
  qed
  ultimately show "1 / 2 \<le> (if z < f then of_i64 f else L)" by simp
qed

lemma next_difficulty_v3_returns:
  assumes bround: "\<And>x. \<bar>bround x - x\<bar> \<le> 1 / 2" "\<And>x. bround x = of_int \<lfloor>bround x\<rfloor>"
    and len: "length cds = length ts" "6 \<le> length ts" "length ts \<le> 70"
    and T: "20 \<le> uint T" "uint T < 2 ^ 16"
    and ts: "\<forall>t\<in>set ts. uint t < 2 ^ 62"
    and d: "\<forall>i. 0 < i \<and> i < length ts \<longrightarrow> 0 < uint (cds ! i - cds ! (i - 1)) \<and> uint (cds ! i - cds ! (i - 1)) < 2 ^ 32"
  shows "\<exists>d. next_difficulty_v3 bround ts cds T = Some d \<and> clamped d"
proof -
  define N where "N = length ts - 1"
  define k where "k = rnd (of_nat (N * (N + 1) div 2))"
  define t where "t = uint T"
  define f where "f = sgn t * (\<bar>t\<bar> div 20)"
  have N: "5 \<le> N" "N \<le> 69" "0 < N" using len by (simp_all add: N_def)
  have st: "sint T = t" using T sint_small [of T] by (simp add: t_def)
  have t1: "20 \<le> t" "t < 2 ^ 16" using T by (simp_all add: t_def)
  then have "20 div 20 \<le> t div 20" by (intro zdiv_mono1) simp_all
  then have t: "20 \<le> t" "t < 2 ^ 16" "1 \<le> f" using t1 by (simp_all add: f_def)
  have tsd: "\<bar>sint (ts ! i) - sint (ts ! (i - 1))\<bar> < 2 ^ 63" if "0 < i" "i \<le> N" for i
  proof -
    have u: "uint (ts ! i) < 2 ^ 62" "uint (ts ! (i - 1)) < 2 ^ 62" using that ts len by (simp_all add: N_def)
    have "sint (ts ! i) = uint (ts ! i)" "sint (ts ! (i - 1)) = uint (ts ! (i - 1))" using u by (intro sint_small; simp)+
    moreover have "\<bar>uint (ts ! i) - uint (ts ! (i - 1))\<bar> < 2 ^ 63"
      using u by (intro abs_diff_small) simp_all
    ultimately show ?thesis by (simp only:)
  qed
  have dd: "0 < uint (cds ! i - cds ! (i - 1)) \<and> uint (cds ! i - cds ! (i - 1)) < 2 ^ 32" if "0 < i" "i \<le> N" for i
    using that d len by (simp add: N_def)
  have tp: "0 < t" using t(1) by simp
  have z: "lwma_ok (1 - 1) \<lparr>LWMA = 0, sum_inverse_D = Some 0\<rparr>" by (simp add: lwma_ok_def)
  have "\<exists>s. lwma_loop ts cds t k [1..<Suc N] \<lparr>LWMA = 0, sum_inverse_D = Some 0\<rparr> = Some s \<and> lwma_ok N s"
    by (rule lwma_loop_ok [OF tp t(2) k_bounds [OF N(1), folded k_def] N(2) tsd dd _ _ z]) (use N in simp_all)
  then obtain s where s: "lwma_loop ts cds t k [1..<Suc N] \<lparr>LWMA = 0, sum_inverse_D = Some 0\<rparr> = Some s" "lwma_ok N s"
    by blast
  have "\<bar>LWMA s\<bar> \<le> of_nat N * 2 ^ 30" using s(2) by (simp add: lwma_ok_def)
  moreover have "of_nat N * 2 ^ 30 \<le> (2 ^ 37 :: rat)" using N by simp
  ultimately have L: "\<bar>LWMA s\<bar> \<le> 2 ^ 37" by linarith
  define z where "z = \<lfloor>bround (LWMA s)\<rfloor>"
  note lf = lwma_floor [of bround "LWMA s", OF bround(1) [of "LWMA s"] bround(2) [of "LWMA s", folded z_def] t(3) L]
  obtain x where x: "sum_inverse_D s = Some x" "x \<noteq> 0" "0 \<le> dmul (ddiv (rnd (of_nat N)) x) (rnd (998 / 1000))"
      "dmul (ddiv (rnd (of_nat N)) x) (rnd (998 / 1000)) \<le> 2 ^ 43"
    using harmonic_bounds [OF s(2) N(3,2)] by blast
  have "0 \<le> of_i64 t" "of_i64 t \<le> 2 ^ 17"
    unfolding of_i64_def using t rnd_bounds(3) [of "of_int t"] rnd_abs_le [of "of_int t" "2 ^ 16" "2 ^ 17"] by simp_all
  then obtain r where r: "to_u64 (ddiv (dmul (dmul (ddiv (rnd (of_nat N)) x) (rnd (998 / 1000))) (of_i64 t)) (if z < f then of_i64 f else LWMA s)) = Some r"
    using final_bounds [OF x(3,4) _ _ lf(2)] by blast
  have nz: "(if z < f then of_i64 f else LWMA s) \<noteq> 0" using lf(2) by auto
  have c: "\<not> length ts > 70" "\<not> length ts \<noteq> length cds" "\<not> \<not> length ts \<le> 70" "\<not> length ts < 6" using len by simp_all
  have "next_difficulty_v3 bround ts cds T = Some (if r < 2000 then 75723142 else if r > 120307799 then 120307799 else r)"
    unfolding next_difficulty_v3_def Let_def st f_def [symmetric] DIFFICULTY_WINDOW_V2_def if_not_P [OF c(1)] prod.case
      if_not_P [OF c(2)] if_not_P [OF c(3)] if_not_P [OF c(4)] N_def [symmetric] k_def [symmetric] s(1) Option.bind.simps lf(1) x(1)
      option.case if_not_P [OF x(2)] if_not_P [OF nz] r ..
  then show ?thesis by (auto simp: clamped_def)
qed

text \<open>
  C38.  \<^verbatim>\<open>next_difficulty_v3\<close> stays in its limits.  With fewer than six blocks it returns 1.  With six to
  seventy blocks, a target between 20 seconds and 18 hours, timestamps below $2^{62}$ and every
  block difficulty between 1 and $2^{32}$, in whatever order the timestamps come, no conversion and
  no signed operation overflows and the result is 75723142 or between 2000 and 120307799.  With more
  than seventy blocks its second assertion always fails.
\<close>

theorem next_difficulty_v3_bounded:
  assumes bround: "\<And>x. \<bar>bround x - x\<bar> \<le> 1 / 2" "\<And>x. bround x = of_int \<lfloor>bround x\<rfloor>"
    and len: "length cds = length ts"
    and T: "20 \<le> uint T" "uint T < 2 ^ 16"
    and ts: "\<forall>t\<in>set ts. uint t < 2 ^ 62"
    and d: "\<forall>i. 0 < i \<and> i < length ts \<longrightarrow> 0 < uint (cds ! i - cds ! (i - 1)) \<and> uint (cds ! i - cds ! (i - 1)) < 2 ^ 32"
  shows "if length ts < 6 then next_difficulty_v3 bround ts cds T = Some 1
    else if length ts \<le> 70 then \<exists>d. next_difficulty_v3 bround ts cds T = Some d \<and> clamped d
    else next_difficulty_v3 bround ts cds T = None"
proof -
  consider "length ts < 6" | "length ts > 70" | "6 \<le> length ts \<and> length ts \<le> 70" by linarith
  then show ?thesis
  proof cases
    case 3
    then show ?thesis using next_difficulty_v3_returns [OF bround len _ _ T ts d] by simp
  qed (simp_all add: next_difficulty_v3_def DIFFICULTY_WINDOW_V2_def len)
qed

theorem next_difficulty_v3_bounded_witness:
  "\<exists>d. next_difficulty_v3 (\<lambda>x. of_int \<lfloor>x + 1 / 2\<rfloor>) [0, 9, 5, 40, 40, 90] [1, 2, 4, 5, 6, 7] 120 = Some d \<and> clamped d"
proof -
  have "\<bar>of_int \<lfloor>x + 1 / 2\<rfloor> - x\<bar> \<le> 1 / 2" for x :: rat by linarith
  moreover have "0 < uint ([1, 2, 4, 5, 6, 7] ! i - [1, 2, 4, 5, 6, 7 :: u64] ! (i - 1))
      \<and> uint ([1, 2, 4, 5, 6, 7] ! i - [1, 2, 4, 5, 6, 7 :: u64] ! (i - 1)) < 2 ^ 32" if "0 < i" "i < 6" for i
  proof -
    have "i = 1 \<or> i = 2 \<or> i = 3 \<or> i = 4 \<or> i = 5" using that by linarith
    then show ?thesis by (elim disjE) simp_all
  qed
  ultimately show ?thesis
    using next_difficulty_v3_bounded [of "\<lambda>x. of_int \<lfloor>x + 1 / 2\<rfloor>" "[1, 2, 4, 5, 6, 7]" "[0, 9, 5, 40, 40, 90]" 120] by simp
qed

end
