(* ===== verification/Spec2Isabelle.thy ===== *)
theory Spec2Isabelle
  imports Prelude Le_Bytes Fe_Arith Sc_Limbs Sc_Reduce Sc_Ops Fe_Bytes Fe_Pow Ge_Arith Ge_Bytes Sc_Recode Ge_Mult Ge_Base Ge_FromFe
    Int_Util Varint Keccak Base58 Tree_Hash Difficulty Hard_Fork Hard_Fork_Chain Double Block_Reward Difficulty_V3
begin

text \<open>
  A verification development of the cryptographic core of Electronero.

  \<^verbatim>\<open>src/src/crypto/crypto-ops.c\<close> implements the arithmetic of the curve Ed25519 on which keys,
  signatures and ring confidential transactions rest.  Its lowest layer works on field elements
  modulo $2^{255} - 19$, held as ten signed 32-bit limbs.

  \<^item> \<open>Prelude\<close>: machine integers as \<^typ>\<open>int\<close> with explicit conversions, bounds, bytes.
  \<^item> \<open>Le_Bytes\<close>: \<^verbatim>\<open>load_3\<close>, \<^verbatim>\<open>load_4\<close> and the little-endian reference encoding.
  \<^item> \<open>Fe_Arith\<close>: \<^verbatim>\<open>fe_0\<close> to \<^verbatim>\<open>fe_sub\<close>, the field operations.
\<close>

end
